(* ===== verification/Prelude.thy ===== *)
theory Prelude
  imports Main "HOL-Library.Word"
begin

text \<open>
  Shared vocabulary of the development: Rust's fixed-width integers as words, little-endian
  byte sequences (\<open>from_le_bytes\<close> and \<open>to_le_bytes\<close> of the Rust standard library), the
  physical memory as a function from addresses to bytes, and the generic facts on words,
  alignment and memory that the component theories use.

  Arithmetic on words wraps around, which is what the release profile of \<open>Cargo.toml\<close>
  compiles; the development profile checks for overflow and panics instead. Theorems whose
  conclusion depends on the difference carry bounds that exclude the overflow, so they hold
  of both profiles.
\<close>

unbundle bit_operations_syntax

type_synonym u8 = "8 word"
type_synonym u16 = "16 word"
type_synonym u32 = "32 word"
type_synonym u64 = "64 word"
type_synonym usize = "64 word"
type_synonym i32 = "32 word"
type_synonym i64 = "64 word"
type_synonym ram = "u64 \<Rightarrow> u8"

named_theorems aligned_intros
named_theorems ram_simps

section \<open>Little-endian byte sequences\<close>

primrec from_le_bytes :: "u8 list \<Rightarrow> 'a::len word" where
  "from_le_bytes [] = 0"
| "from_le_bytes (b # bs) = ucast b OR push_bit 8 (from_le_bytes bs)"

definition to_le_bytes :: "nat \<Rightarrow> 'a::len word \<Rightarrow> u8 list" where
  "to_le_bytes n w = map (\<lambda>i. ucast (drop_bit (8 * i) w)) [0..<n]"

lemma length_to_le_bytes [simp]: "length (to_le_bytes n w) = n"
  by (simp add: to_le_bytes_def)

lemma nth_to_le_bytes [simp]: "i < n \<Longrightarrow> to_le_bytes n w ! i = ucast (drop_bit (8 * i) w)"
  by (simp add: to_le_bytes_def)

lemma bit_from_le_bytes:
  "bit (from_le_bytes bs :: 'a::len word) n \<longleftrightarrow>
     n < LENGTH('a) \<and> n div 8 < length bs \<and> bit (bs ! (n div 8)) (n mod 8)"
proof (induction bs arbitrary: n)
  case Nil
  then show ?case by simp
next
  case (Cons b bs)
  show ?case
  proof (cases "n < 8")
    case True
    then show ?thesis
      by (auto simp: bit_or_iff bit_push_bit_iff bit_unsigned_iff possible_bit_def)
  next
    case False
    then have "(n - 8) div 8 = n div 8 - 1" "(n - 8) mod 8 = n mod 8" "0 < n div 8"
      by (auto simp: le_mod_geq le_div_geq)
    moreover have "\<not> bit b n"
      using False bit_imp_le_length by fastforce
    moreover have "n div 8 - 1 < length bs \<longleftrightarrow> n div 8 < Suc (length bs)"
      using \<open>0 < n div 8\<close> by linarith
    ultimately show ?thesis
      using False Cons [of "n - 8"]
      by (auto simp: bit_or_iff bit_push_bit_iff bit_unsigned_iff possible_bit_def nth_Cons')
  qed
qed

lemma from_to_le_bytes:
  assumes "LENGTH('a) \<le> 8 * n"
  shows "from_le_bytes (to_le_bytes n w) = (w :: 'a::len word)"
proof (rule bit_word_eqI)
  fix k
  assume k: "k < LENGTH('a)"
  with assms have "k div 8 < n" by linarith
  moreover have "8 * (k div 8) + k mod 8 = k" by simp
  ultimately show "bit (from_le_bytes (to_le_bytes n w) :: 'a word) k = bit w k"
    using k by (simp add: bit_from_le_bytes bit_unsigned_iff bit_drop_bit_eq possible_bit_def)
qed

section \<open>Physical memory\<close>

text \<open>
  A copy of \<open>length bs\<close> bytes to address \<open>a\<close> (\<open>copy_nonoverlapping\<close>), and a fill of \<open>n\<close>
  bytes (\<open>write_bytes\<close>). The distance \<open>x - a\<close> wraps, so both are defined at every address.
\<close>

definition store_bytes :: "ram \<Rightarrow> u64 \<Rightarrow> u8 list \<Rightarrow> ram" where
  "store_bytes m a bs = (\<lambda>x. if unat (x - a) < length bs then bs ! unat (x - a) else m x)"

definition write_bytes :: "ram \<Rightarrow> u64 \<Rightarrow> u8 \<Rightarrow> nat \<Rightarrow> ram" where
  "write_bytes m a b n = (\<lambda>x. if unat (x - a) < n then b else m x)"

definition load_bytes :: "ram \<Rightarrow> u64 \<Rightarrow> nat \<Rightarrow> u8 list" where
  "load_bytes m a n = map (\<lambda>i. m (a + of_nat i)) [0..<n]"

definition load64 :: "ram \<Rightarrow> u64 \<Rightarrow> u64" where
  "load64 m a = from_le_bytes (load_bytes m a 8)"

definition store64 :: "ram \<Rightarrow> u64 \<Rightarrow> u64 \<Rightarrow> ram" where
  "store64 m a v = store_bytes m a (to_le_bytes 8 v)"

text \<open>The addresses \<open>a, \<dots>, a + n - 1\<close>, as natural numbers.\<close>

definition span :: "u64 \<Rightarrow> nat \<Rightarrow> nat set" where
  "span a n = {unat a..<unat a + n}"

lemma unat_less_2p64 [simp]: "unat (x :: u64) < 18446744073709551616"
  using unsigned_less [where 'b = 64 and 'a = nat, of x] by simp

lemma unat_diff_span:
  assumes "unat a + n \<le> 2 ^ 64"
  shows "unat (x - a) < n \<longleftrightarrow> unat x \<in> span a n"
proof (cases "a \<le> x")
  case True
  then have "unat (x - a) = unat x - unat a" by (simp add: unat_sub)
  with True show ?thesis
    by (auto simp: span_def word_le_nat_alt)
next
  case False
  then have lt: "unat x < unat a" by (simp add: word_le_nat_alt)
  have "unat (x - a) = (2 ^ 64 + unat x) - unat a"
    using False by (simp add: unat_sub_if_size word_size word_le_nat_alt)
  with assms lt show ?thesis by (auto simp: span_def)
qed

lemma unat_plus_of_nat:
  assumes "unat (a :: u64) + i < 2 ^ 64"
  shows "unat (a + of_nat i) = unat a + i"
  using assms by (simp add: unat_word_ariths unat_of_nat)

lemma store_bytes_other:
  assumes "unat a + length bs \<le> 2 ^ 64" "unat x \<notin> span a (length bs)"
  shows "store_bytes m a bs x = m x"
  using assms by (simp add: store_bytes_def unat_diff_span)

lemma store64_other:
  assumes "unat a + 8 \<le> 2 ^ 64" "unat x \<notin> span a 8"
  shows "store64 m a v x = m x"
  using assms unfolding store64_def by (intro store_bytes_other) simp_all

lemma load_bytes_cong:
  assumes "unat a + n \<le> 2 ^ 64" "\<forall>y. unat y \<in> span a n \<longrightarrow> m' y = m y"
  shows "load_bytes m' a n = load_bytes m a n"
proof -
  have "m' (a + of_nat i) = m (a + of_nat i)" if "i < n" for i
    using assms that unat_plus_of_nat [of a i] by (auto simp: span_def)
  then show ?thesis by (simp add: load_bytes_def)
qed

lemma load_store_bytes:
  assumes "length bs \<le> 2 ^ 63"
  shows "load_bytes (store_bytes m a bs) a (length bs) = bs"
proof (rule nth_equalityI)
  fix i assume "i < length (load_bytes (store_bytes m a bs) a (length bs))"
  then have i: "i < length bs" by (simp add: load_bytes_def)
  then have "unat (of_nat i :: u64) = i" using assms by (simp add: unat_of_nat)
  then show "load_bytes (store_bytes m a bs) a (length bs) ! i = bs ! i" using i by (simp add: load_bytes_def store_bytes_def)
qed (simp add: load_bytes_def)

lemma write_bytes_other:
  assumes "unat a + n \<le> 2 ^ 64" "unat x \<notin> span a n"
  shows "write_bytes m a b n x = m x"
  using assms by (simp add: write_bytes_def unat_diff_span)

lemma write_bytes_in:
  assumes "unat a + n \<le> 2 ^ 64" "unat x \<in> span a n"
  shows "write_bytes m a b n x = b"
  using assms by (simp add: write_bytes_def unat_diff_span)

lemma load64_cong:
  assumes "unat a + 8 \<le> 2 ^ 64" "\<And>x. unat x \<in> span a 8 \<Longrightarrow> m x = m' x"
  shows "load64 m a = load64 m' a"
proof -
  have "m (a + of_nat i) = m' (a + of_nat i)" if "i < 8" for i
  proof (rule assms(2))
    have "unat (a + of_nat i) = unat a + i"
      using assms(1) that by (intro unat_plus_of_nat) simp
    with that show "unat (a + of_nat i) \<in> span a 8" by (simp add: span_def)
  qed
  then have "load_bytes m a 8 = load_bytes m' a 8"
    by (auto simp: load_bytes_def)
  then show ?thesis by (simp add: load64_def)
qed

lemma load64_store_bytes_disjoint:
  assumes "unat a + length bs \<le> 2 ^ 64" "unat b + 8 \<le> 2 ^ 64"
    and "span a (length bs) \<inter> span b 8 = {}"
  shows "load64 (store_bytes m a bs) b = load64 m b"
  using assms by (intro load64_cong store_bytes_other) auto

lemma load64_write_bytes_disjoint:
  assumes "unat a + n \<le> 2 ^ 64" "unat b + 8 \<le> 2 ^ 64"
    and "span a n \<inter> span b 8 = {}"
  shows "load64 (write_bytes m a v n) b = load64 m b"
  using assms by (intro load64_cong write_bytes_other) auto

lemma load64_write_bytes_zero:
  assumes "unat a + n \<le> 2 ^ 64" "unat b + 8 \<le> 2 ^ 64" "span b 8 \<subseteq> span a n"
  shows "load64 (write_bytes m a 0 n) b = 0"
proof -
  have "load64 (write_bytes m a 0 n) b = load64 (\<lambda>_. 0) b"
    using assms by (intro load64_cong) (auto simp: write_bytes_in)
  also have "\<dots> = 0"
    by (intro bit_word_eqI) (simp add: load64_def load_bytes_def bit_from_le_bytes)
  finally show ?thesis .
qed

lemma load64_store64_same [ram_simps]: "load64 (store64 m a v) a = v"
proof -
  have "load_bytes (store64 m a v) a 8 = to_le_bytes 8 v"
    by (rule nth_equalityI)
      (auto simp: load_bytes_def store64_def store_bytes_def unat_of_nat)
  then show ?thesis by (simp add: load64_def from_to_le_bytes)
qed

lemma load64_store64_disjoint:
  assumes "unat a + 8 \<le> 2 ^ 64" "unat b + 8 \<le> 2 ^ 64" "span a 8 \<inter> span b 8 = {}"
  shows "load64 (store64 m a v) b = load64 m b"
  using assms unfolding store64_def
  by (intro load64_store_bytes_disjoint) simp_all

section \<open>Alignment\<close>

text \<open>\<open>aligned k a\<close>: the address is a multiple of \<open>2 ^ k\<close>.\<close>

definition aligned :: "nat \<Rightarrow> u64 \<Rightarrow> bool" where
  "aligned k a \<longleftrightarrow> 2 ^ k dvd unat a"

lemma aligned_bit: "aligned k a \<longleftrightarrow> (\<forall>n<k. \<not> bit a n)"
proof -
  have "aligned k a \<longleftrightarrow> take_bit k (unat a) = 0"
    by (simp add: aligned_def take_bit_eq_mod mod_eq_0_iff_dvd)
  also have "\<dots> \<longleftrightarrow> (\<forall>n<k. \<not> bit (unat a) n)"
    by (auto simp: bit_eq_iff bit_take_bit_iff)
  finally show ?thesis by (simp add: bit_unsigned_iff)
qed

lemma aligned_mono: "aligned k a \<Longrightarrow> j \<le> k \<Longrightarrow> aligned j a"
  by (auto simp: aligned_bit)

lemma aligned_0 [simp]: "aligned k 0"
  by (simp add: aligned_def)

lemma aligned_bound:
  assumes "aligned k a" "k \<le> 64"
  shows "unat a + 2 ^ k \<le> 2 ^ 64"
proof -
  obtain q where q: "unat a = 2 ^ k * q" using assms by (auto simp: aligned_def)
  have p: "(2::nat) ^ 64 = 2 ^ k * 2 ^ (64 - k)"
    using assms by (simp flip: power_add)
  have "2 ^ k * q < 2 ^ k * 2 ^ (64 - k)"
    using unat_less_2p64 [of a] q p by simp
  then have "q < 2 ^ (64 - k)" by simp
  then have "2 ^ k * (q + 1) \<le> 2 ^ k * 2 ^ (64 - k)" by (intro mult_le_mono) auto
  with q p show ?thesis by simp
qed

text \<open>Two blocks of the same power-of-two size, each aligned to it, are equal or disjoint.\<close>

lemma aligned_span_disjoint:
  assumes "aligned k a" "aligned k b" "a \<noteq> b"
  shows "span a (2 ^ k) \<inter> span b (2 ^ k) = {}"
proof -
  obtain p q where pq: "unat a = 2 ^ k * p" "unat b = 2 ^ k * q"
    using assms(1,2) unfolding aligned_def by (meson dvdE)
  with assms(3) have "p \<noteq> q" using word_unat_eq_iff by metis
  then have "p + 1 \<le> q \<or> q + 1 \<le> p" by linarith
  then have "2 ^ k * (p + 1) \<le> 2 ^ k * q \<or> 2 ^ k * (q + 1) \<le> 2 ^ k * p"
    using mult_le_mono2 by blast
  with pq show ?thesis by (auto simp: span_def)
qed

lemma span_mono: "n \<le> k \<Longrightarrow> span a n \<subseteq> span a k"
  by (auto simp: span_def)

lemma in_span_self [simp]: "0 < n \<Longrightarrow> unat a \<in> span a n"
  by (simp add: span_def)

lemma finite_span [simp]: "finite (span a n)"
  by (simp add: span_def)

lemma card_span [simp]: "card (span a n) = n"
  by (simp add: span_def)

section \<open>Loops over a list\<close>

text \<open>A \<open>for\<close> loop whose body may fail to return; the first failure ends the loop.\<close>

fun fold_opt :: "('a \<Rightarrow> 's \<Rightarrow> 's option) \<Rightarrow> 'a list \<Rightarrow> 's \<Rightarrow> 's option" where
  "fold_opt f [] s = Some s"
| "fold_opt f (x # xs) s = (case f x s of None \<Rightarrow> None | Some s' \<Rightarrow> fold_opt f xs s')"

lemma fold_opt_append:
  "fold_opt f (xs @ ys) s = (case fold_opt f xs s of None \<Rightarrow> None | Some s' \<Rightarrow> fold_opt f ys s')"
  by (induction xs arbitrary: s) (auto split: option.splits)

text \<open>The loop rule: an invariant indexed by the elements already handled.\<close>

lemma fold_opt_invariant:
  assumes "P [] s"
    and "\<And>xs x ys s. zs = xs @ x # ys \<Longrightarrow> P xs s \<Longrightarrow> \<exists>s'. f x s = Some s' \<and> P (xs @ [x]) s'"
  shows "\<exists>s'. fold_opt f zs s = Some s' \<and> P zs s'"
proof -
  have "\<exists>s'. fold_opt f ys s = Some s' \<and> P zs s'" if "zs = xs @ ys" "P xs s" for xs ys s
    using that
  proof (induction ys arbitrary: xs s)
    case Nil
    then show ?case by simp
  next
    case (Cons y ys)
    obtain s1 where s1: "f y s = Some s1" "P (xs @ [y]) s1" using assms(2) [OF Cons.prems] by blast
    then show ?case using Cons.IH [of "xs @ [y]" s1] Cons.prems(1) by simp
  qed
  from this [of "[]" zs s] assms(1) show ?thesis by simp
qed

section \<open>Transition systems\<close>

inductive reach :: "('s \<Rightarrow> bool) \<Rightarrow> ('s \<Rightarrow> 's \<Rightarrow> bool) \<Rightarrow> 's \<Rightarrow> bool" for start step where
  reach_start: "start s \<Longrightarrow> reach start step s"
| reach_step: "reach start step s \<Longrightarrow> step s t \<Longrightarrow> reach start step t"

text \<open>An invariant of a transition system: it holds at the start and every step keeps it.\<close>

locale transition_invariant =
  fixes start :: "'s \<Rightarrow> bool" and step :: "'s \<Rightarrow> 's \<Rightarrow> bool" and inv :: "'s \<Rightarrow> bool"
  assumes start_inv: "start s \<Longrightarrow> inv s"
    and step_inv: "step s t \<Longrightarrow> inv s \<Longrightarrow> inv t"
begin

lemma reach_inv: "reach start step s \<Longrightarrow> inv s"
  by (induction rule: reach.induct) (auto intro: start_inv step_inv)

end

section \<open>UTF-8\<close>

text \<open>The byte strings \<open>core::str::from_utf8\<close> accepts.\<close>

definition utf8_cont :: "u8 \<Rightarrow> bool" where
  "utf8_cont b \<longleftrightarrow> 0x80 \<le> b \<and> b \<le> 0xBF"

fun utf8_valid :: "u8 list \<Rightarrow> bool" where
  "utf8_valid [] \<longleftrightarrow> True"
| "utf8_valid (a # xs) \<longleftrightarrow>
     (if a < 0x80 then utf8_valid xs
      else case xs of
        [] \<Rightarrow> False
      | b # ys \<Rightarrow>
          if a \<le> 0xDF then 0xC2 \<le> a \<and> utf8_cont b \<and> utf8_valid ys
          else case ys of
            [] \<Rightarrow> False
          | c # zs \<Rightarrow>
              if a \<le> 0xEF
              then utf8_cont b \<and> utf8_cont c \<and> (a = 0xE0 \<longrightarrow> 0xA0 \<le> b) \<and> (a = 0xED \<longrightarrow> b \<le> 0x9F)
                   \<and> utf8_valid zs
              else case zs of
                [] \<Rightarrow> False
              | d # ws \<Rightarrow>
                  a \<le> 0xF4 \<and> utf8_cont b \<and> utf8_cont c \<and> utf8_cont d
                  \<and> (a = 0xF0 \<longrightarrow> 0x90 \<le> b) \<and> (a = 0xF4 \<longrightarrow> b \<le> 0x8F) \<and> utf8_valid ws)"

text \<open>The characters of \<open>char::is_whitespace\<close> in their encoding, and \<open>str::trim_end\<close>, \<open>trim_start\<close>, \<open>trim\<close>.\<close>

definition utf8_spaces :: "u8 list list" where
  "utf8_spaces =
     [[9], [10], [11], [12], [13], [32], [0xC2, 0x85], [0xC2, 0xA0], [0xE1, 0x9A, 0x80],
      [0xE2, 0x80, 0x80], [0xE2, 0x80, 0x81], [0xE2, 0x80, 0x82], [0xE2, 0x80, 0x83], [0xE2, 0x80, 0x84],
      [0xE2, 0x80, 0x85], [0xE2, 0x80, 0x86], [0xE2, 0x80, 0x87], [0xE2, 0x80, 0x88], [0xE2, 0x80, 0x89],
      [0xE2, 0x80, 0x8A], [0xE2, 0x80, 0xA8], [0xE2, 0x80, 0xA9], [0xE2, 0x80, 0xAF], [0xE2, 0x81, 0x9F],
      [0xE3, 0x80, 0x80]]"

fun strip_prefixes :: "'a list list \<Rightarrow> nat \<Rightarrow> 'a list \<Rightarrow> 'a list" where
  "strip_prefixes ws 0 s = s"
| "strip_prefixes ws (Suc n) s =
     (case find (\<lambda>w. take (length w) s = w) ws of
        None \<Rightarrow> s | Some w \<Rightarrow> strip_prefixes ws n (drop (length w) s))"

definition trim_start :: "u8 list \<Rightarrow> u8 list" where
  "trim_start s = strip_prefixes utf8_spaces (length s) s"

definition trim_end :: "u8 list \<Rightarrow> u8 list" where
  "trim_end s = rev (strip_prefixes (map rev utf8_spaces) (length s) (rev s))"

definition str_trim :: "u8 list \<Rightarrow> u8 list" where
  "str_trim s = trim_end (trim_start s)"

text \<open>\<open>String::push\<close> of a character, and the bytes of a literal.\<close>

definition encode_utf8 :: "u32 \<Rightarrow> u8 list" where
  "encode_utf8 c =
     (if c < 0x80 then [ucast c]
      else if c < 0x800 then [0xC0 OR ucast (drop_bit 6 c), 0x80 OR ucast (c AND 0x3F)]
      else if c < 0x10000
      then [0xE0 OR ucast (drop_bit 12 c), 0x80 OR ucast (drop_bit 6 c AND 0x3F), 0x80 OR ucast (c AND 0x3F)]
      else [0xF0 OR ucast (drop_bit 18 c), 0x80 OR ucast (drop_bit 12 c AND 0x3F),
            0x80 OR ucast (drop_bit 6 c AND 0x3F), 0x80 OR ucast (c AND 0x3F)])"

definition str :: "string \<Rightarrow> u8 list" where
  "str s = map of_char s"

definition lower_byte :: "u8 \<Rightarrow> u8" where
  "lower_byte b = (if 65 \<le> b \<and> b \<le> 90 then b + 32 else b)"

end
