(* ===== verification/Pmm.thy ===== *)
theory Pmm
  imports Prelude
begin

text \<open>
  The physical memory manager of \<open>src/src/mm/pmm.rs\<close>: thirteen intrusive free lists, one per
  block order, whose links live in the free blocks themselves, and the buddy allocator built
  on them, as the code has them. \<open>Buddy\<close> has the allocator over plain lists of addresses and
  the proof that this code refines it, \<open>Frames\<close> what it promises.

  A call that does not return (an out-of-range index panics, a list walk may never end) is
  \<open>None\<close>. The offset of the higher-half direct map is the boot loader's and is the field
  \<open>hhdm\<close>.
\<close>

section \<open>The code\<close>

definition PAGE_SIZE :: u64 where "PAGE_SIZE = 4096"
definition MAX_ORDER :: nat where "MAX_ORDER = 12"

definition align_up :: "u64 \<Rightarrow> u64 \<Rightarrow> u64" where
  "align_up val al = (val + al - 1) AND NOT (al - 1)"

definition align_down :: "u64 \<Rightarrow> u64 \<Rightarrow> u64" where
  "align_down val al = val AND NOT (al - 1)"

definition is_aligned :: "u64 \<Rightarrow> u64 \<Rightarrow> bool" where
  "is_aligned val al = (val AND (al - 1) = 0)"

text \<open>\<open>limine.rs\<close>: the direct map. A kernel pointer is null when it is 0.\<close>

definition phys_to_virt :: "u64 \<Rightarrow> u64 \<Rightarrow> u64" where
  "phys_to_virt hh phys = phys + hh"

definition virt_to_phys :: "u64 \<Rightarrow> u64 \<Rightarrow> u64" where
  "virt_to_phys hh virt = virt - hh"

definition phys_to_virt_rev :: "u64 \<Rightarrow> u64 \<Rightarrow> u64" where
  "phys_to_virt_rev hh virt = virt_to_phys hh virt"

text \<open>\<open>(*p).next\<close> for a kernel pointer \<open>p\<close>: the first eight bytes of the block.\<close>

definition get_next :: "u64 \<Rightarrow> ram \<Rightarrow> u64 \<Rightarrow> u64" where
  "get_next hh m p = load64 m (virt_to_phys hh p)"

definition set_next :: "u64 \<Rightarrow> ram \<Rightarrow> u64 \<Rightarrow> u64 \<Rightarrow> ram" where
  "set_next hh m p v = store64 m (virt_to_phys hh p) v"

record free_list =
  fl_head :: u64
  fl_count :: usize

definition fl_empty :: free_list where
  "fl_empty = \<lparr>fl_head = 0, fl_count = 0\<rparr>"

definition fl_push :: "u64 \<Rightarrow> ram \<Rightarrow> free_list \<Rightarrow> u64 \<Rightarrow> ram \<times> free_list" where
  "fl_push hh m fl phys =
     (let virt = phys_to_virt hh phys
      in (set_next hh m virt (fl_head fl),
          fl\<lparr>fl_head := virt, fl_count := fl_count fl + 1\<rparr>))"

definition fl_pop :: "u64 \<Rightarrow> ram \<Rightarrow> free_list \<Rightarrow> (u64 \<times> free_list) option" where
  "fl_pop hh m fl =
     (if fl_head fl = 0 then None
      else let block = fl_head fl
           in Some (phys_to_virt_rev hh block,
                    fl\<lparr>fl_head := get_next hh m block, fl_count := fl_count fl - 1\<rparr>))"

text \<open>
  \<open>FreeList::remove\<close> walks with a pointer to the link it may rewrite: the list's head
  (\<open>None\<close>) or the link of a block (\<open>Some p\<close>).
\<close>

partial_function (option) fl_remove_from ::
  "u64 \<Rightarrow> ram \<Rightarrow> free_list \<Rightarrow> u64 option \<Rightarrow> u64 \<Rightarrow> (ram \<times> free_list \<times> bool) option" where
  "fl_remove_from hh m fl cur target =
     (let p = (case cur of None \<Rightarrow> fl_head fl | Some c \<Rightarrow> get_next hh m c)
      in if p = 0 then Some (m, fl, False)
         else if p = target then
           (let nxt = get_next hh m p; fl' = fl\<lparr>fl_count := fl_count fl - 1\<rparr>
            in case cur of None \<Rightarrow> Some (m, fl'\<lparr>fl_head := nxt\<rparr>, True)
               | Some c \<Rightarrow> Some (set_next hh m c nxt, fl', True))
         else fl_remove_from hh m fl (Some p) target)"

definition fl_remove :: "u64 \<Rightarrow> ram \<Rightarrow> free_list \<Rightarrow> u64 \<Rightarrow> (ram \<times> free_list \<times> bool) option" where
  "fl_remove hh m fl phys = fl_remove_from hh m fl None (phys_to_virt hh phys)"

record buddy_allocator =
  lists :: "free_list list"
  base_phys :: u64
  total_frames :: usize

definition buddy_new :: buddy_allocator where
  "buddy_new = \<lparr>lists = replicate (MAX_ORDER + 1) fl_empty, base_phys = 0, total_frames = 0\<rparr>"

text \<open>The memory state of the kernel: physical memory, the allocator and its two counters.\<close>

record kmem =
  hhdm :: u64
  ram :: ram
  PMM :: buddy_allocator
  FREE_PAGES :: usize
  TOTAL_PAGES :: usize

text \<open>\<open>self.lists[o].push(phys)\<close>; every caller keeps \<open>o\<close> in range.\<close>

definition push_at :: "kmem \<Rightarrow> nat \<Rightarrow> u64 \<Rightarrow> kmem" where
  "push_at s ord phys =
     (case fl_push (hhdm s) (ram s) (lists (PMM s) ! ord) phys of (m, fl) \<Rightarrow>
        s\<lparr>ram := m, PMM := (PMM s)\<lparr>lists := (lists (PMM s))[ord := fl]\<rparr>\<rparr>)"

definition block_size :: "nat \<Rightarrow> u64" where
  "block_size ord = push_bit ord PAGE_SIZE"

text \<open>The inner loop of \<open>add_region\<close>: the largest order whose block fits at \<open>addr\<close>.\<close>

fun region_order :: "u64 \<Rightarrow> u64 \<Rightarrow> nat \<Rightarrow> nat" where
  "region_order addr limit ord =
     (if ord = 0 \<or> addr mod block_size ord \<noteq> 0 \<or> addr + block_size ord > limit
      then (if ord = 0 then 0 else region_order addr limit (ord - 1))
      else ord)"

definition count_pages :: "kmem \<Rightarrow> nat \<Rightarrow> kmem" where
  "count_pages s ord =
     s\<lparr>FREE_PAGES := FREE_PAGES s + push_bit ord 1, TOTAL_PAGES := TOTAL_PAGES s + push_bit ord 1\<rparr>"

partial_function (option) add_region_from :: "kmem \<Rightarrow> u64 \<Rightarrow> u64 \<Rightarrow> kmem option" where
  "add_region_from s addr limit =
     (if addr < limit then
        (let ord = region_order addr limit MAX_ORDER
         in add_region_from (count_pages (push_at s ord addr) ord) (addr + block_size ord) limit)
      else Some s)"

definition add_region :: "kmem \<Rightarrow> u64 \<Rightarrow> u64 \<Rightarrow> kmem option" where
  "add_region s base len =
     add_region_from s (align_up base PAGE_SIZE) (align_down (base + len) PAGE_SIZE)"

text \<open>The loop of \<open>alloc\<close> that gives the upper halves of a split block back.\<close>

fun split_down :: "kmem \<Rightarrow> u64 \<Rightarrow> nat \<Rightarrow> nat \<Rightarrow> kmem" where
  "split_down s phys current_order order =
     (if current_order > order then
        split_down (push_at s (current_order - 1) (phys + block_size (current_order - 1)))
          phys (current_order - 1) order
      else s)"

definition buddy_alloc :: "kmem \<Rightarrow> nat \<Rightarrow> (u64 \<times> kmem) option" where
  "buddy_alloc s order =
     (case find (\<lambda>ord. fl_head (lists (PMM s) ! ord) \<noteq> 0) [order..<MAX_ORDER + 1] of
        None \<Rightarrow> None
      | Some found_order \<Rightarrow>
          (case fl_pop (hhdm s) (ram s) (lists (PMM s) ! found_order) of
             None \<Rightarrow> None
           | Some (phys, fl) \<Rightarrow>
               (let s1 = s\<lparr>PMM := (PMM s)\<lparr>lists := (lists (PMM s))[found_order := fl]\<rparr>\<rparr>;
                    s2 = split_down s1 phys found_order order
                in Some (phys, s2\<lparr>FREE_PAGES := FREE_PAGES s2 - push_bit order 1\<rparr>))))"

text \<open>The coalescing loop of \<open>free\<close>: it stops at the top order or when the buddy is not free.\<close>

function free_loop :: "kmem \<Rightarrow> u64 \<Rightarrow> nat \<Rightarrow> (kmem \<times> u64 \<times> nat) option" where
  "free_loop s current_phys current_order =
     (if current_order \<ge> MAX_ORDER then Some (s, current_phys, current_order)
      else let buddy_phys = current_phys XOR block_size current_order
           in (case fl_remove (hhdm s) (ram s) (lists (PMM s) ! current_order) buddy_phys of
                 None \<Rightarrow> None
               | Some (m, fl, found) \<Rightarrow>
                   if found
                   then free_loop
                          (s\<lparr>ram := m, PMM := (PMM s)\<lparr>lists := (lists (PMM s))[current_order := fl]\<rparr>\<rparr>)
                          (min current_phys buddy_phys) (current_order + 1)
                   else Some (s, current_phys, current_order)))"
  by pat_completeness auto
termination
  by (relation "measure (\<lambda>(s, p, k). MAX_ORDER - k)") auto

definition buddy_free :: "kmem \<Rightarrow> u64 \<Rightarrow> nat \<Rightarrow> kmem option" where
  "buddy_free s phys order =
     (case free_loop s phys order of
        None \<Rightarrow> None
      | Some (s1, current_phys, current_order) \<Rightarrow>
          if current_order < length (lists (PMM s1)) then
            (let s2 = push_at s1 current_order current_phys
             in Some (s2\<lparr>FREE_PAGES := FREE_PAGES s2 + push_bit order 1\<rparr>))
          else None)"

declare region_order.simps [simp del] split_down.simps [simp del] free_loop.simps [simp del]

text \<open>The memory map of the boot loader, and \<open>init\<close>, which feeds its usable entries in.\<close>

datatype memory_map_entry_type =
  Usable | Reserved | AcpiReclaimable | AcpiNvs | BadMemory | BootloaderReclaimable
  | KernelAndModules | Framebuffer

record memory_map_entry =
  mm_base :: u64
  mm_length :: u64
  mm_kind :: memory_map_entry_type

definition usable_region :: "memory_map_entry \<Rightarrow> (u64 \<times> u64) option" where
  "usable_region entry =
     (if mm_kind entry \<noteq> Usable then None
      else if mm_base entry < 0x200000 \<and> 0x200000 - mm_base entry \<ge> mm_length entry then None
      else let base = (if mm_base entry < 0x200000
                       then mm_base entry + (0x200000 - mm_base entry) else mm_base entry);
               skipped = base - mm_base entry;
               len = (if mm_length entry < skipped then 0 else mm_length entry - skipped)
           in if len > 0 then Some (base, len) else None)"

fun pmm_init :: "kmem \<Rightarrow> memory_map_entry list \<Rightarrow> kmem option" where
  "pmm_init s [] = Some s"
| "pmm_init s (e # es) =
     (case usable_region e of
        None \<Rightarrow> pmm_init s es
      | Some (base, len) \<Rightarrow>
          (case add_region s base len of None \<Rightarrow> None | Some s' \<Rightarrow> pmm_init s' es))"

definition alloc_frame :: "kmem \<Rightarrow> (u64 \<times> kmem) option" where
  "alloc_frame s = buddy_alloc s 0"

definition alloc_frames :: "kmem \<Rightarrow> nat \<Rightarrow> (u64 \<times> kmem) option" where
  "alloc_frames s order = buddy_alloc s order"

definition free_frame :: "kmem \<Rightarrow> u64 \<Rightarrow> kmem option" where
  "free_frame s phys = buddy_free s phys 0"

definition free_frames :: "kmem \<Rightarrow> u64 \<Rightarrow> nat \<Rightarrow> kmem option" where
  "free_frames s phys order = buddy_free s phys order"

definition alloc_zeroed_frame :: "kmem \<Rightarrow> (u64 \<times> kmem) option" where
  "alloc_zeroed_frame s =
     (case alloc_frame s of None \<Rightarrow> None
      | Some (phys, s') \<Rightarrow>
          Some (phys, s'\<lparr>ram := write_bytes (ram s') (virt_to_phys (hhdm s') (phys_to_virt (hhdm s') phys)) 0 4096\<rparr>))"

definition free_pages :: "kmem \<Rightarrow> usize" where "free_pages s = FREE_PAGES s"
definition total_pages :: "kmem \<Rightarrow> usize" where "total_pages s = TOTAL_PAGES s"

definition used_pages :: "kmem \<Rightarrow> usize" where
  "used_pages s = (if total_pages s < free_pages s then 0 else total_pages s - free_pages s)"

end
