(* ===== verification/Vmm.thy ===== *)
theory Vmm
  imports Pmm
begin

text \<open>
  The virtual memory manager of \<open>mm/vmm.rs\<close>: four-level page tables stored in physical memory,
  address spaces, the page-fault handlers and the list of memory areas of a process.

  A \<open>&mut PageTable\<close> is its address in the direct map; the page-table frames come from the frame
  allocator, so every operation threads the memory state \<open>kmem\<close>.  \<open>invlpg\<close> and the load of CR3
  change no memory and are left out; the value of CR3 is an argument where the code reads it.
\<close>

unbundle bit_operations_syntax

section \<open>Page tables\<close>

definition PTE_PRESENT :: u64 where "PTE_PRESENT = 1"
definition PTE_WRITABLE :: u64 where "PTE_WRITABLE = 2"
definition PTE_USER :: u64 where "PTE_USER = 4"
definition PTE_PWT :: u64 where "PTE_PWT = 8"
definition PTE_PCD :: u64 where "PTE_PCD = 16"
definition PTE_ACCESSED :: u64 where "PTE_ACCESSED = 32"
definition PTE_DIRTY :: u64 where "PTE_DIRTY = 64"
definition PTE_LARGE :: u64 where "PTE_LARGE = 128"
definition PTE_GLOBAL :: u64 where "PTE_GLOBAL = 256"
definition PTE_NO_EXEC :: u64 where "PTE_NO_EXEC = 0x8000000000000000"
definition PTE_ADDR_MASK :: u64 where "PTE_ADDR_MASK = 0x000FFFFFFFFFF000"

definition pt_zero :: "kmem \<Rightarrow> u64 \<Rightarrow> kmem" where
  "pt_zero s tbl = s\<lparr>ram := write_bytes (ram s) (virt_to_phys (hhdm s) tbl) 0 4096\<rparr>"

definition get_entry :: "kmem \<Rightarrow> u64 \<Rightarrow> nat \<Rightarrow> u64" where
  "get_entry s tbl idx = load64 (ram s) (virt_to_phys (hhdm s) tbl + 8 * of_nat idx)"

definition set_entry :: "kmem \<Rightarrow> u64 \<Rightarrow> nat \<Rightarrow> u64 \<Rightarrow> kmem" where
  "set_entry s tbl idx val = s\<lparr>ram := store64 (ram s) (virt_to_phys (hhdm s) tbl + 8 * of_nat idx) val\<rparr>"

definition is_present :: "kmem \<Rightarrow> u64 \<Rightarrow> nat \<Rightarrow> bool" where
  "is_present s tbl idx \<longleftrightarrow> get_entry s tbl idx AND PTE_PRESENT \<noteq> 0"

definition get_or_alloc_table :: "kmem \<Rightarrow> u64 \<Rightarrow> nat \<Rightarrow> u64 \<Rightarrow> u64 option \<times> kmem" where
  "get_or_alloc_table s tbl idx flags =
     (case (if is_present s tbl idx then Some s
            else case alloc_zeroed_frame s of
                   None \<Rightarrow> None
                 | Some (phys, s1) \<Rightarrow> Some (set_entry s1 tbl idx (phys OR flags OR PTE_PRESENT))) of
        None \<Rightarrow> (None, s)
      | Some s2 \<Rightarrow> (Some (phys_to_virt (hhdm s2) (get_entry s2 tbl idx AND PTE_ADDR_MASK)), s2))"

definition get_table :: "kmem \<Rightarrow> u64 \<Rightarrow> nat \<Rightarrow> u64 option" where
  "get_table s tbl idx =
     (if is_present s tbl idx
      then Some (phys_to_virt (hhdm s) (get_entry s tbl idx AND PTE_ADDR_MASK)) else None)"

definition pml4_idx :: "u64 \<Rightarrow> nat" where "pml4_idx vaddr = unat (drop_bit 39 vaddr AND 0x1FF)"
definition pdpt_idx :: "u64 \<Rightarrow> nat" where "pdpt_idx vaddr = unat (drop_bit 30 vaddr AND 0x1FF)"
definition pd_idx :: "u64 \<Rightarrow> nat" where "pd_idx vaddr = unat (drop_bit 21 vaddr AND 0x1FF)"
definition pt_idx :: "u64 \<Rightarrow> nat" where "pt_idx vaddr = unat (drop_bit 12 vaddr AND 0x1FF)"

section \<open>Address spaces\<close>

record address_space =
  pml4_phys :: u64

text \<open>\<open>get_kernel_pml4\<close> panics (\<open>None\<close>) before \<open>init\<close> has stored the kernel's table.\<close>

definition get_kernel_pml4 :: "kmem \<Rightarrow> u64 \<Rightarrow> u64 option" where
  "get_kernel_pml4 s kernel_pml4_phys =
     (if kernel_pml4_phys = 0 then None else Some (phys_to_virt (hhdm s) kernel_pml4_phys))"

definition vmm_init :: "u64 \<Rightarrow> u64" where
  "vmm_init cr3 = cr3 AND PTE_ADDR_MASK"

definition pml4 :: "kmem \<Rightarrow> address_space \<Rightarrow> u64" where
  "pml4 s sp = phys_to_virt (hhdm s) (pml4_phys sp)"

definition new_user :: "kmem \<Rightarrow> u64 \<Rightarrow> (address_space option \<times> kmem) option" where
  "new_user s kernel_pml4_phys =
     (case alloc_zeroed_frame s of
        None \<Rightarrow> Some (None, s)
      | Some (phys, s1) \<Rightarrow>
          (let sp = \<lparr>pml4_phys = phys\<rparr>
           in case get_kernel_pml4 s1 kernel_pml4_phys of
                None \<Rightarrow> None
              | Some kernel_pml4 \<Rightarrow>
                  Some (Some sp, fold (\<lambda>i s. set_entry s (pml4 s sp) i (get_entry s kernel_pml4 i))
                                   [256..<512] s1)))"

definition kernel_space :: "u64 \<Rightarrow> address_space" where
  "kernel_space cr3 = \<lparr>pml4_phys = cr3 AND PTE_ADDR_MASK\<rparr>"

definition map_page :: "kmem \<Rightarrow> address_space \<Rightarrow> u64 \<Rightarrow> u64 \<Rightarrow> u64 \<Rightarrow> bool \<times> kmem" where
  "map_page s sp virt phys flags =
     (let parent_flags = PTE_WRITABLE OR PTE_USER
      in case get_or_alloc_table s (pml4 s sp) (pml4_idx virt) parent_flags of
           (None, s1) \<Rightarrow> (False, s1)
         | (Some pdpt, s1) \<Rightarrow>
      (case get_or_alloc_table s1 pdpt (pdpt_idx virt) parent_flags of
           (None, s2) \<Rightarrow> (False, s2)
         | (Some pd, s2) \<Rightarrow>
      (case get_or_alloc_table s2 pd (pd_idx virt) parent_flags of
           (None, s3) \<Rightarrow> (False, s3)
         | (Some pt, s3) \<Rightarrow>
             (True, set_entry s3 pt (pt_idx virt) ((phys AND PTE_ADDR_MASK) OR flags OR PTE_PRESENT)))))"

definition map_large :: "kmem \<Rightarrow> address_space \<Rightarrow> u64 \<Rightarrow> u64 \<Rightarrow> u64 \<Rightarrow> (bool \<times> kmem) option" where
  "map_large s sp virt phys flags =
     (if virt mod 0x200000 \<noteq> 0 \<or> phys mod 0x200000 \<noteq> 0 then None
      else let parent_flags = PTE_WRITABLE OR PTE_USER
      in Some (case get_or_alloc_table s (pml4 s sp) (pml4_idx virt) parent_flags of
           (None, s1) \<Rightarrow> (False, s1)
         | (Some pdpt, s1) \<Rightarrow>
      (case get_or_alloc_table s1 pdpt (pdpt_idx virt) parent_flags of
           (None, s2) \<Rightarrow> (False, s2)
         | (Some pd, s2) \<Rightarrow>
             (True, set_entry s2 pd (pd_idx virt)
                      ((phys AND PTE_ADDR_MASK) OR flags OR PTE_PRESENT OR PTE_LARGE)))))"

partial_function (option) map_range_from ::
  "kmem \<Rightarrow> address_space \<Rightarrow> u64 \<Rightarrow> u64 \<Rightarrow> u64 \<Rightarrow> u64 \<Rightarrow> u64 \<Rightarrow> (bool \<times> kmem) option" where
  "map_range_from s sp virt phys len flags offset =
     (if offset < len then
        (let v = virt + offset; p = phys + offset
         in if len - offset \<ge> 0x200000 \<and> v mod 0x200000 = 0 \<and> p mod 0x200000 = 0
            then (case map_large s sp v p flags of
                    None \<Rightarrow> None
                  | Some r \<Rightarrow>
                      if \<not> fst r then Some (False, snd r)
                      else map_range_from (snd r) sp virt phys len flags (offset + 0x200000))
            else (let r = map_page s sp v p flags
                  in if \<not> fst r then Some (False, snd r)
                     else map_range_from (snd r) sp virt phys len flags (offset + PAGE_SIZE)))
      else Some (True, s))"

definition map_range :: "kmem \<Rightarrow> address_space \<Rightarrow> u64 \<Rightarrow> u64 \<Rightarrow> u64 \<Rightarrow> u64 \<Rightarrow> (bool \<times> kmem) option" where
  "map_range s sp virt phys len flags = map_range_from s sp virt phys len flags 0"

definition unmap :: "kmem \<Rightarrow> address_space \<Rightarrow> u64 \<Rightarrow> kmem" where
  "unmap s sp virt =
     (case get_table s (pml4 s sp) (pml4_idx virt) of
        None \<Rightarrow> s
      | Some pdpt \<Rightarrow>
          (case get_table s pdpt (pdpt_idx virt) of
             None \<Rightarrow> s
           | Some pd \<Rightarrow>
               (case get_table s pd (pd_idx virt) of
                  None \<Rightarrow> s
                | Some pt \<Rightarrow> set_entry s pt (pt_idx virt) 0)))"

definition translate :: "kmem \<Rightarrow> address_space \<Rightarrow> u64 \<Rightarrow> u64 option" where
  "translate s sp virt =
     (case get_table s (pml4 s sp) (pml4_idx virt) of
        None \<Rightarrow> None
      | Some pdpt \<Rightarrow>
          (case get_table s pdpt (pdpt_idx virt) of
             None \<Rightarrow> None
           | Some pd \<Rightarrow>
               (let pd_entry = get_entry s pd (pd_idx virt)
                in if pd_entry AND PTE_LARGE \<noteq> 0
                   then Some ((pd_entry AND PTE_ADDR_MASK) + (virt AND 0x1FFFFF))
                   else (case get_table s pd (pd_idx virt) of
                           None \<Rightarrow> None
                         | Some pt \<Rightarrow>
                             (let entry = get_entry s pt (pt_idx virt)
                              in if entry AND PTE_PRESENT = 0 then None
                                 else Some ((entry AND PTE_ADDR_MASK) OR (virt AND 0xFFF)))))))"

text \<open>
  \<open>free_user_page_tables\<close>, the body of \<open>AddressSpace::drop\<close>: three nested loops over the present
  entries of the lower half.  Each level is a function of its table's physical address.
\<close>

definition free_pd :: "u64 \<Rightarrow> kmem \<Rightarrow> kmem option" where
  "free_pd pd_phys s =
     (case fold_opt (\<lambda>k s.
        let pd = phys_to_virt (hhdm s) pd_phys
        in if \<not> is_present s pd k then Some s
           else if get_entry s pd k AND PTE_LARGE \<noteq> 0 then Some s
           else free_frame s (get_entry s pd k AND PTE_ADDR_MASK)) [0..<512] s of
        None \<Rightarrow> None
      | Some s1 \<Rightarrow> free_frame s1 pd_phys)"

definition free_pdpt :: "u64 \<Rightarrow> kmem \<Rightarrow> kmem option" where
  "free_pdpt pdpt_phys s =
     (case fold_opt (\<lambda>j s.
        let pdpt = phys_to_virt (hhdm s) pdpt_phys
        in if \<not> is_present s pdpt j then Some s
           else free_pd (get_entry s pdpt j AND PTE_ADDR_MASK) s) [0..<512] s of
        None \<Rightarrow> None
      | Some s1 \<Rightarrow> free_frame s1 pdpt_phys)"

definition free_user_page_tables :: "u64 \<Rightarrow> kmem \<Rightarrow> kmem option" where
  "free_user_page_tables root s =
     (case fold_opt (\<lambda>i s.
        let pml4 = phys_to_virt (hhdm s) root
        in if \<not> is_present s pml4 i then Some s
           else free_pdpt (get_entry s pml4 i AND PTE_ADDR_MASK) s) [0..<256] s of
        None \<Rightarrow> None
      | Some s1 \<Rightarrow> free_frame s1 root)"

definition drop_space :: "kmem \<Rightarrow> address_space \<Rightarrow> kmem option" where
  "drop_space s sp = free_user_page_tables (pml4_phys sp) s"

section \<open>Memory areas\<close>

type_synonym vma_flags = u32

definition VMA_READ :: vma_flags where "VMA_READ = 1"
definition VMA_WRITE :: vma_flags where "VMA_WRITE = 2"
definition VMA_EXEC :: vma_flags where "VMA_EXEC = 4"
definition VMA_SHARED :: vma_flags where "VMA_SHARED = 8"
definition VMA_COPY_ON_WRITE :: vma_flags where "VMA_COPY_ON_WRITE = 16"
definition VMA_ANONYMOUS :: vma_flags where "VMA_ANONYMOUS = 32"
definition VMA_GROWS_DOWN :: vma_flags where "VMA_GROWS_DOWN = 64"

definition flags_contains :: "vma_flags \<Rightarrow> vma_flags \<Rightarrow> bool" where
  "flags_contains fs f \<longleftrightarrow> fs AND f = f"

record vma_entry =
  vma_start :: u64
  vma_end :: u64
  vma_flags :: vma_flags

definition vma_contains :: "vma_entry \<Rightarrow> u64 \<Rightarrow> bool" where
  "vma_contains v addr \<longleftrightarrow> addr \<ge> vma_start v \<and> addr < vma_end v"

record vm_space =
  areas :: "vma_entry list"
  brk :: u64

definition vm_new :: vm_space where
  "vm_new = \<lparr>areas = [], brk = 0x10000000\<rparr>"

definition find_vma :: "vm_space \<Rightarrow> u64 \<Rightarrow> vma_entry option" where
  "find_vma vm addr = find (\<lambda>a. vma_contains a addr) (areas vm)"

text \<open>The order of areas with the same start, which \<open>sort_unstable_by_key\<close> leaves open, is the stable one.\<close>

definition add_vma :: "vm_space \<Rightarrow> u64 \<Rightarrow> u64 \<Rightarrow> vma_flags \<Rightarrow> vm_space" where
  "add_vma vm s e fs =
     vm\<lparr>areas := sort_key vma_start (areas vm @ [\<lparr>vma_start = s, vma_end = e, vma_flags = fs\<rparr>])\<rparr>"

definition remove_vma :: "vm_space \<Rightarrow> u64 \<Rightarrow> u64 \<Rightarrow> vm_space" where
  "remove_vma vm s e = vm\<lparr>areas := filter (\<lambda>a. \<not> (vma_start a \<ge> s \<and> vma_end a \<le> e)) (areas vm)\<rparr>"

section \<open>Page faults\<close>

definition demand_flags :: "vma_entry \<Rightarrow> u64" where
  "demand_flags vma =
     (let f0 = PTE_PRESENT OR PTE_USER;
          f1 = (if flags_contains (vma_flags vma) VMA_WRITE then f0 OR PTE_WRITABLE else f0)
      in if \<not> flags_contains (vma_flags vma) VMA_EXEC then f1 OR PTE_NO_EXEC else f1)"

definition handle_demand_page :: "kmem \<Rightarrow> address_space \<Rightarrow> u64 \<Rightarrow> vma_entry \<Rightarrow> bool \<times> kmem" where
  "handle_demand_page s sp addr vma =
     (let page_addr = align_down addr PAGE_SIZE
      in case alloc_zeroed_frame s of
           None \<Rightarrow> (False, s)
         | Some (phys, s1) \<Rightarrow> map_page s1 sp page_addr phys (demand_flags vma))"

definition handle_cow :: "kmem \<Rightarrow> address_space \<Rightarrow> u64 \<Rightarrow> bool \<times> kmem" where
  "handle_cow s sp addr =
     (let page_addr = align_down addr PAGE_SIZE
      in case translate s sp page_addr of
           None \<Rightarrow> (False, s)
         | Some old_phys \<Rightarrow>
             (case alloc_zeroed_frame s of
                None \<Rightarrow> (False, s)
              | Some (new_phys, s1) \<Rightarrow>
                  (let src = virt_to_phys (hhdm s1) (phys_to_virt (hhdm s1) old_phys);
                       dst = virt_to_phys (hhdm s1) (phys_to_virt (hhdm s1) new_phys);
                       s2 = s1\<lparr>ram := store_bytes (ram s1) dst (load_bytes (ram s1) src 4096)\<rparr>
                   in (True, snd (map_page s2 sp page_addr new_phys
                                    (PTE_PRESENT OR PTE_WRITABLE OR PTE_USER))))))"

text \<open>The fault handler; \<open>cur\<close> is the address space and the areas of the current process, if any.\<close>

definition handle_page_fault ::
  "kmem \<Rightarrow> (address_space \<times> vm_space) option \<Rightarrow> u64 \<Rightarrow> u64 \<Rightarrow> bool \<times> kmem" where
  "handle_page_fault s cur addr err =
     (let present = (err AND 1 \<noteq> 0); write = (err AND 2 \<noteq> 0)
      in case cur of
           None \<Rightarrow> (False, s)
         | Some (sp, vm) \<Rightarrow>
             (case find_vma vm addr of
                None \<Rightarrow> (False, s)
              | Some vma \<Rightarrow>
                  if write \<and> \<not> flags_contains (vma_flags vma) VMA_WRITE then
                    (if flags_contains (vma_flags vma) VMA_COPY_ON_WRITE then handle_cow s sp addr
                     else (False, s))
                  else if \<not> present then handle_demand_page s sp addr vma
                  else (False, s)))"

end
