(* ===== verification/Spinlock.thy ===== *)
theory Spinlock
  imports Prelude
begin

text \<open>
  The locks of \<open>sync/spinlock.rs\<close> with the interrupt flag they save and restore
  (\<open>cli\<close>, \<open>sti\<close> of \<open>arch/x86_64/io.rs\<close>).  The operations are step relations: each atomic access of
  the source is one step, the steps of any number of processors interleave, and a weak
  compare-exchange may fail.  Mutual exclusion is an invariant of all reachable states.
\<close>

unbundle bit_operations_syntax

section \<open>The interrupt flag\<close>

record cpu =
  rflags :: u64

definition RFLAGS_IF :: u64 where "RFLAGS_IF = 0x200"

definition read_rflags :: "cpu \<Rightarrow> u64" where "read_rflags c = rflags c"

definition sti :: "cpu \<Rightarrow> cpu" where "sti c = c\<lparr>rflags := rflags c OR RFLAGS_IF\<rparr>"

definition cli :: "cpu \<Rightarrow> u64 \<times> cpu" where
  "cli c = (let flags = read_rflags c in (flags, c\<lparr>rflags := rflags c AND NOT RFLAGS_IF\<rparr>))"

text \<open>The tail of \<open>SpinGuard::drop\<close> and of a failed \<open>try_lock\<close>.\<close>

definition restore_if :: "u64 \<Rightarrow> cpu \<Rightarrow> cpu" where
  "restore_if r c = (if r AND RFLAGS_IF \<noteq> 0 then sti c else c)"

definition if_on :: "cpu \<Rightarrow> bool" where
  "if_on c \<longleftrightarrow> rflags c AND RFLAGS_IF \<noteq> 0"

section \<open>SpinLock\<close>

record 'a spin_lock =
  locked :: bool
  data :: 'a

definition spin_new :: "'a \<Rightarrow> 'a spin_lock" where
  "spin_new v = \<lparr>locked = False, data = v\<rparr>"

text \<open>\<open>compare_exchange(false, true)\<close> on \<open>locked\<close>.\<close>

definition cas_locked :: "'a spin_lock \<Rightarrow> bool \<times> 'a spin_lock" where
  "cas_locked l = (if locked l then (False, l) else (True, l\<lparr>locked := True\<rparr>))"

text \<open>
  Where a processor is: outside, in the loop of \<open>lock\<close>, in \<open>try_lock\<close> before its exchange, holding
  a guard, or in the guard's \<open>drop\<close> after the store.  The argument is the saved flags.
\<close>

datatype spin_pc = Out | Spin u64 | Try u64 | Held u64 | Rel u64

record 'a spin_sys =
  lk :: "'a spin_lock"
  cpus :: "nat \<Rightarrow> cpu"
  pcs :: "nat \<Rightarrow> spin_pc"

inductive spin_step :: "'a spin_sys \<Rightarrow> 'a spin_sys \<Rightarrow> bool" where
  lock_cli: "pcs s i = Out \<Longrightarrow> cli (cpus s i) = (r, c) \<Longrightarrow>
     spin_step s (s\<lparr>cpus := (cpus s)(i := c), pcs := (pcs s)(i := Spin r)\<rparr>)"
| lock_cas: "pcs s i = Spin r \<Longrightarrow> cas_locked (lk s) = (True, l) \<Longrightarrow>
     spin_step s (s\<lparr>lk := l, pcs := (pcs s)(i := Held r)\<rparr>)"
| lock_spin: "pcs s i = Spin r \<Longrightarrow> spin_step s s"
| try_cli: "pcs s i = Out \<Longrightarrow> cli (cpus s i) = (r, c) \<Longrightarrow>
     spin_step s (s\<lparr>cpus := (cpus s)(i := c), pcs := (pcs s)(i := Try r)\<rparr>)"
| try_ok: "pcs s i = Try r \<Longrightarrow> cas_locked (lk s) = (True, l) \<Longrightarrow>
     spin_step s (s\<lparr>lk := l, pcs := (pcs s)(i := Held r)\<rparr>)"
| try_fail: "pcs s i = Try r \<Longrightarrow> cas_locked (lk s) = (False, l) \<Longrightarrow>
     spin_step s (s\<lparr>cpus := (cpus s)(i := restore_if r (cpus s i)), pcs := (pcs s)(i := Out)\<rparr>)"
| deref_mut: "pcs s i = Held r \<Longrightarrow> spin_step s (s\<lparr>lk := (lk s)\<lparr>data := v\<rparr>\<rparr>)"
| drop_store: "pcs s i = Held r \<Longrightarrow>
     spin_step s (s\<lparr>lk := (lk s)\<lparr>locked := False\<rparr>, pcs := (pcs s)(i := Rel r)\<rparr>)"
| drop_restore: "pcs s i = Rel r \<Longrightarrow>
     spin_step s (s\<lparr>cpus := (cpus s)(i := restore_if r (cpus s i)), pcs := (pcs s)(i := Out)\<rparr>)"
| elsewhere: "pcs s i = Out \<Longrightarrow> spin_step s (s\<lparr>cpus := (cpus s)(i := c)\<rparr>)"

definition spin_start :: "'a spin_sys \<Rightarrow> bool" where
  "spin_start s \<longleftrightarrow> (\<exists>v. lk s = spin_new v) \<and> (\<forall>i. pcs s i = Out)"

section \<open>RwSpinLock\<close>

record 'a rw_lock =
  rw_state :: u32
  rw_data :: 'a

definition rw_new :: "'a \<Rightarrow> 'a rw_lock" where
  "rw_new v = \<lparr>rw_state = 0, rw_data = v\<rparr>"

text \<open>
  An agent wants or holds one guard.  \<open>Load v\<close>: \<open>read\<close> has loaded \<open>v\<close> and not yet exchanged it.
  \<open>n\<close> bounds the number of agents; the state is an \<open>i32\<close>, read as a signed word.
\<close>

datatype rw_pc = Idle | Load u32 | Reading | Writing

record 'a rw_sys =
  rw :: "'a rw_lock"
  rpc :: "nat \<Rightarrow> rw_pc"

inductive rw_step :: "nat \<Rightarrow> 'a rw_sys \<Rightarrow> 'a rw_sys \<Rightarrow> bool" for n where
  read_load: "i < n \<Longrightarrow> rpc s i \<in> {Idle} \<union> range Load \<Longrightarrow>
     rw_step n s (s\<lparr>rpc := (rpc s)(i := Load (rw_state (rw s)))\<rparr>)"
| read_cas: "i < n \<Longrightarrow> rpc s i = Load v \<Longrightarrow> sint v \<ge> 0 \<Longrightarrow> rw_state (rw s) = v \<Longrightarrow>
     rw_step n s (s\<lparr>rw := (rw s)\<lparr>rw_state := v + 1\<rparr>, rpc := (rpc s)(i := Reading)\<rparr>)"
| read_drop: "i < n \<Longrightarrow> rpc s i = Reading \<Longrightarrow>
     rw_step n s (s\<lparr>rw := (rw s)\<lparr>rw_state := rw_state (rw s) - 1\<rparr>, rpc := (rpc s)(i := Idle)\<rparr>)"
| write_cas: "i < n \<Longrightarrow> rpc s i = Idle \<Longrightarrow> rw_state (rw s) = 0 \<Longrightarrow>
     rw_step n s (s\<lparr>rw := (rw s)\<lparr>rw_state := - 1\<rparr>, rpc := (rpc s)(i := Writing)\<rparr>)"
| write_spin: "i < n \<Longrightarrow> rpc s i = Idle \<Longrightarrow> rw_step n s s"
| write_deref: "i < n \<Longrightarrow> rpc s i = Writing \<Longrightarrow> rw_step n s (s\<lparr>rw := (rw s)\<lparr>rw_data := d\<rparr>\<rparr>)"
| write_drop: "i < n \<Longrightarrow> rpc s i = Writing \<Longrightarrow>
     rw_step n s (s\<lparr>rw := (rw s)\<lparr>rw_state := 0\<rparr>, rpc := (rpc s)(i := Idle)\<rparr>)"

definition rw_start :: "'a rw_sys \<Rightarrow> bool" where
  "rw_start s \<longleftrightarrow> (\<exists>v. rw s = rw_new v) \<and> (\<forall>i. rpc s i = Idle)"

section \<open>Invariants\<close>

lemma bit_rflags_if: "bit RFLAGS_IF k \<longleftrightarrow> k = 9"
proof -
  have b: "bit ((2 :: u64) ^ j) k \<longleftrightarrow> k = j \<and> k < 64" for j by (auto simp: bit_exp_iff possible_bit_def)
  have "RFLAGS_IF = 2 ^ 9" by (simp add: RFLAGS_IF_def)
  then have "bit RFLAGS_IF k \<longleftrightarrow> k = 9 \<and> k < 64" using b [of 9] by (simp only:)
  then show ?thesis by auto
qed

lemma if_bit: "x AND RFLAGS_IF \<noteq> 0 \<longleftrightarrow> bit x 9"
proof -
  have "x AND RFLAGS_IF = 0 \<longleftrightarrow> (\<forall>k<64. \<not> (bit x k \<and> bit RFLAGS_IF k))"
    by (simp add: bit_eq_iff bit_and_iff)
  then show ?thesis by (simp add: bit_rflags_if)
qed

lemma if_on_bit: "if_on c \<longleftrightarrow> bit (rflags c) 9"
  by (simp add: if_on_def if_bit)

lemma sti_on: "if_on (sti c)"
  by (simp add: if_on_bit sti_def bit_or_iff bit_rflags_if)

lemma cli_off: "cli c = (r, c') \<Longrightarrow> r = rflags c \<and> \<not> if_on c'"
  by (auto simp: cli_def read_rflags_def if_on_bit bit_and_iff bit_not_iff bit_rflags_if Let_def)

lemma restore_on: "\<not> if_on c \<Longrightarrow> if_on (restore_if r c) \<longleftrightarrow> r AND RFLAGS_IF \<noteq> 0"
  by (auto simp: restore_if_def sti_on)

definition holders :: "(nat \<Rightarrow> spin_pc) \<Rightarrow> nat set" where
  "holders f = {i. \<exists>r. f i = Held r}"

lemma holders_update:
  "holders (f(i := Held r)) = insert i (holders f)"
  "holders (f(i := Out)) = holders f - {i}" "holders (f(i := Spin r)) = holders f - {i}"
  "holders (f(i := Try r)) = holders f - {i}" "holders (f(i := Rel r)) = holders f - {i}"
  by (auto simp: holders_def)

lemma not_holder: "f i = Out \<or> f i = Spin r \<or> f i = Try r \<or> f i = Rel r \<Longrightarrow> holders f - {i} = holders f"
  by (auto simp: holders_def)

definition spin_inv :: "'a spin_sys \<Rightarrow> bool" where
  "spin_inv s \<longleftrightarrow> (if locked (lk s) then \<exists>i. holders (pcs s) = {i} else holders (pcs s) = {}) \<and>
     (\<forall>i. pcs s i \<noteq> Out \<longrightarrow> \<not> if_on (cpus s i))"

lemma spin_start_inv: "spin_start s \<Longrightarrow> spin_inv s"
  by (auto simp: spin_start_def spin_inv_def spin_new_def holders_def)

lemma spin_step_inv: "spin_step s t \<Longrightarrow> spin_inv s \<Longrightarrow> spin_inv t"
proof (induction rule: spin_step.induct)
  case (lock_cli s i r c)
  then show ?case
    using cli_off [OF lock_cli(2)] not_holder [of "pcs s" i] by (simp add: spin_inv_def holders_update)
next
  case (lock_cas s i r l)
  then show ?case by (auto simp: spin_inv_def cas_locked_def holders_update split: if_splits)
next
  case (try_cli s i r c)
  then show ?case
    using cli_off [OF try_cli(2)] not_holder [of "pcs s" i] by (simp add: spin_inv_def holders_update)
next
  case (try_ok s i r l)
  then show ?case by (auto simp: spin_inv_def cas_locked_def holders_update split: if_splits)
next
  case (try_fail s i r l)
  then show ?case using not_holder [of "pcs s" i] by (simp add: spin_inv_def holders_update)
next
  case (drop_store s i r)
  then have "i \<in> holders (pcs s)" by (simp add: holders_def)
  then have "holders (pcs s) = {i}" using drop_store(2) by (auto simp: spin_inv_def split: if_splits)
  then show ?case using drop_store by (simp add: spin_inv_def holders_update)
next
  case (drop_restore s i r)
  then show ?case using not_holder [of "pcs s" i] by (simp add: spin_inv_def holders_update)
qed (auto simp: spin_inv_def)

interpretation spin: transition_invariant spin_start spin_step spin_inv
  by unfold_locales (fact spin_start_inv, fact spin_step_inv)

definition readers :: "nat \<Rightarrow> 'a rw_sys \<Rightarrow> nat set" where
  "readers n s = {i. i < n \<and> rpc s i = Reading}"

definition writers :: "nat \<Rightarrow> 'a rw_sys \<Rightarrow> nat set" where
  "writers n s = {i. i < n \<and> rpc s i = Writing}"

definition rw_inv :: "nat \<Rightarrow> 'a rw_sys \<Rightarrow> bool" where
  "rw_inv n s \<longleftrightarrow>
     (writers n s = {} \<and> rw_state (rw s) = of_nat (card (readers n s))
      \<or> (\<exists>i. writers n s = {i}) \<and> readers n s = {} \<and> rw_state (rw s) = - 1)"

lemma finite_readers [simp]: "finite (readers n s)"
  by (simp add: readers_def)

lemma card_readers: "card (readers n s) \<le> n"
  using card_mono [of "{..<n}" "readers n s"] by (auto simp: readers_def)

lemma guards_update:
  "readers n (s\<lparr>rw := w, rpc := (rpc s)(i := p)\<rparr>) =
     (if i < n \<and> p = Reading then insert i (readers n s) else readers n s - {i})"
  "writers n (s\<lparr>rw := w, rpc := (rpc s)(i := p)\<rparr>) =
     (if i < n \<and> p = Writing then insert i (writers n s) else writers n s - {i})"
  "readers n (s\<lparr>rpc := (rpc s)(i := p)\<rparr>) =
     (if i < n \<and> p = Reading then insert i (readers n s) else readers n s - {i})"
  "writers n (s\<lparr>rpc := (rpc s)(i := p)\<rparr>) =
     (if i < n \<and> p = Writing then insert i (writers n s) else writers n s - {i})"
  "readers n (s\<lparr>rw := w\<rparr>) = readers n s" "writers n (s\<lparr>rw := w\<rparr>) = writers n s"
  by (auto simp: readers_def writers_def)

lemma of_nat_card_zero:
  assumes "k < 2 ^ 31" "(of_nat k :: u32) = 0"
  shows "k = 0"
proof -
  have "unat (of_nat k :: u32) = k" using assms(1) by (simp add: unat_of_nat)
  then show ?thesis using assms(2) by simp
qed

lemma rw_step_inv:
  assumes "rw_step n s t" "n < 2 ^ 31" "rw_inv n s"
  shows "rw_inv n t"
  using assms(1)
proof cases
  case (read_load i)
  then have "i \<notin> readers n s" "i \<notin> writers n s" by (auto simp: readers_def writers_def)
  then show ?thesis using assms(3) read_load by (simp add: rw_inv_def guards_update)
next
  case (read_cas i v)
  then have i: "i \<notin> readers n s" "i \<notin> writers n s" by (auto simp: readers_def writers_def)
  have "rw_state (rw s) \<noteq> - 1" using read_cas by auto
  then have "writers n s = {}" "rw_state (rw s) = of_nat (card (readers n s))"
    using assms(3) by (auto simp: rw_inv_def)
  then show ?thesis using i read_cas by (simp add: rw_inv_def guards_update)
next
  case (read_drop i)
  then have i: "i \<in> readers n s" "i \<notin> writers n s" by (auto simp: readers_def writers_def)
  then have st: "writers n s = {}" "rw_state (rw s) = of_nat (card (readers n s))"
    using assms(3) by (auto simp: rw_inv_def)
  have "rw_state (rw s) - 1 = of_nat (card (readers n s - {i}))"
    unfolding st(2) card_Suc_Diff1 [OF finite_readers i(1), symmetric] by simp
  then show ?thesis using st(1) read_drop by (simp add: rw_inv_def guards_update)
next
  case (write_cas i)
  then have i: "i \<notin> readers n s" "i \<notin> writers n s" by (auto simp: readers_def writers_def)
  have st: "writers n s = {}" "(of_nat (card (readers n s)) :: u32) = 0"
    using assms(3) write_cas by (auto simp: rw_inv_def)
  have "card (readers n s) < 2 ^ 31" using card_readers [of n s] assms(2) by simp
  then have "readers n s = {}" using of_nat_card_zero [OF _ st(2)] by simp
  then show ?thesis using st(1) write_cas by (simp add: rw_inv_def guards_update)
next
  case (write_drop i)
  then have "i \<in> writers n s" by (auto simp: writers_def)
  then show ?thesis using assms(3) write_drop by (auto simp: rw_inv_def guards_update)
next
  case (write_deref i d)
  then show ?thesis using assms(3) by (simp add: rw_inv_def guards_update)
qed (use assms(3) in simp)

lemma rw_start_inv: "rw_start s \<Longrightarrow> rw_inv n s"
  by (auto simp: rw_start_def rw_inv_def rw_new_def readers_def writers_def)

text \<open>At most \<open>2 ^ 31 - 1\<close> agents; with more, the reader count overflows its \<open>i32\<close>.\<close>

interpretation rw: transition_invariant rw_start "\<lambda>s t. n < 2 ^ 31 \<and> rw_step n s t" "rw_inv n" for n
  by unfold_locales (auto intro: rw_start_inv rw_step_inv)

section \<open>Properties\<close>

text \<open>C7: mutual exclusion of \<open>SpinLock\<close> under every interleaving of any number of processors: at
  most one processor holds a guard, the lock word is set exactly while one does, and a processor
  that holds, awaits or is releasing the lock has interrupts disabled.\<close>

theorem spin_mutual_exclusion:
  assumes "reach spin_start spin_step s"
  shows "(pcs s i = Held r \<longrightarrow> pcs s j = Held r' \<longrightarrow> i = j) \<and>
    (locked (lk s) \<longleftrightarrow> (\<exists>k q. pcs s k = Held q)) \<and> (pcs s i \<noteq> Out \<longrightarrow> \<not> if_on (cpus s i))"
proof -
  have inv: "spin_inv s" using spin.reach_inv [OF assms] .
  have "i = j" if "i \<in> holders (pcs s)" "j \<in> holders (pcs s)"
    using inv that by (auto simp: spin_inv_def split: if_splits)
  moreover have "locked (lk s) \<longleftrightarrow> holders (pcs s) \<noteq> {}" using inv by (auto simp: spin_inv_def)
  ultimately show ?thesis using inv by (auto simp: spin_inv_def holders_def)
qed

definition example_spin :: "nat spin_sys" where
  "example_spin = \<lparr>lk = spin_new 0, cpus = (\<lambda>_. \<lparr>rflags = 0x202\<rparr>), pcs = (\<lambda>_. Out)\<rparr>"

theorem spin_mutual_exclusion_witness:
  "\<exists>s :: nat spin_sys. reach spin_start spin_step s \<and> pcs s 0 = Held 0x202 \<and> locked (lk s) \<and>
     \<not> if_on (cpus s 0) \<and> (\<forall>j r. pcs s j = Held r \<longrightarrow> j = 0)"
proof -
  let ?s1 = "example_spin\<lparr>cpus := (cpus example_spin)(0 := \<lparr>rflags = 2\<rparr>), pcs := (pcs example_spin)(0 := Spin 0x202)\<rparr>"
  let ?s2 = "?s1\<lparr>lk := (lk ?s1)\<lparr>locked := True\<rparr>, pcs := (pcs ?s1)(0 := Held 0x202)\<rparr>"
  have "reach spin_start spin_step example_spin"
    by (rule reach_start) (auto simp: spin_start_def example_spin_def)
  moreover have "spin_step example_spin ?s1"
    by (rule lock_cli) (simp_all add: example_spin_def cli_def read_rflags_def RFLAGS_IF_def)
  ultimately have "reach spin_start spin_step ?s1" by (rule reach_step)
  moreover have "spin_step ?s1 ?s2"
    by (rule lock_cas) (simp_all add: example_spin_def cas_locked_def spin_new_def)
  ultimately have r: "reach spin_start spin_step ?s2" by (rule reach_step)
  have h: "pcs ?s2 0 = Held 0x202" by simp
  have "\<forall>j q. pcs ?s2 j = Held q \<longrightarrow> j = 0"
    using spin_mutual_exclusion [OF r, of 0 "0x202"] h by metis
  moreover have "\<not> if_on (cpus ?s2 0)" using spin_mutual_exclusion [OF r, of 0 0 0 0] h by simp
  moreover have "locked (lk ?s2)" by simp
  ultimately show ?thesis using r h by blast
qed

text \<open>C29: a guard restores the interrupt flag: whatever happened to the other flags in between,
  dropping it (or failing \<open>try_lock\<close>) leaves interrupts enabled exactly if they were enabled when
  \<open>lock\<close> or \<open>try_lock\<close> was entered.\<close>

theorem guard_restores_interrupts:
  assumes "cli c = (r, c1)" "\<not> if_on c2"
  shows "\<not> if_on c1 \<and> (if_on (restore_if r c2) \<longleftrightarrow> if_on c)"
  using cli_off [OF assms(1)] restore_on [OF assms(2)] by (auto simp: if_on_def)

theorem guard_restores_interrupts_witness:
  "if_on (restore_if (fst (cli \<lparr>rflags = 0x246\<rparr>)) (snd (cli \<lparr>rflags = 0x246\<rparr>)))"
proof -
  have "\<not> if_on (snd (cli \<lparr>rflags = 0x246\<rparr>))" "if_on \<lparr>rflags = 0x246\<rparr>"
    by (simp_all add: cli_def read_rflags_def if_on_def RFLAGS_IF_def)
  then show ?thesis
    using guard_restores_interrupts [of "\<lparr>rflags = 0x246\<rparr>" _ _ "snd (cli \<lparr>rflags = 0x246\<rparr>)"]
    by (simp add: prod_eq_iff)
qed

text \<open>C30: readers-writer exclusion of \<open>RwSpinLock\<close> for fewer than \<open>2 ^ 31\<close> concurrent guards: a
  writer excludes every reader and every other writer, and without a writer the state word counts
  the readers exactly.\<close>

theorem rw_exclusion:
  assumes "reach rw_start (\<lambda>s t. n < 2 ^ 31 \<and> rw_step n s t) s"
  shows "(i < n \<and> rpc s i = Writing \<longrightarrow> (\<forall>j<n. rpc s j \<noteq> Reading \<and> (rpc s j = Writing \<longrightarrow> j = i))) \<and>
    ((\<forall>j<n. rpc s j \<noteq> Writing) \<longrightarrow> rw_state (rw s) = of_nat (card {j. j < n \<and> rpc s j = Reading}))"
proof -
  have inv: "rw_inv n s" using rw.reach_inv [OF assms] .
  have "j \<notin> readers n s \<and> (j \<in> writers n s \<longrightarrow> j = i)" if "i \<in> writers n s" for j
    using inv that by (auto simp: rw_inv_def)
  then have "i < n \<and> rpc s i = Writing \<longrightarrow> (\<forall>j<n. rpc s j \<noteq> Reading \<and> (rpc s j = Writing \<longrightarrow> j = i))"
    by (auto simp: readers_def writers_def)
  moreover have "rw_state (rw s) = of_nat (card (readers n s))" if "writers n s = {}"
    using inv that by (auto simp: rw_inv_def)
  ultimately show ?thesis by (auto simp: readers_def writers_def)
qed

definition example_rw :: "nat rw_sys" where
  "example_rw = \<lparr>rw = rw_new 0, rpc = (\<lambda>_. Idle)\<rparr>"

theorem rw_exclusion_witness:
  "\<exists>s :: nat rw_sys. reach rw_start (\<lambda>s t. (2::nat) < 2 ^ 31 \<and> rw_step 2 s t) s \<and> rpc s 0 = Writing \<and> rpc s 1 \<noteq> Reading"
proof -
  let ?s = "example_rw\<lparr>rw := (rw example_rw)\<lparr>rw_state := - 1\<rparr>, rpc := (rpc example_rw)(0 := Writing)\<rparr>"
  have "reach rw_start (\<lambda>s t. (2::nat) < 2 ^ 31 \<and> rw_step 2 s t) example_rw"
    by (rule reach_start) (auto simp: rw_start_def example_rw_def)
  moreover have "(2::nat) < 2 ^ 31 \<and> rw_step 2 example_rw ?s"
    by (intro conjI write_cas) (simp_all add: example_rw_def rw_new_def)
  ultimately have r: "reach rw_start (\<lambda>s t. (2::nat) < 2 ^ 31 \<and> rw_step 2 s t) ?s" by (rule reach_step)
  have w: "0 < (2::nat) \<and> rpc ?s 0 = Writing" by simp
  have "rpc ?s 1 \<noteq> Reading"
    using rw_exclusion [OF r, THEN conjunct1, THEN mp, OF w, rule_format, of 1] by simp
  with r w show ?thesis by blast
qed

end
