(* ===== verification/Proc.thy ===== *)
theory Proc
  imports Vmm Spinlock
begin

text \<open>
  Processes and the scheduler of \<open>proc.rs\<close>.  An \<open>Arc<SpinLock<Process>>\<close> is an index into the list
  \<open>procs\<close> of all processes, so two clones of one \<open>Arc\<close> are the same index (\<open>Arc::ptr_eq\<close>).  The
  operations run with the run queue locked and interrupts off, hence each is one transition of the
  scheduler's state; what \<open>schedule\<close> makes the processor do is its second result.
\<close>

unbundle bit_operations_syntax

section \<open>Processes\<close>

datatype process_state = Running | Runnable | Sleeping | Zombie | Dead

record cpu_context =
  c_r15 :: u64
  c_r14 :: u64
  c_r13 :: u64
  c_r12 :: u64
  c_rbp :: u64
  c_rbx :: u64
  c_rsp :: u64
  c_rip :: u64
  c_rflags :: u64
  c_cs :: u64
  c_ss :: u64

definition default_context :: cpu_context where
  "default_context = \<lparr>c_r15 = 0, c_r14 = 0, c_r13 = 0, c_r12 = 0, c_rbp = 0, c_rbx = 0, c_rsp = 0,
     c_rip = 0, c_rflags = 0, c_cs = 0, c_ss = 0\<rparr>"

record process =
  p_pid :: u32
  p_ppid :: u32
  p_state :: process_state
  p_context :: cpu_context
  p_space :: address_space
  p_vm :: vm_space
  p_kernel_stack :: u64
  p_kernel_stack_size :: u64
  p_priority :: u8
  p_time_slice :: u32
  p_base_slice :: u32
  p_exit_code :: u32
  p_name :: "u8 list"
  p_pending_signals :: u64
  p_signal_mask :: u64

definition KERNEL_STACK_SIZE :: u64 where "KERNEL_STACK_SIZE = 0x4000"
definition DEFAULT_TIME_SLICE :: u32 where "DEFAULT_TIME_SLICE = 10"

definition SEG_KERNEL_CODE :: u16 where "SEG_KERNEL_CODE = 0x08"
definition SEG_KERNEL_DATA :: u16 where "SEG_KERNEL_DATA = 0x10"
definition SEG_USER_DATA :: u16 where "SEG_USER_DATA = 0x18 OR 3"
definition SEG_USER_CODE :: u16 where "SEG_USER_CODE = 0x20 OR 3"

record run_queue =
  procs :: "process list"
  queue :: "nat list"
  current :: "nat option"
  NEXT_PID :: u32

definition alloc_pid :: "run_queue \<Rightarrow> u32 \<times> run_queue" where
  "alloc_pid s = (NEXT_PID s, s\<lparr>NEXT_PID := NEXT_PID s + 1\<rparr>)"

text \<open>The thirty-two name bytes of a process, and \<open>name_str\<close>: its bytes up to the first zero, or \<open>???\<close>.\<close>

definition name_bytes :: "u8 list \<Rightarrow> u8 list" where
  "name_bytes name = (let n = min (length name) 31 in take n name @ replicate (32 - n) 0)"

definition name_str :: "process \<Rightarrow> u8 list" where
  "name_str p =
     (let name = takeWhile (\<lambda>b. b \<noteq> 0) (p_name p)
      in if utf8_valid name then name else [63, 63, 63])"

definition new_kernel ::
  "run_queue \<Rightarrow> kmem \<Rightarrow> u64 \<Rightarrow> u8 list \<Rightarrow> u64 \<Rightarrow> u8 \<Rightarrow> process option \<times> run_queue \<times> kmem" where
  "new_kernel s k cr3 name entry priority =
     (case alloc_pid s of (pid, s1) \<Rightarrow>
        (case alloc_frames k 2 of
           None \<Rightarrow> (None, s1, k)
         | Some (stack_phys, k1) \<Rightarrow>
             (let stack_virt = phys_to_virt (hhdm k1) stack_phys;
                  stack_top = stack_virt + KERNEL_STACK_SIZE;
                  ctx = default_context\<lparr>c_rip := entry, c_rsp := stack_top, c_rflags := 0x0202,
                          c_cs := ucast SEG_KERNEL_CODE, c_ss := ucast SEG_KERNEL_DATA\<rparr>
              in (Some \<lparr>p_pid = pid, p_ppid = 0, p_state = Runnable, p_context = ctx,
                    p_space = kernel_space cr3, p_vm = vm_new, p_kernel_stack = stack_virt,
                    p_kernel_stack_size = KERNEL_STACK_SIZE, p_priority = priority,
                    p_time_slice = DEFAULT_TIME_SLICE, p_base_slice = DEFAULT_TIME_SLICE,
                    p_exit_code = 0, p_name = name_bytes name, p_pending_signals = 0,
                    p_signal_mask = 0\<rparr>, s1, k1))))"

section \<open>The run queue\<close>

text \<open>\<open>Iterator::min_by_key\<close>: the first of the elements with the least key.\<close>

fun min_by_key :: "('a \<Rightarrow> 'k::linorder) \<Rightarrow> 'a list \<Rightarrow> 'a option" where
  "min_by_key f [] = None"
| "min_by_key f (x # xs) =
     (case min_by_key f xs of None \<Rightarrow> Some x | Some y \<Rightarrow> if f y < f x then Some y else Some x)"

definition set_pstate :: "run_queue \<Rightarrow> nat \<Rightarrow> process_state \<Rightarrow> run_queue" where
  "set_pstate s i st = s\<lparr>procs := (procs s)[i := (procs s ! i)\<lparr>p_state := st\<rparr>]\<rparr>"

definition rq_new :: run_queue where
  "rq_new = \<lparr>procs = [], queue = [], current = None, NEXT_PID = 1\<rparr>"

definition pick_next :: "run_queue \<Rightarrow> nat option \<times> run_queue" where
  "pick_next s =
     (case min_by_key (\<lambda>(_, p). p_priority (procs s ! p))
             (filter (\<lambda>(_, p). p_state (procs s ! p) = Runnable) (enumerate 0 (queue s))) of
        None \<Rightarrow> (None, s)
      | Some (i, _) \<Rightarrow>
          (Some (queue s ! i), s\<lparr>queue := take i (queue s) @ drop (Suc i) (queue s)\<rparr>))"

text \<open>\<open>Arc::new\<close> followed by \<open>spawn\<close>, and \<open>spawn\<close> of an existing \<open>Arc\<close>.\<close>

definition arc_new :: "run_queue \<Rightarrow> process \<Rightarrow> nat \<times> run_queue" where
  "arc_new s p = (length (procs s), s\<lparr>procs := procs s @ [p]\<rparr>)"

definition spawn :: "run_queue \<Rightarrow> nat \<Rightarrow> run_queue" where
  "spawn s p = s\<lparr>queue := queue s @ [p]\<rparr>"

definition current_process :: "run_queue \<Rightarrow> nat option" where
  "current_process s = current s"

text \<open>
  What the processor does at the end of \<open>schedule\<close>: return to the caller, switch from the old to the
  new process (with the new kernel stack top, and the page table to load if it differs), or jump to
  a process without saving anything.
\<close>

datatype cpu_action = Continue | Switch nat nat u64 "u64 option" | Jump nat

definition requeue_old :: "run_queue \<Rightarrow> nat \<Rightarrow> run_queue" where
  "requeue_old s p =
     (let s1 = (if p_state (procs s ! p) = Running
                then s\<lparr>procs := (procs s)[p := (procs s ! p)\<lparr>p_state := Runnable,
                         p_time_slice := p_base_slice (procs s ! p)\<rparr>]\<rparr>
                else s)
      in if p_state (procs s1 ! p) \<notin> {Dead, Zombie} then s1\<lparr>queue := queue s1 @ [p]\<rparr> else s1)"

definition schedule :: "run_queue \<Rightarrow> run_queue \<times> cpu_action" where
  "schedule s =
     (let old = current s;
          s1 = s\<lparr>current := None\<rparr>;
          s2 = (case old of None \<Rightarrow> s1 | Some p \<Rightarrow> requeue_old s1 p)
      in case pick_next s2 of (nxt, s3) \<Rightarrow>
        (let s4 = (case nxt of None \<Rightarrow> s3 | Some p \<Rightarrow> set_pstate s3 p Running);
             s5 = s4\<lparr>current := nxt\<rparr>
         in (s5,
             case nxt of
               None \<Rightarrow> Continue
             | Some new \<Rightarrow>
                 (case old of
                    None \<Rightarrow> Jump new
                  | Some old \<Rightarrow>
                      if old = new then Continue
                      else Switch old new (p_kernel_stack (procs s5 ! new) + KERNEL_STACK_SIZE)
                             (if pml4_phys (p_space (procs s5 ! old)) \<noteq> pml4_phys (p_space (procs s5 ! new))
                              then Some (pml4_phys (p_space (procs s5 ! new))) else None)))))"

definition tick :: "run_queue \<Rightarrow> run_queue \<times> cpu_action" where
  "tick s =
     (case current s of
        None \<Rightarrow> (s, Continue)
      | Some c \<Rightarrow>
          (let p = procs s ! c;
               p' = (if p_time_slice p > 0 then p\<lparr>p_time_slice := p_time_slice p - 1\<rparr> else p);
               s1 = s\<lparr>procs := (procs s)[c := p']\<rparr>
           in if p_time_slice p' = 0 then schedule s1 else (s1, Continue)))"

definition sleep_current :: "run_queue \<Rightarrow> run_queue \<times> cpu_action" where
  "sleep_current s =
     schedule (case current s of None \<Rightarrow> s | Some p \<Rightarrow> set_pstate s p Sleeping)"

fun wake_up_in :: "run_queue \<Rightarrow> u32 \<Rightarrow> nat list \<Rightarrow> run_queue" where
  "wake_up_in s pid [] = s"
| "wake_up_in s pid (p # ps) =
     (if p_pid (procs s ! p) = pid \<and> p_state (procs s ! p) = Sleeping then set_pstate s p Runnable
      else wake_up_in s pid ps)"

definition wake_up :: "run_queue \<Rightarrow> u32 \<Rightarrow> run_queue" where
  "wake_up s pid = wake_up_in s pid (queue s)"

definition wake_one :: "nat \<Rightarrow> run_queue \<Rightarrow> run_queue" where
  "wake_one p s = (if p_state (procs s ! p) = Sleeping then set_pstate s p Runnable else s)"

definition wake_up_all_sleeping :: "run_queue \<Rightarrow> run_queue" where
  "wake_up_all_sleeping s =
     (let s1 = fold wake_one (queue s) s
      in case current s1 of None \<Rightarrow> s1 | Some c \<Rightarrow> wake_one c s1)"

text \<open>\<open>SYS_EXIT\<close> of \<open>syscall_dispatch\<close>: the process dies and gives up the processor.\<close>

definition sys_exit :: "run_queue \<Rightarrow> u64 \<Rightarrow> run_queue \<times> cpu_action" where
  "sys_exit s a0 =
     schedule (case current_process s of
        None \<Rightarrow> s
      | Some c \<Rightarrow> s\<lparr>procs := (procs s)[c := (procs s ! c)\<lparr>p_state := Dead, p_exit_code := ucast a0\<rparr>]\<rparr>)"

section \<open>Context switch\<close>

text \<open>
  \<open>CpuContext\<close> is \<open>repr(C)\<close>: eleven 64-bit words in the order of its fields.  The assembly of
  \<open>context_switch\<close> and \<open>jump_to_context\<close> addresses them by byte offset; \<open>resume\<close> is the address of the
  local label \<open>1:\<close>.  The word the flag transfer pushes and pops below the stack pointer is left out.
\<close>

definition context_words :: "cpu_context \<Rightarrow> u64 list" where
  "context_words c =
     [c_r15 c, c_r14 c, c_r13 c, c_r12 c, c_rbp c, c_rbx c, c_rsp c, c_rip c, c_rflags c, c_cs c, c_ss c]"

record regs =
  r15 :: u64
  r14 :: u64
  r13 :: u64
  r12 :: u64
  rbp :: u64
  rbx :: u64
  rsp :: u64
  rip :: u64
  flags :: u64

abbreviation at_off :: "u64 list \<Rightarrow> nat \<Rightarrow> u64" where
  "at_off ws off \<equiv> ws ! (off div 8)"

definition put_off :: "nat \<Rightarrow> u64 \<Rightarrow> u64 list \<Rightarrow> u64 list" where
  "put_off off v ws = ws[off div 8 := v]"

definition jump_to_context :: "u64 list \<Rightarrow> regs" where
  "jump_to_context ws =
     \<lparr>r15 = at_off ws 0, r14 = at_off ws 8, r13 = at_off ws 16, r12 = at_off ws 24, rbp = at_off ws 32,
      rbx = at_off ws 40, rsp = at_off ws 48, rip = at_off ws 56, flags = at_off ws 64 OR 0x200\<rparr>"

definition context_switch :: "regs \<Rightarrow> u64 \<Rightarrow> u64 list \<Rightarrow> u64 list \<Rightarrow> u64 list \<times> regs" where
  "context_switch r resume old new =
     (let old' = put_off 64 (flags r) (put_off 56 resume (put_off 48 (rsp r) (put_off 0 (r15 r)
                 (put_off 8 (r14 r) (put_off 16 (r13 r) (put_off 24 (r12 r) (put_off 32 (rbp r)
                 (put_off 40 (rbx r) old))))))))
      in (old', jump_to_context new))"

end
