(* ===== verification/Sched.thy ===== *)
theory Sched
  imports Proc
begin

text \<open>
  Correctness of the scheduler: \<open>pick_next\<close> chooses the first runnable process of the best priority,
  \<open>schedule\<close> keeps every live process exactly once with at most one running, processes of equal
  priority are served in turn, and a time slice ends after as many ticks as it has.
\<close>

section \<open>The first minimum\<close>

lemma min_by_key_None: "min_by_key f xs = None \<longleftrightarrow> xs = []"
  by (cases xs) (auto split: option.splits)

lemma min_by_key_Some:
  "min_by_key f xs = Some x \<Longrightarrow>
     \<exists>us vs. xs = us @ x # vs \<and> (\<forall>y\<in>set us. f x < f y) \<and> (\<forall>y\<in>set vs. f x \<le> f y)"
proof (induction xs arbitrary: x)
  case Nil
  then show ?case by simp
next
  case (Cons a xs)
  show ?case
  proof (cases "min_by_key f xs")
    case None
    then have "xs = []" by (simp add: min_by_key_None)
    then show ?thesis using Cons.prems by (intro exI [of _ "[]"]) auto
  next
    case (Some y)
    obtain us vs where y: "xs = us @ y # vs" "\<forall>z\<in>set us. f y < f z" "\<forall>z\<in>set vs. f y \<le> f z"
      using Cons.IH [OF Some] by blast
    show ?thesis
    proof (cases "f y < f a")
      case True
      then have "x = y" using Cons.prems Some by simp
      then show ?thesis using y True by (intro exI [of _ "a # us"] exI [of _ vs]) auto
    next
      case False
      then have x: "x = a" using Cons.prems Some by simp
      have "\<forall>z\<in>set xs. f a \<le> f z" using y False by fastforce
      then show ?thesis using x by (intro exI [of _ "[]"] exI [of _ xs]) auto
    qed
  qed
qed

lemma enumerate_split:
  assumes "filter P (enumerate n xs) = us @ (i, x) # vs"
  shows "\<exists>as bs. xs = as @ x # bs \<and> i = n + length as \<and>
    us = filter P (enumerate n as) \<and> vs = filter P (enumerate (Suc i) bs) \<and> P (i, x)"
  using assms
proof (induction xs arbitrary: n us)
  case Nil
  then show ?case by simp
next
  case (Cons a xs)
  show ?case
  proof (cases "P (n, a)")
    case False
    then have "filter P (enumerate (Suc n) xs) = us @ (i, x) # vs" using Cons.prems by simp
    from Cons.IH [OF this] obtain as bs where "xs = as @ x # bs" "i = Suc n + length as"
      "us = filter P (enumerate (Suc n) as)" "vs = filter P (enumerate (Suc i) bs)" "P (i, x)" by blast
    then show ?thesis using False by (intro exI [of _ "a # as"] exI [of _ bs]) simp
  next
    case True
    show ?thesis
    proof (cases us)
      case Nil
      then have "i = n" "x = a" "vs = filter P (enumerate (Suc n) xs)" using True Cons.prems by auto
      then show ?thesis using True Nil by (intro exI [of _ "[]"] exI [of _ xs]) simp
    next
      case (Cons u us')
      then have u: "u = (n, a)" "filter P (enumerate (Suc n) xs) = us' @ (i, x) # vs"
        using True Cons.prems by auto
      from Cons.IH [OF u(2)] obtain as bs where "xs = as @ x # bs" "i = Suc n + length as"
        "us' = filter P (enumerate (Suc n) as)" "vs = filter P (enumerate (Suc i) bs)" "P (i, x)" by blast
      then show ?thesis using True u(1) Cons by (intro exI [of _ "a # as"] exI [of _ bs]) simp
    qed
  qed
qed

section \<open>Choosing the next process\<close>

abbreviation st :: "run_queue \<Rightarrow> nat \<Rightarrow> process_state" where
  "st s p \<equiv> p_state (procs s ! p)"

abbreviation prio :: "run_queue \<Rightarrow> nat \<Rightarrow> u8" where
  "prio s p \<equiv> p_priority (procs s ! p)"

lemma in_enumerate: "x \<in> set xs \<Longrightarrow> \<exists>i. (i, x) \<in> set (enumerate n xs)"
  by (metis in_set_impl_in_set_zip2 enumerate_eq_zip length_upt diff_add_inverse)

lemma pick_next_Some:
  assumes "pick_next s = (Some p, s')"
  shows "\<exists>xs ys. queue s = xs @ p # ys \<and> s' = s\<lparr>queue := xs @ ys\<rparr> \<and> st s p = Runnable \<and>
    (\<forall>q\<in>set xs. st s q = Runnable \<longrightarrow> prio s p < prio s q) \<and>
    (\<forall>q\<in>set ys. st s q = Runnable \<longrightarrow> prio s p \<le> prio s q)"
proof -
  let ?P = "\<lambda>(_ :: nat, q). st s q = Runnable" and ?f = "\<lambda>(_ :: nat, q). prio s q"
  obtain i q where m: "min_by_key ?f (filter ?P (enumerate 0 (queue s))) = Some (i, q)"
    and r: "p = queue s ! i" "s' = s\<lparr>queue := take i (queue s) @ drop (Suc i) (queue s)\<rparr>"
    using assms by (auto simp: pick_next_def split: option.splits prod.splits)
  obtain us vs where uv: "filter ?P (enumerate 0 (queue s)) = us @ (i, q) # vs"
    "\<forall>y\<in>set us. ?f (i, q) < ?f y" "\<forall>y\<in>set vs. ?f (i, q) \<le> ?f y"
    using min_by_key_Some [OF m] by blast
  obtain as bs where ab: "queue s = as @ q # bs" "i = length as" "us = filter ?P (enumerate 0 as)"
    "vs = filter ?P (enumerate (Suc i) bs)" "st s q = Runnable"
    using enumerate_split [OF uv(1)] by auto
  have "prio s q < prio s x" if "x \<in> set as" "st s x = Runnable" for x
    using in_enumerate [OF that(1), of 0] uv(2) ab(3) that(2) by fastforce
  moreover have "prio s q \<le> prio s x" if "x \<in> set bs" "st s x = Runnable" for x
    using in_enumerate [OF that(1), of "Suc i"] uv(3) ab(4) that(2) by fastforce
  moreover have "p = q" "s' = s\<lparr>queue := as @ bs\<rparr>" using r ab(1,2) by auto
  ultimately show ?thesis using ab(1,5) by blast
qed

lemma pick_next_None:
  "pick_next s = (None, s') \<longleftrightarrow> s' = s \<and> (\<forall>q\<in>set (queue s). st s q \<noteq> Runnable)"
proof -
  have "filter (\<lambda>(_, q). st s q = Runnable) (enumerate 0 (queue s)) = [] \<longleftrightarrow>
      (\<forall>q\<in>set (queue s). st s q \<noteq> Runnable)"
    using in_enumerate [of _ "queue s" 0] by (fastforce simp: filter_empty_conv dest: in_set_enumerate_eq [THEN iffD1])
  then show ?thesis
    by (auto simp: pick_next_def min_by_key_None split: option.splits prod.splits)
qed

section \<open>The invariant of the run queue\<close>

text \<open>
  \<open>rq_wf\<close>: the queue names live processes, each once, and not the current one.  Between two operations
  the current process is moreover the only one that is running (\<open>rq_inv\<close>).
\<close>

definition rq_wf :: "run_queue \<Rightarrow> bool" where
  "rq_wf s \<longleftrightarrow> distinct (queue s)
     \<and> (\<forall>p\<in>set (queue s). p < length (procs s) \<and> st s p \<in> {Runnable, Sleeping})
     \<and> (\<forall>c. current s = Some c \<longrightarrow> c < length (procs s) \<and> c \<notin> set (queue s))"

definition rq_inv :: "run_queue \<Rightarrow> bool" where
  "rq_inv s \<longleftrightarrow> rq_wf s \<and> (\<forall>c. current s = Some c \<longrightarrow> st s c = Running)"

definition members :: "run_queue \<Rightarrow> nat set" where
  "members s = set (queue s) \<union> set_option (current s)"

definition requeued :: "run_queue \<Rightarrow> run_queue" where
  "requeued s = (case current s of None \<Rightarrow> s\<lparr>current := None\<rparr> | Some p \<Rightarrow> requeue_old (s\<lparr>current := None\<rparr>) p)"

definition dispatched :: "run_queue \<Rightarrow> nat \<Rightarrow> run_queue" where
  "dispatched s p = set_pstate s p Running\<lparr>current := Some p\<rparr>"

lemma fst_schedule:
  "fst (schedule s) = (case pick_next (requeued s) of
     (None, s3) \<Rightarrow> s3\<lparr>current := None\<rparr> | (Some p, s3) \<Rightarrow> dispatched s3 p)"
  by (auto simp: schedule_def requeued_def dispatched_def Let_def split: option.splits prod.splits)

lemma requeued_law:
  assumes "rq_wf s"
  shows "rq_wf (requeued s)" "current (requeued s) = None"
    "set (queue (requeued s)) = members s - {p. current s = Some p \<and> st s p \<in> {Dead, Zombie}}"
    "\<forall>p. prio (requeued s) p = prio s p"
proof -
  have c: "current s = Some c \<Longrightarrow> c < length (procs s) \<and> c \<notin> set (queue s)" for c
    using assms by (simp add: rq_wf_def)
  show "rq_wf (requeued s)"
  proof (cases "current s")
    case None
    then show ?thesis using assms by (simp add: requeued_def rq_wf_def)
  next
    case (Some p)
    then show ?thesis using assms c [OF Some]
      by (cases "st s p") (auto simp: requeued_def requeue_old_def rq_wf_def Let_def nth_list_update)
  qed
  show "current (requeued s) = None"
    by (auto simp: requeued_def requeue_old_def Let_def split: option.splits)
  show "set (queue (requeued s)) = members s - {p. current s = Some p \<and> st s p \<in> {Dead, Zombie}}"
  proof (cases "current s")
    case None
    then show ?thesis by (simp add: requeued_def members_def)
  next
    case (Some p)
    then show ?thesis using c [OF Some]
      by (cases "st s p") (auto simp: requeued_def requeue_old_def members_def Let_def)
  qed
  have "prio (requeued s) p = prio s p" for p
  proof (cases "current s")
    case None
    then show ?thesis by (simp add: requeued_def)
  next
    case (Some q)
    then show ?thesis using c [OF Some]
      by (simp add: requeued_def requeue_old_def Let_def nth_list_update)
  qed
  then show "\<forall>p. prio (requeued s) p = prio s p" by blast
qed

lemma dispatched_law:
  assumes wf: "rq_wf s" "current s = None" and p: "pick_next s = (Some p, s')"
  shows "rq_inv (dispatched s' p)" "members (dispatched s' p) = members s"
    "\<forall>q\<in>members (dispatched s' p). st (dispatched s' p) q = Runnable \<longrightarrow> prio s p \<le> prio s q"
    "\<forall>q. prio (dispatched s' p) q = prio s q"
proof -
  obtain xs ys where q: "queue s = xs @ p # ys" "s' = s\<lparr>queue := xs @ ys\<rparr>" "st s p = Runnable"
    "\<forall>q\<in>set xs. st s q = Runnable \<longrightarrow> prio s p < prio s q"
    "\<forall>q\<in>set ys. st s q = Runnable \<longrightarrow> prio s p \<le> prio s q"
    using pick_next_Some [OF p] by blast
  have lt: "p < length (procs s)" using wf(1) q(1) by (simp add: rq_wf_def)
  show "rq_inv (dispatched s' p)"
    using wf q(1) lt
    by (auto simp: rq_inv_def rq_wf_def dispatched_def set_pstate_def q(2) nth_list_update)
  show m: "members (dispatched s' p) = members s"
    using wf(2) q(1) by (auto simp: members_def dispatched_def set_pstate_def q(2))
  show pr: "\<forall>r. prio (dispatched s' p) r = prio s r"
    using lt by (simp add: dispatched_def set_pstate_def q(2) nth_list_update)
  have "st (dispatched s' p) r = (if r = p then Running else st s r)" for r
    using lt by (simp add: dispatched_def set_pstate_def q(2) nth_list_update)
  then show "\<forall>q\<in>members (dispatched s' p). st (dispatched s' p) q = Runnable \<longrightarrow> prio s p \<le> prio s q"
    using q(1,4,5) wf(2) unfolding m by (auto simp: members_def dest: less_imp_le split: if_splits)
qed

lemma schedule_law:
  assumes "rq_wf s"
  shows "rq_inv (fst (schedule s))"
    "members (fst (schedule s)) = members s - {p. current s = Some p \<and> st s p \<in> {Dead, Zombie}}"
    "case current (fst (schedule s)) of
       None \<Rightarrow> \<forall>q\<in>members (fst (schedule s)). st (fst (schedule s)) q = Sleeping
     | Some p \<Rightarrow> \<forall>q\<in>members (fst (schedule s)). st (fst (schedule s)) q = Runnable \<longrightarrow> prio s p \<le> prio s q"
proof -
  let ?t = "requeued s" and ?s = "fst (schedule s)"
  note r = requeued_law [OF assms]
  have m: "members ?t = set (queue ?t)" using r(2) by (simp add: members_def)
  show "rq_inv ?s" "members ?s = members s - {p. current s = Some p \<and> st s p \<in> {Dead, Zombie}}"
    "case current ?s of
       None \<Rightarrow> \<forall>q\<in>members ?s. st ?s q = Sleeping
     | Some p \<Rightarrow> \<forall>q\<in>members ?s. st ?s q = Runnable \<longrightarrow> prio s p \<le> prio s q"
  proof (atomize (full), cases "pick_next ?t")
    case (Pair o' t')
    show "rq_inv ?s \<and> members ?s = members s - {p. current s = Some p \<and> st s p \<in> {Dead, Zombie}} \<and>
      (case current ?s of
         None \<Rightarrow> \<forall>q\<in>members ?s. st ?s q = Sleeping
       | Some p \<Rightarrow> \<forall>q\<in>members ?s. st ?s q = Runnable \<longrightarrow> prio s p \<le> prio s q)"
    proof (cases o')
      case None
      then have n: "t' = ?t" "\<forall>q\<in>set (queue ?t). st ?t q \<noteq> Runnable" using Pair by (auto simp: pick_next_None)
      have s: "?s = ?t" using None Pair n(1) r(2) by (simp add: fst_schedule)
      have "\<forall>q\<in>set (queue ?t). st ?t q = Sleeping" using n(2) r(1) by (auto simp: rq_wf_def)
      then show ?thesis using r m by (simp add: s rq_inv_def)
    next
      case (Some p)
      have s: "?s = dispatched t' p" using Some Pair by (simp add: fst_schedule)
      note d = dispatched_law [OF r(1,2) Pair [unfolded Some]]
      have "current (dispatched t' p) = Some p" by (simp add: dispatched_def)
      then show ?thesis using d r(3,4) m by (simp add: s)
    qed
  qed
qed

lemma rq_inv_wf [simp]: "rq_inv s \<Longrightarrow> rq_wf s"
  by (simp add: rq_inv_def)

lemma rq_wf_current:
  assumes "rq_wf s" "current s = Some c"
  shows "rq_wf (s\<lparr>procs := (procs s)[c := p]\<rparr>)"
  using assms by (auto simp: rq_wf_def nth_list_update)

lemma set_current_law:
  assumes "rq_inv s" "current s = Some c" "p_state p = Running"
  shows "rq_inv (s\<lparr>procs := (procs s)[c := p]\<rparr>)"
  using assms rq_wf_current [of s c p] by (auto simp: rq_inv_def rq_wf_def)

lemma tick_inv: "rq_inv s \<Longrightarrow> rq_inv (fst (tick s))"
proof -
  assume i: "rq_inv s"
  show ?thesis
  proof (cases "current s")
    case None
    then show ?thesis using i by (simp add: tick_def)
  next
    case (Some c)
    have "rq_inv (s\<lparr>procs := (procs s)[c := (procs s ! c)\<lparr>p_time_slice := n\<rparr>]\<rparr>)" for n
      using i Some by (intro set_current_law) (auto simp: rq_inv_def)
    moreover have "rq_inv (s\<lparr>procs := (procs s)[c := procs s ! c]\<rparr>)" using i by simp
    ultimately show ?thesis using Some
      by (simp add: tick_def Let_def schedule_law(1))
  qed
qed

lemma sleep_current_inv: "rq_inv s \<Longrightarrow> rq_inv (fst (sleep_current s))"
  unfolding sleep_current_def
  by (rule schedule_law(1)) (auto simp: set_pstate_def rq_wf_current split: option.splits)

lemma sys_exit_inv: "rq_inv s \<Longrightarrow> rq_inv (fst (sys_exit s c))"
  unfolding sys_exit_def current_process_def
  by (rule schedule_law(1)) (auto simp: rq_wf_current split: option.splits)

lemma set_runnable_inv:
  "rq_inv s \<Longrightarrow> p \<in> set (queue s) \<Longrightarrow> rq_inv (set_pstate s p Runnable)"
  by (auto simp: rq_inv_def rq_wf_def set_pstate_def nth_list_update)

lemma wake_up_in_inv: "rq_inv s \<Longrightarrow> set ps \<subseteq> set (queue s) \<Longrightarrow> rq_inv (wake_up_in s pid ps)"
  by (induction ps) (auto simp: set_runnable_inv)

lemma queue_set_pstate [simp]: "queue (set_pstate s p x) = queue s" "current (set_pstate s p x) = current s"
  "length (procs (set_pstate s p x)) = length (procs s)"
  by (simp_all add: set_pstate_def)

lemma wake_one_same [simp]: "queue (wake_one p s) = queue s" "current (wake_one p s) = current s"
  "length (procs (wake_one p s)) = length (procs s)"
  by (simp_all add: wake_one_def)

lemma fold_wake_same [simp]: "queue (fold wake_one ps s) = queue s" "current (fold wake_one ps s) = current s"
  "length (procs (fold wake_one ps s)) = length (procs s)"
  by (induction ps arbitrary: s) simp_all

lemma fold_wake_inv: "rq_inv s \<Longrightarrow> set ps \<subseteq> set (queue s) \<Longrightarrow> rq_inv (fold wake_one ps s)"
  by (induction ps arbitrary: s) (auto simp: wake_one_def set_runnable_inv)

lemma wake_up_all_sleeping_inv: "rq_inv s \<Longrightarrow> rq_inv (wake_up_all_sleeping s)"
  using fold_wake_inv [of s "queue s"]
  by (auto simp: wake_up_all_sleeping_def Let_def wake_one_def rq_inv_def split: option.splits)

lemma spawn_inv:
  "rq_inv s \<Longrightarrow> p_state p = Runnable \<Longrightarrow> rq_inv (spawn (s\<lparr>procs := procs s @ [p]\<rparr>) (length (procs s)))"
  by (fastforce simp: rq_inv_def rq_wf_def spawn_def nth_append)

text \<open>The operations of the scheduler as a transition system, from the empty queue of the boot.\<close>

inductive sched_step :: "run_queue \<Rightarrow> run_queue \<Rightarrow> bool" where
  step_alloc_pid: "sched_step s (snd (alloc_pid s))"
| step_spawn: "p_state p = Runnable \<Longrightarrow> arc_new s p = (i, s') \<Longrightarrow> sched_step s (spawn s' i)"
| step_schedule: "sched_step s (fst (schedule s))"
| step_tick: "sched_step s (fst (tick s))"
| step_sleep: "sched_step s (fst (sleep_current s))"
| step_exit: "sched_step s (fst (sys_exit s code))"
| step_wake_up: "sched_step s (wake_up s pid)"
| step_wake_all: "sched_step s (wake_up_all_sleeping s)"

inductive_cases sched_stepE: "sched_step s t"

lemma alloc_pid_inv: "rq_inv s \<Longrightarrow> rq_inv (snd (alloc_pid s))"
  by (simp add: alloc_pid_def rq_inv_def rq_wf_def)

interpretation sched: transition_invariant "\<lambda>s. s = rq_new" sched_step rq_inv
proof
  show "rq_inv s" if "s = rq_new" for s
    using that by (simp add: rq_inv_def rq_wf_def rq_new_def)
  show "rq_inv t" if "sched_step s t" "rq_inv s" for s t
    using that
    by (cases rule: sched_step.cases)
      (auto simp: spawn_inv schedule_law(1) tick_inv sleep_current_inv sys_exit_inv wake_up_def
         wake_up_in_inv wake_up_all_sleeping_inv arc_new_def alloc_pid_inv)
qed

section \<open>Bounded waiting\<close>

text \<open>The runnable processes of the same priority that stand before \<open>p\<close> in the queue.\<close>

definition ahead :: "run_queue \<Rightarrow> nat \<Rightarrow> nat" where
  "ahead s p = length (filter (\<lambda>q. st s q = Runnable \<and> prio s q = prio s p)
                         (takeWhile (\<lambda>q. q \<noteq> p) (queue s)))"

definition top_waiting :: "run_queue \<Rightarrow> nat \<Rightarrow> bool" where
  "top_waiting s p \<longleftrightarrow> rq_inv s \<and> p \<in> set (queue s) \<and> st s p = Runnable \<and>
     (\<forall>q\<in>members s. st s q \<noteq> Sleeping \<longrightarrow> prio s p \<le> prio s q)"

lemma requeued_keeps:
  assumes "rq_inv s"
  shows "\<exists>zs. queue (requeued s) = queue s @ zs \<and> set zs \<subseteq> set_option (current s)"
    "q \<in> set (queue s) \<Longrightarrow> procs (requeued s) ! q = procs s ! q"
  using assms
  by (auto simp: requeued_def requeue_old_def Let_def rq_inv_def rq_wf_def nth_list_update split: option.splits)

lemma requeued_top:
  assumes "top_waiting s p"
  shows "p \<in> set (queue (requeued s))" "st (requeued s) p = Runnable"
    "ahead (requeued s) p = ahead s p"
    "\<forall>q\<in>set (queue (requeued s)). st (requeued s) q = Runnable \<longrightarrow> prio s p \<le> prio s q"
proof -
  have s: "rq_inv s" "p \<in> set (queue s)" "st s p = Runnable" using assms by (auto simp: top_waiting_def)
  obtain zs where z: "queue (requeued s) = queue s @ zs" "set zs \<subseteq> set_option (current s)"
    using requeued_keeps(1) [OF s(1)] by blast
  note keep = requeued_keeps(2) [OF s(1)]
  show "p \<in> set (queue (requeued s))" "st (requeued s) p = Runnable" using s z keep by auto
  have "takeWhile (\<lambda>q. q \<noteq> p) (queue (requeued s)) = takeWhile (\<lambda>q. q \<noteq> p) (queue s)"
    using s(2) z(1) by simp
  moreover have "filter (\<lambda>q. st (requeued s) q = Runnable \<and> prio (requeued s) q = prio (requeued s) p)
      (takeWhile (\<lambda>q. q \<noteq> p) (queue s)) =
    filter (\<lambda>q. st s q = Runnable \<and> prio s q = prio s p) (takeWhile (\<lambda>q. q \<noteq> p) (queue s))"
    using keep s(2) by (intro filter_cong) (auto dest: set_takeWhileD)
  ultimately show "ahead (requeued s) p = ahead s p" by (simp add: ahead_def)
  have "prio s p \<le> prio s q" if "q \<in> set (queue (requeued s))" "st (requeued s) q = Runnable" for q
  proof (cases "q \<in> set (queue s)")
    case True
    then show ?thesis using assms that keep [OF True] by (auto simp: top_waiting_def members_def)
  next
    case False
    then have "current s = Some q" using that z by auto
    then show ?thesis using assms by (auto simp: top_waiting_def members_def rq_inv_def)
  qed
  then show "\<forall>q\<in>set (queue (requeued s)). st (requeued s) q = Runnable \<longrightarrow> prio s p \<le> prio s q" by blast
qed

lemma top_waiting_step:
  assumes top: "top_waiting s p"
  shows "ahead s p = 0 \<longrightarrow> current (fst (schedule s)) = Some p"
    "ahead s p = Suc n \<longrightarrow> top_waiting (fst (schedule s)) p \<and> ahead (fst (schedule s)) p = n"
proof -
  let ?t = "requeued s"
  have s: "rq_inv s" using top by (simp add: top_waiting_def)
  note r = requeued_law [OF rq_inv_wf [OF s]] and t = requeued_top [OF top]
  obtain x t' where x: "pick_next ?t = (Some x, t')"
    using pick_next_None [of ?t] t(1,2) by (metis option.exhaust surj_pair)
  obtain xs ys where q: "queue ?t = xs @ x # ys" "t' = ?t\<lparr>queue := xs @ ys\<rparr>" "st ?t x = Runnable"
    "\<forall>q\<in>set xs. st ?t q = Runnable \<longrightarrow> prio s x < prio s q"
    "\<forall>q\<in>set ys. st ?t q = Runnable \<longrightarrow> prio s x \<le> prio s q"
    using pick_next_Some [OF x] r(4) by auto
  have px: "prio s p \<le> prio s x" using t(4) q(1,3) by simp
  have new: "fst (schedule s) = dispatched t' x" using x by (simp add: fst_schedule)
  have d: "distinct (xs @ x # ys)" "x < length (procs ?t)" using r(1) q(1) by (auto simp: rq_wf_def)
  have st': "st (dispatched t' x) y = (if y = x then Running else st ?t y)"
    "prio (dispatched t' x) y = prio s y" for y
    using d(2) r(4) by (auto simp: dispatched_def set_pstate_def q(2) nth_list_update)
  let ?Q = "\<lambda>q. st ?t q = Runnable \<and> prio s q = prio s p"
  have noxs: "filter ?Q xs = []" using q(4) px by (fastforce simp: filter_empty_conv)
  have ah: "ahead s p = length (filter ?Q (takeWhile (\<lambda>q. q \<noteq> p) (xs @ x # ys)))"
    using t(3) r(4) q(1) by (simp add: ahead_def)
  have pnx: "p \<notin> set xs" using q(4) px t(2) by fastforce
  have twp: "takeWhile (\<lambda>q. q \<noteq> p) (xs @ zs) = xs @ takeWhile (\<lambda>q. q \<noteq> p) zs" for zs
    using pnx by (intro takeWhile_append2) auto
  have c: "current (dispatched t' x) = Some x" by (simp add: dispatched_def)
  show "ahead s p = 0 \<longrightarrow> current (fst (schedule s)) = Some p"
  proof
    assume 0: "ahead s p = 0"
    show "current (fst (schedule s)) = Some p"
    proof (cases "p = x")
      case False
      then have "p \<in> set ys" using t(1) q(1) pnx by auto
      then have "?Q x" using q(3,5) px t(2) by force
      then show ?thesis using 0 ah False by (simp add: twp)
    qed (simp add: new c)
  qed
  show "ahead s p = Suc n \<longrightarrow> top_waiting (fst (schedule s)) p \<and> ahead (fst (schedule s)) p = n"
  proof
    assume n: "ahead s p = Suc n"
    have ne: "p \<noteq> x"
    proof
      assume "p = x"
      then show False using n ah noxs twp [of "x # ys"] by simp
    qed
    then have ys: "p \<in> set ys" using t(1) q(1) pnx by auto
    have Qx: "?Q x" using ys q(3,5) px t(2) by force
    have tw: "takeWhile (\<lambda>q. q \<noteq> p) (xs @ x # ys) = xs @ x # takeWhile (\<lambda>q. q \<noteq> p) ys"
      "takeWhile (\<lambda>q. q \<noteq> p) (xs @ ys) = xs @ takeWhile (\<lambda>q. q \<noteq> p) ys"
      using ne by (simp_all add: twp)
    have n': "length (filter ?Q (takeWhile (\<lambda>q. q \<noteq> p) ys)) = n" using n ah noxs Qx by (simp add: tw)
    have Q': "filter (\<lambda>q. st (dispatched t' x) q = Runnable \<and> prio s q = prio s p) zs = filter ?Q zs"
      if "x \<notin> set zs" for zs
      using that by (intro filter_cong) (auto simp: st'(1))
    have qd: "queue (dispatched t' x) = xs @ ys" by (simp add: dispatched_def q(2))
    have "x \<notin> set xs" "x \<notin> set (takeWhile (\<lambda>q. q \<noteq> p) ys)" using d(1) by (auto dest: set_takeWhileD)
    then have "ahead (dispatched t' x) p = n"
      using n' noxs by (simp add: ahead_def qd tw(2) st'(2) Q')
    moreover have "prio s p \<le> prio s q" if "q \<in> members (dispatched t' x)"
      "st (dispatched t' x) q \<noteq> Sleeping" for q
    proof (cases "q = x")
      case False
      then have "q \<in> set (queue ?t)" using that(1) q(1) by (auto simp: members_def qd c)
      then have "st ?t q = Runnable" using that(2) False r(1) by (auto simp: st'(1) rq_wf_def)
      then show ?thesis using t(4) \<open>q \<in> set (queue ?t)\<close> by simp
    qed (simp add: px)
    moreover have "rq_inv (dispatched t' x)" using dispatched_law(1) [OF r(1,2) x] .
    ultimately show "top_waiting (fst (schedule s)) p \<and> ahead (fst (schedule s)) p = n"
      using ys ne t(2) by (simp add: new top_waiting_def qd st')
  qed
qed

lemma top_waiting_runs:
  "top_waiting s p \<Longrightarrow> current (((fst \<circ> schedule) ^^ Suc (ahead s p)) s) = Some p"
proof (induction "ahead s p" arbitrary: s)
  case 0
  show ?case using top_waiting_step(1) [OF 0(2)] unfolding 0(1) [symmetric] by simp
next
  case (Suc n)
  have step: "top_waiting (fst (schedule s)) p" "ahead (fst (schedule s)) p = n"
    using top_waiting_step(2) [OF Suc.prems, of n] Suc.hyps(2) by auto
  show ?case
    using Suc.hyps(1) [OF step(2) [symmetric] step(1)]
    unfolding Suc.hyps(2) [symmetric] step(2) by (simp add: funpow_swap1)
qed

section \<open>Time slices\<close>

abbreviation slice :: "run_queue \<Rightarrow> nat \<Rightarrow> u32" where
  "slice s p \<equiv> p_time_slice (procs s ! p)"

definition with_slice :: "run_queue \<Rightarrow> nat \<Rightarrow> u32 \<Rightarrow> run_queue" where
  "with_slice s c n = s\<lparr>procs := (procs s)[c := (procs s ! c)\<lparr>p_time_slice := n\<rparr>]\<rparr>"

lemma tick_slice:
  assumes "current s = Some c" "c < length (procs s)" "0 < slice s c"
  shows "tick s = (let s' = with_slice s c (slice s c - 1) in
    if slice s c = 1 then schedule s' else (s', Continue))"
  using assms by (simp add: tick_def with_slice_def Let_def)

lemma with_slice_twice:
  "c < length (procs s) \<Longrightarrow> with_slice (with_slice s c m) c n = with_slice s c n"
  by (simp add: with_slice_def)

lemma ticks_slice:
  assumes s: "current s = Some c" "c < length (procs s)" and m: "m < unat (slice s c)"
  shows "((fst \<circ> tick) ^^ m) s = with_slice s c (slice s c - of_nat m)"
  using m
proof (induction m)
  case 0
  then show ?case using s(2) by (simp add: with_slice_def)
next
  case (Suc m)
  let ?n = "slice s c - of_nat m"
  have "unat (slice s c) < 2 ^ LENGTH(32)" by (rule unsigned_less)
  then have "m < 2 ^ LENGTH(32)" using Suc.prems by linarith
  then have "unat (of_nat m :: u32) = m" by (simp add: unat_of_nat take_bit_nat_eq_self)
  then have u: "unat ?n = unat (slice s c) - m"
    using Suc.prems by (simp add: unat_sub word_le_nat_alt)
  then have n: "0 < ?n" "?n \<noteq> 1" using Suc.prems by (auto simp: word_less_nat_alt)
  have "slice (with_slice s c ?n) c = ?n" using s(2) by (simp add: with_slice_def)
  then have "fst (tick (with_slice s c ?n)) = with_slice s c (?n - 1)"
    using tick_slice [of "with_slice s c ?n" c] s n by (simp add: with_slice_def)
  then show ?case using Suc by (simp add: algebra_simps)
qed

section \<open>Waking up\<close>

lemma fold_wake_procs:
  "set ps \<subseteq> {..<length (procs s)} \<Longrightarrow>
     procs (fold wake_one ps s) ! q =
       (if q \<in> set ps \<and> st s q = Sleeping then (procs s ! q)\<lparr>p_state := Runnable\<rparr> else procs s ! q)"
proof (induction ps arbitrary: s)
  case (Cons p ps)
  have "procs (wake_one p s) ! q =
      (if q = p \<and> st s q = Sleeping then (procs s ! q)\<lparr>p_state := Runnable\<rparr> else procs s ! q)"
    using Cons.prems by (auto simp: wake_one_def set_pstate_def nth_list_update)
  then show ?case using Cons.IH [of "wake_one p s"] Cons.prems by auto
qed simp

lemma wake_up_all_procs:
  assumes "rq_wf s"
  shows "procs (wake_up_all_sleeping s) ! q =
    (if q \<in> members s \<and> st s q = Sleeping then (procs s ! q)\<lparr>p_state := Runnable\<rparr> else procs s ! q)"
proof -
  have "wake_up_all_sleeping s =
      fold wake_one (queue s @ (case current s of None \<Rightarrow> [] | Some c \<Rightarrow> [c])) s"
    by (simp add: wake_up_all_sleeping_def Let_def split: option.splits)
  moreover have "set (queue s @ (case current s of None \<Rightarrow> [] | Some c \<Rightarrow> [c])) \<subseteq> {..<length (procs s)}"
    using assms by (auto simp: rq_wf_def split: option.splits)
  moreover have "set (queue s @ (case current s of None \<Rightarrow> [] | Some c \<Rightarrow> [c])) = members s"
    by (auto simp: members_def split: option.splits)
  ultimately show ?thesis by (simp only: fold_wake_procs)
qed

lemma wake_up_all_same: "queue (wake_up_all_sleeping s) = queue s" "current (wake_up_all_sleeping s) = current s"
  by (auto simp: wake_up_all_sleeping_def Let_def split: option.splits)

section \<open>An example\<close>

definition example_proc :: "u32 \<Rightarrow> u8 \<Rightarrow> u32 \<Rightarrow> process_state \<Rightarrow> process" where
  "example_proc pid pr n x =
     \<lparr>p_pid = pid, p_ppid = 0, p_state = x, p_context = default_context, p_space = \<lparr>pml4_phys = 0x1000\<rparr>,
      p_vm = vm_new, p_kernel_stack = 0, p_kernel_stack_size = KERNEL_STACK_SIZE, p_priority = pr,
      p_time_slice = n, p_base_slice = n, p_exit_code = 0, p_name = replicate 32 0,
      p_pending_signals = 0, p_signal_mask = 0\<rparr>"

text \<open>A running process with two that wait for the processor and one that sleeps.\<close>

definition example_rq :: run_queue where
  "example_rq = \<lparr>procs = [example_proc 1 5 10 Running, example_proc 2 5 10 Runnable,
      example_proc 3 1 10 Sleeping, example_proc 4 5 10 Runnable],
    queue = [1, 2, 3], current = Some 0, NEXT_PID = 5\<rparr>"

lemma example_rq_inv: "rq_inv example_rq"
  by (simp add: rq_inv_def rq_wf_def example_rq_def example_proc_def)

definition example_boot :: run_queue where
  "example_boot = fst (schedule (spawn (snd (arc_new rq_new (example_proc 1 5 10 Runnable))) 0))"

lemma example_boot_eq:
  "example_boot = \<lparr>procs = [example_proc 1 5 10 Running], queue = [], current = Some 0, NEXT_PID = 1\<rparr>"
  by code_simp

lemma example_boot_reach: "reach (\<lambda>s. s = rq_new) sched_step example_boot"
proof -
  let ?s = "snd (arc_new rq_new (example_proc 1 5 10 Runnable))"
  have "reach (\<lambda>s. s = rq_new) sched_step rq_new" by (rule reach_start) simp
  moreover have "sched_step rq_new (spawn ?s 0)"
    by (rule step_spawn [where p = "example_proc 1 5 10 Runnable"])
      (simp_all add: arc_new_def example_proc_def rq_new_def)
  ultimately have "reach (\<lambda>s. s = rq_new) sched_step (spawn ?s 0)" by (rule reach_step)
  then show ?thesis unfolding example_boot_def using step_schedule by (rule reach_step)
qed

definition example_regs :: regs where
  "example_regs = \<lparr>r15 = 1, r14 = 2, r13 = 3, r12 = 4, rbp = 5, rbx = 6, rsp = 0x7000, rip = 8, flags = 2\<rparr>"

section \<open>Properties\<close>





text \<open>C21: No starvation among equals: a runnable process that nobody of better priority competes with
  gets the processor after at most as many further calls of \<open>schedule\<close> as there are runnable processes
  of its priority queued before it.\<close>

theorem bounded_waiting:
  assumes "rq_inv s" "p \<in> set (queue s)" "st s p = Runnable"
    and "\<forall>q\<in>members s. st s q \<noteq> Sleeping \<longrightarrow> prio s p \<le> prio s q"
  shows "current (((fst \<circ> schedule) ^^ Suc (ahead s p)) s) = Some p"
  using assms by (intro top_waiting_runs) (simp add: top_waiting_def)

theorem bounded_waiting_witness:
  "ahead example_rq 3 = 1 \<and> current (fst (schedule (fst (schedule example_rq)))) = Some 3"
proof -
  have a: "ahead example_rq 3 = 1" by code_simp
  have "current (((fst \<circ> schedule) ^^ Suc (ahead example_rq 3)) example_rq) = Some 3"
    by (rule bounded_waiting [OF example_rq_inv])
      (auto simp: members_def example_rq_def example_proc_def numeral_eq_Suc)
  then show ?thesis using a by simp
qed

text \<open>C31: A process with \<open>n + 1\<close> ticks left keeps the processor for \<open>n\<close> ticks, during which the queue does
  not change, and the tick after that is a call of \<open>schedule\<close>.\<close>

theorem tick_preempts:
  assumes "rq_inv s" "current s = Some c" "unat (slice s c) = Suc n"
  shows "(\<forall>m\<le>n. current (((fst \<circ> tick) ^^ m) s) = Some c \<and> queue (((fst \<circ> tick) ^^ m) s) = queue s) \<and>
    tick (((fst \<circ> tick) ^^ n) s) = schedule (with_slice s c 0)"
proof -
  have c: "c < length (procs s)" using assms(1,2) by (simp add: rq_inv_def rq_wf_def)
  have t: "((fst \<circ> tick) ^^ m) s = with_slice s c (slice s c - of_nat m)" if "m \<le> n" for m
    using that assms(3) by (intro ticks_slice [OF assms(2) c]) simp
  have s: "slice s c = of_nat (Suc n)" unfolding assms(3) [symmetric] by simp
  have "slice (with_slice s c 1) c = 1" using c by (simp add: with_slice_def)
  then have "tick (with_slice s c 1) = schedule (with_slice s c 0)"
    using tick_slice [of "with_slice s c 1" c] assms(2) c by (simp add: with_slice_def)
  then have "tick (((fst \<circ> tick) ^^ n) s) = schedule (with_slice s c 0)" using t [of n] s by simp
  moreover have "current (with_slice s c k) = Some c" "queue (with_slice s c k) = queue s" for k
    using assms(2) by (auto simp: with_slice_def)
  ultimately show ?thesis using t by auto
qed

theorem tick_preempts_witness:
  "current (((fst \<circ> tick) ^^ 9) example_rq) = Some 0 \<and>
   tick (((fst \<circ> tick) ^^ 9) example_rq) = schedule (with_slice example_rq 0 0)"
proof -
  have "unat (slice example_rq 0) = Suc 9" by (simp add: example_rq_def example_proc_def)
  then show ?thesis using tick_preempts [OF example_rq_inv, of 0 9] by (simp add: example_rq_def)
qed

text \<open>C32: The keyboard's wake-up makes exactly the sleeping processes of the run queue runnable and
  changes nothing else of any process, nor the queue, nor the current process.\<close>

theorem wake_up_all_correct:
  assumes "rq_wf s"
  shows "queue (wake_up_all_sleeping s) = queue s \<and> current (wake_up_all_sleeping s) = current s \<and>
    (\<forall>q. procs (wake_up_all_sleeping s) ! q =
       (if q \<in> members s \<and> st s q = Sleeping then (procs s ! q)\<lparr>p_state := Runnable\<rparr> else procs s ! q))"
  using wake_up_all_procs [OF assms] wake_up_all_same by blast

theorem wake_up_all_correct_witness:
  "st (wake_up_all_sleeping example_rq) 2 = Runnable \<and> queue (wake_up_all_sleeping example_rq) = [1, 2, 3]"
  using wake_up_all_correct [OF rq_inv_wf [OF example_rq_inv]]
  by (simp add: members_def example_rq_def example_proc_def)



end
