(* ===== verification/Buddy.thy ===== *)
theory Buddy
  imports Pmm
begin

text \<open>
  The buddy allocator's correctness. Blocks are pairs of an order and an address. The first
  section is the geometry of splitting and merging: a block of order \<open>c + 1\<close> is the disjoint
  union of its two halves, and the buddy of a block is the other half, computed by the code
  as an exclusive or. The second section is the allocator on plain lists of addresses and
  what it promises. The third section relates those lists to the links in physical memory
  and shows that the code of \<open>Pmm\<close> refines the list version.
\<close>

section \<open>Geometry of blocks\<close>

type_synonym block = "nat \<times> u64"

definition bspan :: "block \<Rightarrow> nat set" where
  "bspan b = span (snd b) (2 ^ (12 + fst b))"

definition buddy_of :: "nat \<Rightarrow> u64 \<Rightarrow> u64" where
  "buddy_of c p = p XOR block_size c"

lemma block_size_eq: "block_size c = 2 ^ (12 + c)"
  by (simp add: block_size_def PAGE_SIZE_def push_bit_eq_mult power_add)

lemma unat_block_size:
  assumes "c \<le> 12"
  shows "unat (block_size c) = 2 ^ (12 + c)"
proof -
  have "(2::nat) ^ (12 + c) < 2 ^ 64" using assms by (intro power_strict_increasing) auto
  moreover have "block_size c = of_nat (2 ^ (12 + c))" by (simp add: block_size_eq)
  ultimately show ?thesis by (simp only: unat_of_nat) simp
qed

lemma bit_block_size: "bit (block_size c) n \<longleftrightarrow> n = 12 + c \<and> n < 64"
  by (auto simp: block_size_eq bit_exp_iff possible_bit_def)

lemma unat_half:
  assumes "aligned (13 + c) p" "c < 12"
  shows "unat (p + block_size c) = unat p + 2 ^ (12 + c)"
proof -
  have "unat p + 2 ^ (13 + c) \<le> 2 ^ 64" using assms by (intro aligned_bound) auto
  moreover have "(2::nat) ^ (13 + c) = 2 ^ (12 + c) + 2 ^ (12 + c)" by (simp add: power_add)
  moreover have "(0::nat) < 2 ^ (12 + c)" by simp
  ultimately have "unat p + unat (block_size c) < 2 ^ 64"
    using assms unat_block_size [of c] by linarith
  then show ?thesis
    using assms unat_block_size [of c] by (simp add: unat_word_ariths)
qed

lemma aligned_half:
  assumes "aligned (13 + c) p" "c < 12"
  shows "aligned (12 + c) p" "aligned (12 + c) (p + block_size c)"
proof -
  show 1: "aligned (12 + c) p" using assms(1) by (rule aligned_mono) simp
  show "aligned (12 + c) (p + block_size c)"
    using 1 assms unfolding aligned_def unat_half [OF assms] by simp
qed

lemma bspan_split:
  assumes "aligned (13 + c) p" "c < 12"
  shows "bspan (Suc c, p) = bspan (c, p) \<union> bspan (c, p + block_size c)"
    and "bspan (c, p) \<inter> bspan (c, p + block_size c) = {}"
proof -
  have "(2::nat) ^ (13 + c) = 2 ^ (12 + c) + 2 ^ (12 + c)" by (simp add: power_add)
  then show "bspan (Suc c, p) = bspan (c, p) \<union> bspan (c, p + block_size c)"
    and "bspan (c, p) \<inter> bspan (c, p + block_size c) = {}"
    using unat_half [OF assms] by (auto simp: bspan_def span_def)
qed

lemma buddy_of_lower:
  assumes "aligned (12 + c) p" "\<not> bit p (12 + c)" "c < 12"
  shows "buddy_of c p = p + block_size c" "aligned (13 + c) p"
proof -
  have "p AND block_size c = 0"
    using assms(2) by (intro bit_word_eqI) (auto simp: bit_and_iff bit_block_size)
  then have "p + block_size c = p OR block_size c" by (simp add: disjunctive_add_eq_or)
  also have "\<dots> = p XOR block_size c"
    using assms(2) by (intro bit_word_eqI) (auto simp: bit_or_iff bit_xor_iff bit_block_size)
  finally show "buddy_of c p = p + block_size c" by (simp add: buddy_of_def)
  show "aligned (13 + c) p"
    unfolding aligned_bit
  proof (intro allI impI)
    fix n
    assume "n < 13 + c"
    then have "n < 12 + c \<or> n = 12 + c" by linarith
    with assms show "\<not> bit p n" by (auto simp: aligned_bit)
  qed
qed

lemma buddy_of_upper:
  assumes "aligned (12 + c) p" "bit p (12 + c)" "c < 12"
  shows "p = buddy_of c p + block_size c" "aligned (13 + c) (buddy_of c p)"
proof -
  let ?q = "buddy_of c p"
  have nb: "\<not> bit ?q (12 + c)" using assms by (simp add: buddy_of_def bit_xor_iff bit_block_size)
  have al: "aligned (12 + c) ?q"
    using assms by (auto simp: aligned_bit buddy_of_def bit_xor_iff bit_block_size)
  have inv: "buddy_of c ?q = p" by (simp add: buddy_of_def xor.assoc)
  show "p = ?q + block_size c" using buddy_of_lower(1) [OF al nb] assms(3) inv by simp
  show "aligned (13 + c) ?q" using buddy_of_lower(2) [OF al nb] assms(3) by simp
qed

text \<open>Merging a block with its buddy gives the block of the next order at the lower address.\<close>

lemma merge_block:
  assumes "aligned (12 + c) p" "c < 12"
  shows "aligned (13 + c) (min p (buddy_of c p))"
    and "bspan (Suc c, min p (buddy_of c p)) = bspan (c, p) \<union> bspan (c, buddy_of c p)"
    and "bspan (c, p) \<inter> bspan (c, buddy_of c p) = {}"
    and "buddy_of c p \<noteq> p"
proof -
  let ?q = "buddy_of c p"
  have "aligned (13 + c) (min p ?q) \<and>
        bspan (Suc c, min p ?q) = bspan (c, p) \<union> bspan (c, ?q) \<and>
        bspan (c, p) \<inter> bspan (c, ?q) = {} \<and> ?q \<noteq> p"
  proof (cases "bit p (12 + c)")
    case False
    note low = buddy_of_lower [OF assms(1) False assms(2)]
    have "unat p < unat ?q" using unat_half [OF low(2) assms(2)] low(1) by simp
    then have "min p ?q = p" and "?q \<noteq> p" by (auto simp: min_def word_le_nat_alt)
    then show ?thesis using low bspan_split [OF low(2) assms(2)] by auto
  next
    case True
    note up = buddy_of_upper [OF assms(1) True assms(2)]
    have "unat ?q < unat p" using unat_half [OF up(2) assms(2)] up(1) by simp
    then have "min p ?q = ?q" and "?q \<noteq> p" by (auto simp: min_def word_le_nat_alt)
    then show ?thesis using up bspan_split [OF up(2) assms(2)] by auto
  qed
  then show "aligned (13 + c) (min p ?q)"
    and "bspan (Suc c, min p ?q) = bspan (c, p) \<union> bspan (c, ?q)"
    and "bspan (c, p) \<inter> bspan (c, ?q) = {}" and "?q \<noteq> p" by blast+
qed

lemma buddy_of_involutive [simp]: "buddy_of c (buddy_of c p) = p"
  by (simp add: buddy_of_def xor.assoc)

lemma aligned_buddy_of: "aligned (12 + c) p \<Longrightarrow> aligned (12 + c) (buddy_of c p)"
  by (auto simp: aligned_bit buddy_of_def bit_xor_iff bit_block_size)

section \<open>The allocator on lists of addresses\<close>

type_synonym alists = "u64 list list"

definition blocks :: "alists \<Rightarrow> block set" where
  "blocks ls = {(c, a). c < length ls \<and> a \<in> set (ls ! c)}"

definition space :: "alists \<Rightarrow> nat set" where
  "space ls = \<Union> (bspan ` blocks ls)"

definition wf_blocks :: "u64 \<Rightarrow> block set \<Rightarrow> bool" where
  "wf_blocks hh B \<longleftrightarrow>
     (\<forall>(c, a) \<in> B. c \<le> 12 \<and> aligned (12 + c) a) \<and>
     (\<forall>b \<in> B. \<forall>b' \<in> B. b \<noteq> b' \<longrightarrow> bspan b \<inter> bspan b' = {}) \<and>
     unat (- hh) \<notin> \<Union> (bspan ` B)"

definition lists_ok :: "alists \<Rightarrow> bool" where
  "lists_ok ls \<longleftrightarrow> length ls = 13 \<and> (\<forall>c<13. distinct (ls ! c))"

definition ok :: "u64 \<Rightarrow> alists \<Rightarrow> bool" where
  "ok hh ls \<longleftrightarrow> lists_ok ls \<and> wf_blocks hh (blocks ls)"

text \<open>\<open>held hh ls c p\<close>: the block \<open>(c, p)\<close> is outside the lists and disjoint from every listed one.\<close>

definition held :: "u64 \<Rightarrow> alists \<Rightarrow> nat \<Rightarrow> u64 \<Rightarrow> bool" where
  "held hh ls c p \<longleftrightarrow>
     lists_ok ls \<and> (c, p) \<notin> blocks ls \<and> wf_blocks hh (insert (c, p) (blocks ls))"

definition a_push :: "alists \<Rightarrow> nat \<Rightarrow> u64 \<Rightarrow> alists" where
  "a_push ls c p = ls[c := p # ls ! c]"

fun a_split :: "alists \<Rightarrow> u64 \<Rightarrow> nat \<Rightarrow> nat \<Rightarrow> alists" where
  "a_split ls p cur ord =
     (if ord < cur then a_split (a_push ls (cur - 1) (p + block_size (cur - 1))) p (cur - 1) ord
      else ls)"

definition a_alloc :: "alists \<Rightarrow> nat \<Rightarrow> (u64 \<times> alists) option" where
  "a_alloc ls ord =
     (case find (\<lambda>c. ls ! c \<noteq> []) [ord..<13] of None \<Rightarrow> None
      | Some c \<Rightarrow> (let p = hd (ls ! c) in Some (p, a_split (ls[c := tl (ls ! c)]) p c ord)))"

function a_free_loop :: "alists \<Rightarrow> u64 \<Rightarrow> nat \<Rightarrow> alists \<times> u64 \<times> nat" where
  "a_free_loop ls p c =
     (if c < 12 \<and> buddy_of c p \<in> set (ls ! c)
      then a_free_loop (ls[c := remove1 (buddy_of c p) (ls ! c)]) (min p (buddy_of c p)) (Suc c)
      else (ls, p, c))"
  by pat_completeness auto
termination
  by (relation "measure (\<lambda>(ls, p, c). 12 - c)") auto

definition a_free :: "alists \<Rightarrow> u64 \<Rightarrow> nat \<Rightarrow> alists" where
  "a_free ls p c = (case a_free_loop ls p c of (ls', p', c') \<Rightarrow> a_push ls' c' p')"

declare a_split.simps [simp del] a_free_loop.simps [simp del]

lemma blocks_update:
  "c < length ls \<Longrightarrow>
     blocks (ls[c := xs]) = {(c', a) \<in> blocks ls. c' \<noteq> c} \<union> Pair c ` set xs"
  by (auto simp: blocks_def nth_list_update split: if_splits)

lemma blocks_push: "c < length ls \<Longrightarrow> blocks (a_push ls c p) = insert (c, p) (blocks ls)"
  by (auto simp: a_push_def blocks_update) (auto simp: blocks_def)

lemma space_push: "c < length ls \<Longrightarrow> space (a_push ls c p) = space ls \<union> bspan (c, p)"
  by (auto simp: space_def blocks_push)

lemma finite_blocks [simp]: "finite (blocks ls)"
proof -
  have "blocks ls = (\<Union>c<length ls. Pair c ` set (ls ! c))" by (auto simp: blocks_def)
  then show ?thesis by simp
qed

lemma finite_space [simp]: "finite (space ls)"
  by (auto simp: space_def bspan_def)

lemma length_a_push [simp]: "length (a_push ls c p) = length ls"
  by (simp add: a_push_def)

lemma wf_blocks_subset: "wf_blocks hh B \<Longrightarrow> A \<subseteq> B \<Longrightarrow> wf_blocks hh A"
  unfolding wf_blocks_def by blast

lemma bspan_nonempty [simp]: "bspan b \<noteq> {}"
  by (simp add: bspan_def span_def)

lemma wf_blocks_insert_disjoint:
  "wf_blocks hh (insert b B) \<Longrightarrow> b' \<in> B \<Longrightarrow> b \<noteq> b' \<Longrightarrow> bspan b \<inter> bspan b' = {}"
  unfolding wf_blocks_def by blast

lemma held_disjoint: "held hh ls c p \<Longrightarrow> bspan (c, p) \<inter> space ls = {}"
  using wf_blocks_insert_disjoint unfolding held_def space_def by fastforce

lemma held_aligned: "held hh ls c p \<Longrightarrow> c \<le> 12 \<and> aligned (12 + c) p"
  by (auto simp: held_def wf_blocks_def)

lemma held_lists_ok: "held hh ls c p \<Longrightarrow> lists_ok ls"
  by (simp add: held_def)

lemma held_ok: "held hh ls c p \<Longrightarrow> ok hh ls"
  unfolding held_def ok_def using wf_blocks_subset by blast

text \<open>A block that is aligned and disjoint from the free space is held.\<close>

lemma heldI:
  assumes "ok hh ls" "c \<le> 12" "aligned (12 + c) p"
    and "bspan (c, p) \<inter> space ls = {}" "unat (- hh) \<notin> bspan (c, p)"
  shows "held hh ls c p"
proof -
  have "(c, p) \<notin> blocks ls"
    using assms(4) bspan_nonempty [of "(c, p)"] unfolding space_def by blast
  moreover have "wf_blocks hh (insert (c, p) (blocks ls))"
    using assms unfolding ok_def wf_blocks_def space_def by auto
  ultimately show ?thesis using assms(1) by (simp add: held_def ok_def)
qed

lemma push_ok:
  assumes "held hh ls c p"
  shows "ok hh (a_push ls c p)"
proof -
  have c: "c < 13" "c < length ls" "length ls = 13"
    using held_aligned [OF assms] assms by (auto simp: held_def lists_ok_def)
  have "lists_ok (a_push ls c p)"
    using assms c by (auto simp: held_def lists_ok_def a_push_def nth_list_update blocks_def)
  then show ?thesis using assms c by (simp add: ok_def held_def blocks_push)
qed

text \<open>The three steps of the loops: take the head of a list, split a block, merge two.\<close>

lemma pop_held:
  assumes "ok hh ls" "c < 13" "ls ! c = p # ps"
  shows "held hh (ls[c := ps]) c p" "space ls = space (ls[c := ps]) \<union> bspan (c, p)"
proof -
  have len: "length ls = 13" and dis: "distinct (p # ps)"
    using assms by (auto simp: ok_def lists_ok_def)
  have ins: "insert (c, p) (blocks (ls[c := ps])) = blocks ls"
    using assms(2,3) len by (auto simp: blocks_update) (auto simp: blocks_def)
  have nin: "(c, p) \<notin> blocks (ls[c := ps])"
    using assms(2) len dis by (auto simp: blocks_update)
  have "lists_ok (ls[c := ps])"
    using assms(1,2) dis len by (auto simp: ok_def lists_ok_def nth_list_update)
  then show "held hh (ls[c := ps]) c p"
    using assms(1) ins nin by (simp add: held_def ok_def)
  show "space ls = space (ls[c := ps]) \<union> bspan (c, p)"
    using ins by (auto simp: space_def simp flip: ins)
qed

lemma split_held:
  assumes "held hh ls (Suc c) p"
  shows "held hh (a_push ls c (p + block_size c)) c p"
    and "held hh ls c (p + block_size c)"
    and "space ls \<union> bspan (Suc c, p) = space (a_push ls c (p + block_size c)) \<union> bspan (c, p)"
proof -
  let ?q = "p + block_size c"
  have al: "aligned (13 + c) p" and c: "c < 12" and okl: "ok hh ls"
    using held_aligned [OF assms] held_ok [OF assms] by auto
  note sp = bspan_split [OF al c] and ha = aligned_half [OF al c]
  have null: "unat (- hh) \<notin> bspan (Suc c, p)"
    using assms by (simp add: held_def wf_blocks_def)
  have dis: "bspan (Suc c, p) \<inter> space ls = {}" using held_disjoint [OF assms] .
  show h: "held hh ls c ?q"
    using okl c ha(2) dis null sp(1) by (intro heldI) auto
  have len: "c < length ls" using okl c by (simp add: ok_def lists_ok_def)
  have "ok hh (a_push ls c ?q)" using h by (rule push_ok)
  then show "held hh (a_push ls c ?q) c p"
    using c ha(1) dis null sp len by (intro heldI) (auto simp: space_push)
  show "space ls \<union> bspan (Suc c, p) = space (a_push ls c ?q) \<union> bspan (c, p)"
    using sp(1) len by (auto simp: space_push)
qed

lemma remove1_space:
  assumes "ok hh ls" "c < 13" "q \<in> set (ls ! c)"
  shows "ok hh (ls[c := remove1 q (ls ! c)])"
    and "space ls = space (ls[c := remove1 q (ls ! c)]) \<union> bspan (c, q)"
    and "space (ls[c := remove1 q (ls ! c)]) \<inter> bspan (c, q) = {}"
proof -
  let ?ls = "ls[c := remove1 q (ls ! c)]"
  have len: "length ls = 13" and dis: "distinct (ls ! c)"
    using assms by (auto simp: ok_def lists_ok_def)
  have bl: "blocks ?ls = blocks ls - {(c, q)}" and mem: "(c, q) \<in> blocks ls"
    using assms(2,3) len dis by (auto simp: blocks_update) (auto simp: blocks_def)
  have "lists_ok ?ls"
    using assms(1,2) len by (auto simp: ok_def lists_ok_def nth_list_update)
  then show "ok hh ?ls"
    using assms(1) bl wf_blocks_subset [of hh "blocks ls"] by (auto simp: ok_def)
  show "space ls = space ?ls \<union> bspan (c, q)"
    using bl mem by (auto simp: space_def)
  have "\<forall>b \<in> blocks ?ls. bspan b \<inter> bspan (c, q) = {}"
    using assms(1) mem unfolding bl ok_def wf_blocks_def by blast
  then show "space ?ls \<inter> bspan (c, q) = {}" unfolding space_def by blast
qed

lemma merge_held:
  assumes "held hh ls c p" "c < 12" "buddy_of c p \<in> set (ls ! c)"
  shows "held hh (ls[c := remove1 (buddy_of c p) (ls ! c)]) (Suc c) (min p (buddy_of c p))"
    and "space ls \<union> bspan (c, p) =
         space (ls[c := remove1 (buddy_of c p) (ls ! c)]) \<union> bspan (Suc c, min p (buddy_of c p))"
proof -
  let ?q = "buddy_of c p" and ?ls = "ls[c := remove1 (buddy_of c p) (ls ! c)]"
  have al: "aligned (12 + c) p" and okl: "ok hh ls"
    using held_aligned [OF assms(1)] held_ok [OF assms(1)] by auto
  note mg = merge_block [OF al assms(2)]
  have "c < 13" using assms(2) by simp
  note rm = remove1_space [OF okl this assms(3)]
  have dis: "bspan (c, p) \<inter> space ls = {}" using held_disjoint [OF assms(1)] .
  have null: "unat (- hh) \<notin> bspan (c, p)" "unat (- hh) \<notin> space ls"
    using assms(1) unfolding held_def wf_blocks_def space_def by auto
  show "held hh ?ls (Suc c) (min p ?q)"
    using rm mg(1,2) assms(2) dis null by (intro heldI) auto
  show "space ls \<union> bspan (c, p) = space ?ls \<union> bspan (Suc c, min p ?q)"
    using rm(2) mg(2) by auto
qed

text \<open>The loops: induction on the distance between the orders.\<close>

lemma a_split_held:
  assumes "held hh ls cur p" "ord \<le> cur"
  shows "held hh (a_split ls p cur ord) ord p \<and>
         space ls \<union> bspan (cur, p) = space (a_split ls p cur ord) \<union> bspan (ord, p)"
  using assms
proof (induction ls p cur ord rule: a_split.induct)
  case (1 ls p cur ord)
  show ?case
  proof (cases "ord < cur")
    case True
    then obtain c where c: "cur = Suc c" by (cases cur) auto
    note st = split_held [OF "1.prems"(1) [unfolded c]]
    with "1.IH" True c show ?thesis by (simp add: a_split.simps [of ls p "Suc c" ord])
  next
    case False
    with "1.prems" show ?thesis by (simp add: a_split.simps)
  qed
qed

lemma a_free_loop_held:
  assumes "held hh ls c p" "a_free_loop ls p c = (ls', p', c')"
  shows "held hh ls' c' p' \<and> space ls \<union> bspan (c, p) = space ls' \<union> bspan (c', p') \<and>
         (c' < 12 \<longrightarrow> buddy_of c' p' \<notin> set (ls' ! c'))"
  using assms
proof (induction ls p c rule: a_free_loop.induct)
  case (1 ls p c)
  show ?case
  proof (cases "c < 12 \<and> buddy_of c p \<in> set (ls ! c)")
    case True
    with "1.prems" have "a_free_loop (ls[c := remove1 (buddy_of c p) (ls ! c)])
        (min p (buddy_of c p)) (Suc c) = (ls', p', c')"
      by (simp add: a_free_loop.simps [of ls p c])
    with "1.IH" [OF True] merge_held [OF "1.prems"(1)] True show ?thesis by simp
  next
    case False
    with "1.prems" show ?thesis by (auto simp: a_free_loop.simps [of ls p c])
  qed
qed

lemma find_upt_Some:
  "find P [i..<j] = Some k \<longleftrightarrow> i \<le> k \<and> k < j \<and> P k \<and> (\<forall>m. i \<le> m \<and> m < k \<longrightarrow> \<not> P m)"
    (is "?L \<longleftrightarrow> ?R")
proof
  assume ?L
  then obtain n where n: "n < j - i" "P (i + n)" "k = i + n" "\<forall>m<n. \<not> P (i + m)"
    by (auto simp: find_Some_iff)
  have "\<not> P m" if "i \<le> m" "m < k" for m
    using that n(3,4) by (metis le_add_diff_inverse nat_add_left_cancel_less)
  with n show ?R by simp
next
  assume r: ?R
  then have "k - i < length [i..<j] \<and> P ([i..<j] ! (k - i)) \<and> k = [i..<j] ! (k - i) \<and>
      (\<forall>m<k - i. \<not> P ([i..<j] ! m))"
    by auto
  then show ?L unfolding find_Some_iff by blast
qed

lemma find_upt_None: "find P [i..<j] = None \<longleftrightarrow> (\<forall>k. i \<le> k \<and> k < j \<longrightarrow> \<not> P k)"
  by (auto simp: find_None_iff)

lemma a_alloc_ok:
  assumes "ok hh ls" "a_alloc ls ord = Some (p, ls')"
  shows "held hh ls' ord p" "space ls = space ls' \<union> bspan (ord, p)"
proof -
  obtain c where c: "ord \<le> c" "c < 13" "ls ! c \<noteq> []" "p = hd (ls ! c)"
    "ls' = a_split (ls[c := tl (ls ! c)]) p c ord"
    using assms(2) by (auto simp: a_alloc_def find_upt_Some Let_def split: option.splits)
  then have "ls ! c = p # tl (ls ! c)" by simp
  note pop = pop_held [OF assms(1) c(2) this]
  show "held hh ls' ord p" "space ls = space ls' \<union> bspan (ord, p)"
    using a_split_held [OF pop(1) c(1)] pop(2) c(5) by auto
qed

lemma a_free_ok:
  assumes "held hh ls c p"
  shows "ok hh (a_free ls p c)" "space (a_free ls p c) = space ls \<union> bspan (c, p)"
proof -
  obtain ls' p' c' where e: "a_free_loop ls p c = (ls', p', c')" by (metis prod_cases3)
  note h = a_free_loop_held [OF assms e]
  then have "c' < length ls'" using held_aligned [of hh ls' c' p'] held_lists_ok [of hh ls' c' p']
    by (auto simp: lists_ok_def)
  then show "ok hh (a_free ls p c)" "space (a_free ls p c) = space ls \<union> bspan (c, p)"
    using h push_ok [of hh ls' c' p'] by (auto simp: a_free_def e space_push)
qed

subsection \<open>Coalescing\<close>

text \<open>No free block has a free buddy of its own order, except at the top order.\<close>

definition coalesced :: "alists \<Rightarrow> bool" where
  "coalesced ls \<longleftrightarrow> (\<forall>(c, a) \<in> blocks ls. c < 12 \<longrightarrow> (c, buddy_of c a) \<notin> blocks ls)"

lemma buddy_of_half:
  assumes "aligned (13 + c) p" "c < 12"
  shows "buddy_of c p = p + block_size c" "min p (buddy_of c p) = p"
proof -
  have "\<not> bit p (12 + c)" using assms by (simp add: aligned_bit)
  with aligned_half(1) [OF assms] show e: "buddy_of c p = p + block_size c"
    using assms(2) by (intro buddy_of_lower)
  show "min p (buddy_of c p) = p"
    unfolding e using unat_half [OF assms] by (simp add: min_def word_le_nat_alt)
qed

lemma blocks_a_split:
  assumes "cur \<le> 12" "length ls = 13"
  shows "blocks (a_split ls p cur ord) =
         blocks ls \<union> (\<lambda>k. (k, p + block_size k)) ` {ord..<cur}"
  using assms
proof (induction ls p cur ord rule: a_split.induct)
  case (1 ls p cur ord)
  show ?case
  proof (cases "ord < cur")
    case True
    then obtain c where c: "cur = Suc c" "ord \<le> c" by (cases cur) auto
    then have "{ord..<cur} = insert c {ord..<c}" by auto
    with "1.IH" True c "1.prems" show ?thesis
      by (simp add: a_split.simps [of ls p "Suc c" ord] blocks_push)
  next
    case False
    then show ?thesis by (simp add: a_split.simps)
  qed
qed

text \<open>No listed block of a larger order starts where a held block starts.\<close>

lemma held_not_listed:
  assumes "held hh ls c p"
  shows "(k, p) \<notin> blocks ls"
proof
  assume "(k, p) \<in> blocks ls"
  then have "bspan (k, p) \<subseteq> space ls" by (auto simp: space_def)
  moreover have "unat p \<in> bspan (k, p)" "unat p \<in> bspan (c, p)" by (simp_all add: bspan_def)
  ultimately show False using held_disjoint [OF assms] by blast
qed

lemma a_alloc_coalesced:
  assumes "ok hh ls" "coalesced ls" "a_alloc ls ord = Some (p, ls')"
  shows "coalesced ls'"
proof -
  obtain c where c: "ord \<le> c" "c < 13" "ls ! c \<noteq> []" "p = hd (ls ! c)"
    "ls' = a_split (ls[c := tl (ls ! c)]) p c ord"
    using assms(3) by (auto simp: a_alloc_def find_upt_Some Let_def split: option.splits)
  have len: "length ls = 13" using assms(1) by (simp add: ok_def lists_ok_def)
  have pop: "held hh (ls[c := tl (ls ! c)]) c p"
    using pop_held(1) [OF assms(1) c(2)] c(3,4) by simp
  have al: "aligned (12 + c) p" using held_aligned [OF pop] by simp
  let ?old = "blocks (ls[c := tl (ls ! c)])"
  have old: "?old \<subseteq> blocks ls"
    using c(2) len list.set_sel(2) [OF c(3)] by (auto simp: blocks_update) (auto simp: blocks_def)
  have new: "blocks ls' = ?old \<union> (\<lambda>k. (k, p + block_size k)) ` {ord..<c}"
    unfolding c(5) using c(2) len by (intro blocks_a_split) auto
  have bud: "buddy_of k (p + block_size k) = p" if "k < c" for k
  proof -
    have "aligned (13 + k) p" using al that by (elim aligned_mono) simp
    then have "buddy_of k p = p + block_size k" using that c(2) by (intro buddy_of_half(1)) auto
    then show ?thesis by (metis buddy_of_involutive)
  qed
  have np: "(k, p) \<notin> blocks ls'" for k
    using held_not_listed a_alloc_ok(1) [OF assms(1,3)] by blast
  show ?thesis
    unfolding coalesced_def
  proof clarify
    fix k a
    assume in1: "(k, a) \<in> blocks ls'" and k: "k < 12" and in2: "(k, buddy_of k a) \<in> blocks ls'"
    show False
    proof (cases "(k, a) \<in> ?old \<and> (k, buddy_of k a) \<in> ?old")
      case True
      then show ?thesis using old assms(2) k by (auto simp: coalesced_def)
    next
      case False
      then have "k < c \<and> (a = p + block_size k \<or> buddy_of k a = p + block_size k)"
        using in1 in2 unfolding new by auto
      then have "a = p \<or> buddy_of k a = p" using bud by (metis buddy_of_involutive)
      then show ?thesis using np in1 in2 by auto
    qed
  qed
qed

lemma a_free_loop_blocks:
  assumes "a_free_loop ls p c = (ls', p', c')" "length ls = 13" "\<forall>k<13. distinct (ls ! k)"
  shows "blocks ls' \<subseteq> blocks ls \<and> length ls' = 13"
  using assms
proof (induction ls p c rule: a_free_loop.induct)
  case (1 ls p c)
  show ?case
  proof (cases "c < 12 \<and> buddy_of c p \<in> set (ls ! c)")
    case True
    let ?ls = "ls[c := remove1 (buddy_of c p) (ls ! c)]"
    have "blocks ?ls \<subseteq> blocks ls"
      using True "1.prems"(2) set_remove1_subset [of _ "ls ! c"]
      by (auto simp: blocks_update) (auto simp: blocks_def)
    moreover have "\<forall>k<13. distinct (?ls ! k)"
      using "1.prems"(2,3) True by (auto simp: nth_list_update)
    moreover have "a_free_loop ?ls (min p (buddy_of c p)) (Suc c) = (ls', p', c')"
      using True "1.prems"(1) by (simp add: a_free_loop.simps [of ls p c])
    ultimately show ?thesis using "1.IH" [OF True] "1.prems"(2) by auto
  next
    case False
    with "1.prems" show ?thesis by (auto simp: a_free_loop.simps [of ls p c])
  qed
qed

lemma a_free_coalesced:
  assumes "held hh ls c p" "coalesced ls"
  shows "coalesced (a_free ls p c)"
proof -
  obtain ls' p' c' where e: "a_free_loop ls p c = (ls', p', c')" by (metis prod_cases3)
  note h = a_free_loop_held [OF assms(1) e]
  have sub: "blocks ls' \<subseteq> blocks ls" and len: "length ls' = 13"
    using a_free_loop_blocks [OF e] assms(1) by (auto simp: held_def lists_ok_def)
  have c': "c' < length ls'" "aligned (12 + c') p'"
    using h held_aligned [of hh ls' c' p'] len by auto
  have bud: "c' < 12 \<Longrightarrow> buddy_of c' p' \<noteq> p'" using c'(2) merge_block(4) by blast
  have nb: "c' < 12 \<Longrightarrow> (c', buddy_of c' p') \<notin> blocks ls'"
    using h by (auto simp: blocks_def)
  have old: "(k, buddy_of k a) \<notin> blocks ls'" if "(k, a) \<in> blocks ls'" "k < 12" for k a
    using that sub assms(2) by (auto simp: coalesced_def)
  show ?thesis
    unfolding coalesced_def a_free_def e prod.case blocks_push [OF c'(1)]
    using bud nb old by auto
qed

text \<open>Freeing what was just split off retraces the split, link by link.\<close>

lemma a_free_loop_a_split:
  assumes "held hh ls cur p" "ord \<le> cur"
  shows "a_free_loop (a_split ls p cur ord) p ord = a_free_loop ls p cur"
  using assms
proof (induction ls p cur ord rule: a_split.induct)
  case (1 ls p cur ord)
  show ?case
  proof (cases "ord < cur")
    case True
    then obtain c where c: "cur = Suc c" "ord \<le> c" by (cases cur) auto
    let ?q = "p + block_size c"
    have al: "aligned (13 + c) p" "c < 12"
      using held_aligned [OF "1.prems"(1)] c by auto
    note hf = buddy_of_half [OF al]
    have len: "c < length ls" using held_lists_ok [OF "1.prems"(1)] al by (simp add: lists_ok_def)
    have "a_free_loop (a_push ls c ?q) p c = a_free_loop ls p (Suc c)"
      using hf al len by (subst a_free_loop.simps) (simp add: a_push_def)
    then show ?thesis
      using "1.IH" True c split_held(1) [OF "1.prems"(1) [unfolded c(1)]]
      by (simp add: a_split.simps [of ls p "Suc c" ord])
  next
    case False
    with "1.prems" show ?thesis by (simp add: a_split.simps)
  qed
qed

lemma a_alloc_free_inverse:
  assumes "ok hh ls" "coalesced ls" "a_alloc ls ord = Some (p, ls')"
  shows "a_free ls' p ord = ls"
proof -
  obtain c where c: "ord \<le> c" "c < 13" "ls ! c \<noteq> []" "p = hd (ls ! c)"
    "ls' = a_split (ls[c := tl (ls ! c)]) p c ord"
    using assms(3) by (auto simp: a_alloc_def find_upt_Some Let_def split: option.splits)
  let ?ls = "ls[c := tl (ls ! c)]"
  have len: "c < length ls" using c(2) assms(1) by (simp add: ok_def lists_ok_def)
  have pop: "held hh ?ls c p" using pop_held(1) [OF assms(1) c(2)] c(3,4) by simp
  have "(c, p) \<in> blocks ls" using c len by (simp add: blocks_def)
  then have "c < 12 \<Longrightarrow> buddy_of c p \<notin> set (ls ! c)"
    using assms(2) len by (auto simp: coalesced_def blocks_def)
  then have "\<not> (c < 12 \<and> buddy_of c p \<in> set (?ls ! c))"
    using len list.set_sel(2) [OF c(3)] by auto
  then have "a_free_loop ?ls p c = (?ls, p, c)"
    by (simp only: a_free_loop.simps [of ?ls p c] if_False)
  then have "a_free_loop ls' p ord = (?ls, p, c)"
    using a_free_loop_a_split [OF pop c(1)] c(5) by simp
  then show ?thesis using len c(3,4) by (simp add: a_free_def a_push_def)
qed

section \<open>The links in physical memory\<close>

text \<open>\<open>chain hh m p as\<close>: from pointer \<open>p\<close>, the links visit the blocks at the addresses \<open>as\<close>.\<close>

fun chain :: "u64 \<Rightarrow> ram \<Rightarrow> u64 \<Rightarrow> u64 list \<Rightarrow> bool" where
  "chain hh m p [] \<longleftrightarrow> p = 0"
| "chain hh m p (a # as) \<longleftrightarrow> p = a + hh \<and> a + hh \<noteq> 0 \<and> chain hh m (load64 m a) as"

definition rep :: "kmem \<Rightarrow> alists \<Rightarrow> bool" where
  "rep s ls \<longleftrightarrow> length (lists (PMM s)) = 13 \<and> length ls = 13 \<and>
     (\<forall>c<13. chain (hhdm s) (ram s) (fl_head (lists (PMM s) ! c)) (ls ! c) \<and>
             fl_count (lists (PMM s) ! c) = of_nat (length (ls ! c)))"

definition pmm_inv :: "kmem \<Rightarrow> alists \<Rightarrow> bool" where
  "pmm_inv s ls \<longleftrightarrow> rep s ls \<and> ok (hhdm s) ls \<and>
     FREE_PAGES s = of_nat (card (space ls) div 4096)"

lemmas ptr_defs = get_next_def set_next_def phys_to_virt_def virt_to_phys_def phys_to_virt_rev_def

lemma chain_cong:
  assumes "chain hh m p as" "\<And>a. a \<in> set as \<Longrightarrow> load64 m' a = load64 m a"
  shows "chain hh m' p as"
  using assms by (induction as arbitrary: p) auto

lemma chain_head: "chain hh m p as \<Longrightarrow> p = 0 \<longleftrightarrow> as = []"
  by (cases as) auto

text \<open>Blocks of the allocator are at least a page, so their links never overlap.\<close>

lemma page_cell:
  assumes "aligned 12 a"
  shows "unat a + 8 \<le> 2 ^ 64"
  using aligned_bound [OF assms] by simp

lemma page_cells_disjoint:
  assumes "aligned 12 a" "aligned 12 b" "a \<noteq> b"
  shows "span a 8 \<inter> span b 8 = {}"
  using aligned_span_disjoint [OF assms] by (auto simp: span_def)

lemma load64_store64_page:
  assumes "aligned 12 a" "aligned 12 b"
  shows "load64 (store64 m a v) b = (if a = b then v else load64 m b)"
  using assms page_cells_disjoint [of a b] page_cell
  by (auto simp: load64_store64_same load64_store64_disjoint)

lemma store64_page_other:
  assumes "aligned 12 a" "unat x \<notin> span a 8"
  shows "store64 m a v x = m x"
  using assms page_cell by (simp add: store64_def store_bytes_other)

lemma cell_in_bspan: "span b 8 \<subseteq> bspan (c, b)"
proof -
  have "(8::nat) \<le> 2 ^ 12 * 2 ^ c" by simp
  then show ?thesis unfolding bspan_def snd_conv fst_conv power_add by (rule span_mono)
qed

lemma wf_aligned12: "wf_blocks hh B \<Longrightarrow> (c, a) \<in> B \<Longrightarrow> aligned 12 a"
  by (auto simp: wf_blocks_def elim!: aligned_mono)

lemma unat_minus_eq: "unat a = unat (- hh) \<longleftrightarrow> a + hh = (0::u64)"
  by (metis add_eq_0_iff2 word_unat_eq_iff)

lemma wf_not_null:
  assumes "wf_blocks hh B" "(c, a) \<in> B"
  shows "a + hh \<noteq> 0"
proof
  assume "a + hh = 0"
  then have "unat (- hh) \<in> bspan (c, a)" by (simp add: bspan_def span_def flip: unat_minus_eq)
  then show False using assms unfolding wf_blocks_def by blast
qed

lemma rep_push_at:
  assumes "rep s ls" "held (hhdm s) ls c p"
  shows "rep (push_at s c p) (a_push ls c p)"
proof -
  have wf: "wf_blocks (hhdm s) (insert (c, p) (blocks ls))" and nin: "(c, p) \<notin> blocks ls"
    using assms(2) by (auto simp: held_def)
  have c: "c < 13" using held_aligned [OF assms(2)] by simp
  have al: "aligned 12 p" and nn: "p + hhdm s \<noteq> 0"
    using wf_aligned12 [OF wf] wf_not_null [OF wf] by auto
  have same: "load64 (store64 (ram s) p v) a = load64 (ram s) a"
    if "k < 13" "a \<in> set (ls ! k)" for k a v
  proof -
    have mem: "(k, a) \<in> blocks ls" using that assms(1) by (auto simp: blocks_def rep_def)
    then have "aligned 12 a" using wf_aligned12 [OF wf] by auto
    moreover have "a \<noteq> p" using held_not_listed [OF assms(2)] mem by auto
    ultimately show ?thesis using al by (simp add: load64_store64_page)
  qed
  have "chain (hhdm s) (store64 (ram s) p v) q (ls ! k)"
    if "k < 13" "chain (hhdm s) (ram s) q (ls ! k)" for k q v
    using that same by (intro chain_cong [OF that(2)]) auto
  then show ?thesis
    using assms(1) c nn
    by (auto simp: rep_def push_at_def fl_push_def a_push_def ptr_defs Let_def nth_list_update
        load64_store64_same)
qed

lemma push_at_simps [simp]:
  "hhdm (push_at s c p) = hhdm s" "FREE_PAGES (push_at s c p) = FREE_PAGES s"
  "TOTAL_PAGES (push_at s c p) = TOTAL_PAGES s"
  by (simp_all add: push_at_def split: prod.splits)

lemma split_down_simps [simp]:
  "hhdm (split_down s p cur ord) = hhdm s"
  "FREE_PAGES (split_down s p cur ord) = FREE_PAGES s"
  "TOTAL_PAGES (split_down s p cur ord) = TOTAL_PAGES s"
  by (induction s p cur ord rule: split_down.induct; subst split_down.simps; simp)+

lemma rep_split_down:
  assumes "rep s ls" "held (hhdm s) ls cur p" "ord \<le> cur"
  shows "rep (split_down s p cur ord) (a_split ls p cur ord)"
  using assms
proof (induction s p cur ord arbitrary: ls rule: split_down.induct)
  case (1 s p cur ord)
  show ?case
  proof (cases "ord < cur")
    case True
    then obtain c where c: "cur = Suc c" "ord \<le> c" by (cases cur) auto
    note st = split_held [OF "1.prems"(2) [unfolded c(1)]]
    show ?thesis
      using "1.IH" True c st rep_push_at [OF "1.prems"(1) st(2)]
      by (simp add: split_down.simps [of s p "Suc c" ord] a_split.simps [of ls p "Suc c" ord])
  next
    case False
    with "1.prems" show ?thesis by (simp add: split_down.simps a_split.simps)
  qed
qed

text \<open>The walk of \<open>remove\<close>: it ends, and it unlinks the target when the chain holds it.\<close>

lemma fl_remove_from_step:
  "fl_remove_from hh m fl cur t =
     (let p = (case cur of None \<Rightarrow> fl_head fl | Some c \<Rightarrow> get_next hh m c)
      in if p = 0 then Some (m, fl, False)
         else if p = t then
           (let nxt = get_next hh m p; fl' = fl\<lparr>fl_count := fl_count fl - 1\<rparr>
            in case cur of None \<Rightarrow> Some (m, fl'\<lparr>fl_head := nxt\<rparr>, True)
               | Some c \<Rightarrow> Some (set_next hh m c nxt, fl', True))
         else fl_remove_from hh m fl (Some p) t)"
  by (rule fl_remove_from.simps)

lemma fl_remove_walk_absent:
  assumes "chain hh m (get_next hh m c) as" "a \<notin> set as"
  shows "fl_remove_from hh m fl (Some c) (a + hh) = Some (m, fl, False)"
  using assms
proof (induction as arbitrary: c)
  case Nil
  then show ?case by (subst fl_remove_from_step) simp
next
  case (Cons b bs)
  then have "get_next hh m c = b + hh" "b + hh \<noteq> 0" "b \<noteq> a"
    "chain hh m (get_next hh m (b + hh)) bs"
    by (auto simp: ptr_defs)
  with Cons show ?case by (subst fl_remove_from_step) simp
qed

lemma fl_remove_walk_present:
  assumes "chain hh m (get_next hh m (b + hh)) (xs @ a # ys)" "a \<notin> set xs" "b + hh \<noteq> 0"
  shows "\<exists>m'. fl_remove_from hh m fl (Some (b + hh)) (a + hh) =
           Some (m', fl\<lparr>fl_count := fl_count fl - 1\<rparr>, True) \<and>
         m' = store64 m (last (b # xs)) (load64 m a)"
  using assms
proof (induction xs arbitrary: b)
  case Nil
  then show ?case by (subst fl_remove_from_step) (auto simp: ptr_defs Let_def)
next
  case (Cons x xs)
  then have nx: "get_next hh m (b + hh) = x + hh" "x + hh \<noteq> 0" "x \<noteq> a"
    and rest: "chain hh m (get_next hh m (x + hh)) (xs @ a # ys)" "a \<notin> set xs"
    by (auto simp: ptr_defs)
  show ?case using Cons.IH [OF rest nx(2)] nx by (subst fl_remove_from_step) simp
qed

lemma chain_unlink:
  assumes "chain hh m h (xs @ a # ys)" "xs \<noteq> []" "distinct (xs @ a # ys)"
    and "\<forall>b \<in> set (xs @ a # ys). aligned 12 b"
  shows "chain hh (store64 m (last xs) (load64 m a)) h (xs @ ys)"
  using assms
proof (induction xs arbitrary: h)
  case Nil
  then show ?case by simp
next
  case (Cons x xs)
  let ?m = "store64 m (last (x # xs)) (load64 m a)"
  show ?case
  proof (cases "xs = []")
    case True
    have "chain hh m (load64 m a) ys" using Cons.prems(1) True by simp
    then have "chain hh ?m (load64 m a) ys"
      using Cons.prems(3,4) True by (elim chain_cong) (auto simp: load64_store64_page)
    with True Cons.prems(1) show ?thesis by (simp add: load64_store64_same)
  next
    case False
    have "chain hh m (load64 m x) (xs @ a # ys)" using Cons.prems(1) by simp
    then have "chain hh ?m (load64 m x) (xs @ ys)"
      using Cons.IH [of "load64 m x"] Cons.prems(3,4) False by simp
    moreover have "load64 ?m x = load64 m x"
      using Cons.prems(3,4) False last_in_set [OF False]
      by (subst load64_store64_page) auto
    ultimately show ?thesis using Cons.prems(1) by simp
  qed
qed

lemma ok_address_unique:
  assumes "ok hh ls" "(c, a) \<in> blocks ls" "(k, a) \<in> blocks ls"
  shows "k = c"
proof (rule ccontr)
  assume "k \<noteq> c"
  then have "bspan (c, a) \<inter> bspan (k, a) = {}"
    using assms by (simp add: ok_def wf_blocks_def)
  moreover have "unat a \<in> bspan (c, a)" "unat a \<in> bspan (k, a)" by (simp_all add: bspan_def)
  ultimately show False by blast
qed

lemma fl_remove_absent:
  assumes "chain hh m (fl_head fl) as" "a \<notin> set as"
  shows "fl_remove hh m fl a = Some (m, fl, False)"
proof (cases as)
  case Nil
  with assms show ?thesis
    by (simp add: fl_remove_def fl_remove_from_step [of hh m fl None] phys_to_virt_def)
next
  case (Cons b bs)
  then have "fl_head fl = b + hh" "b + hh \<noteq> 0" "b \<noteq> a" "a \<notin> set bs"
    "chain hh m (get_next hh m (b + hh)) bs"
    using assms by (auto simp: ptr_defs)
  then show ?thesis
    using fl_remove_walk_absent [of hh m "b + hh" bs a fl]
    by (simp add: fl_remove_def fl_remove_from_step [of hh m fl None] phys_to_virt_def)
qed

lemma fl_remove_present:
  assumes "chain hh m (fl_head fl) as" "a \<in> set as" "distinct as"
    and "\<forall>b \<in> set as. aligned 12 b"
  shows "\<exists>m' fl'. fl_remove hh m fl a = Some (m', fl', True) \<and>
           fl_count fl' = fl_count fl - 1 \<and> chain hh m' (fl_head fl') (remove1 a as) \<and>
           (m' = m \<or> (\<exists>x \<in> set as. \<exists>v. m' = store64 m x v))"
proof -
  obtain xs ys where as: "as = xs @ a # ys" "a \<notin> set xs"
    using assms(2) by (meson split_list_first)
  have rm: "remove1 a as = xs @ ys" using as by (simp add: remove1_append)
  show ?thesis
  proof (cases xs)
    case Nil
    then have "fl_head fl = a + hh" "a + hh \<noteq> 0" "chain hh m (load64 m a) ys"
      using assms(1) as by auto
    then show ?thesis
      using rm Nil
      by (simp add: fl_remove_def fl_remove_from_step [of hh m fl None] ptr_defs Let_def)
  next
    case (Cons b bs)
    then have hd: "fl_head fl = b + hh" "b + hh \<noteq> 0" "b \<noteq> a"
      and walk: "chain hh m (get_next hh m (b + hh)) (bs @ a # ys)" "a \<notin> set bs"
      using assms(1) as by (auto simp: ptr_defs)
    let ?m = "store64 m (last xs) (load64 m a)"
    have r: "fl_remove hh m fl a = Some (?m, fl\<lparr>fl_count := fl_count fl - 1\<rparr>, True)"
      using fl_remove_walk_present [OF walk hd(2), of fl] hd Cons
      by (simp add: fl_remove_def fl_remove_from_step [of hh m fl None] phys_to_virt_def)
    have "chain hh ?m (fl_head fl) (xs @ ys)"
      using assms(1,3,4) as Cons by (intro chain_unlink) auto
    moreover have "last xs \<in> set as" using as Cons by simp
    ultimately show ?thesis unfolding r rm by auto
  qed
qed

lemma rep_remove:
  assumes "rep s ls" "ok (hhdm s) ls" "c < 13" "a \<in> set (ls ! c)"
  shows "\<exists>m fl. fl_remove (hhdm s) (ram s) (lists (PMM s) ! c) a = Some (m, fl, True) \<and>
           rep (s\<lparr>ram := m, PMM := (PMM s)\<lparr>lists := (lists (PMM s))[c := fl]\<rparr>\<rparr>)
             (ls[c := remove1 a (ls ! c)]) \<and>
           (\<forall>x. unat x \<notin> space ls \<longrightarrow> m x = ram s x)"
proof -
  have len: "length ls = 13" "length (lists (PMM s)) = 13" using assms(1) by (auto simp: rep_def)
  have al: "aligned 12 b" if "k < 13" "b \<in> set (ls ! k)" for k b
    using assms(2) that len wf_aligned12 [of "hhdm s" "blocks ls" k b]
    by (auto simp: ok_def blocks_def)
  obtain m fl where r: "fl_remove (hhdm s) (ram s) (lists (PMM s) ! c) a = Some (m, fl, True)"
    and cnt: "fl_count fl = fl_count (lists (PMM s) ! c) - 1"
    and ch: "chain (hhdm s) m (fl_head fl) (remove1 a (ls ! c))"
    and m: "m = ram s \<or> (\<exists>x \<in> set (ls ! c). \<exists>v. m = store64 (ram s) x v)"
    using fl_remove_present [of "hhdm s" "ram s" "lists (PMM s) ! c" "ls ! c" a] assms al
    by (auto simp: rep_def ok_def lists_ok_def)
  have other: "load64 m b = load64 (ram s) b" if "k < 13" "k \<noteq> c" "b \<in> set (ls ! k)" for k b
  proof -
    have "b \<notin> set (ls ! c)"
      using ok_address_unique [OF assms(2), of c b k] that assms(3) len by (auto simp: blocks_def)
    then show ?thesis using m al that assms(3) by (auto simp: load64_store64_page)
  qed
  have "0 < length (ls ! c)" using assms(4) by (rule length_pos_if_in_set)
  then have minus: "of_nat (length (ls ! c) - 1) = of_nat (length (ls ! c)) - (1 :: usize)"
    by (cases "length (ls ! c)") simp_all
  have "fl_count (lists (PMM s) ! c) = of_nat (length (ls ! c))"
    using assms(1,3) by (auto simp: rep_def)
  then have "fl_count fl = of_nat (length (remove1 a (ls ! c)))"
    unfolding cnt length_remove1 using assms(4) minus by simp
  moreover have "chain (hhdm s) m (fl_head (lists (PMM s) ! k)) (ls ! k)" if "k < 13" "k \<noteq> c" for k
  proof (rule chain_cong)
    show "chain (hhdm s) (ram s) (fl_head (lists (PMM s) ! k)) (ls ! k)"
      using assms(1) that by (auto simp: rep_def)
  qed (use that other in auto)
  ultimately have "rep (s\<lparr>ram := m, PMM := (PMM s)\<lparr>lists := (lists (PMM s))[c := fl]\<rparr>\<rparr>)
      (ls[c := remove1 a (ls ! c)])"
    using ch assms(1,3) len by (auto simp: rep_def nth_list_update)
  moreover have "m x = ram s x" if "unat x \<notin> space ls" for x
  proof -
    have cell: "unat x \<notin> span b 8" if "b \<in> set (ls ! c)" for b
    proof -
      have "(c, b) \<in> blocks ls" using that assms(3) len by (simp add: blocks_def)
      then have "bspan (c, b) \<subseteq> space ls" by (auto simp: space_def)
      then show ?thesis using cell_in_bspan \<open>unat x \<notin> space ls\<close> by blast
    qed
    show ?thesis using m cell al [OF assms(3)] by (auto simp: store64_page_other)
  qed
  ultimately show ?thesis using r by blast
qed

lemma rep_free_loop:
  assumes "rep s ls" "held (hhdm s) ls c p" "a_free_loop ls p c = (ls', p', c')"
  shows "\<exists>s'. free_loop s p c = Some (s', p', c') \<and> rep s' ls' \<and> hhdm s' = hhdm s \<and>
           FREE_PAGES s' = FREE_PAGES s \<and> TOTAL_PAGES s' = TOTAL_PAGES s \<and>
           (\<forall>x. unat x \<notin> space ls \<longrightarrow> ram s' x = ram s x)"
  using assms
proof (induction s p c arbitrary: ls rule: free_loop.induct)
  case (1 s p c)
  have bud: "p XOR block_size c = buddy_of c p" by (simp add: buddy_of_def)
  consider (stop) "\<not> c < 12" | (absent) "c < 12" "buddy_of c p \<notin> set (ls ! c)"
    | (merge) "c < 12" "buddy_of c p \<in> set (ls ! c)" by blast
  then show ?case
  proof cases
    case stop
    then have "free_loop s p c = Some (s, p, c)" "a_free_loop ls p c = (ls, p, c)"
      by (simp_all add: free_loop.simps [of s p c] a_free_loop.simps [of ls p c] MAX_ORDER_def)
    with "1.prems" show ?thesis by auto
  next
    case absent
    have "fl_remove (hhdm s) (ram s) (lists (PMM s) ! c) (buddy_of c p) =
        Some (ram s, lists (PMM s) ! c, False)"
      using "1.prems"(1) absent by (intro fl_remove_absent) (auto simp: rep_def)
    then have "free_loop s p c = Some (s, p, c)" "a_free_loop ls p c = (ls, p, c)"
      using absent bud
      by (simp_all add: free_loop.simps [of s p c] a_free_loop.simps [of ls p c] MAX_ORDER_def)
    with "1.prems" show ?thesis by auto
  next
    case merge
    obtain m fl where
      r: "fl_remove (hhdm s) (ram s) (lists (PMM s) ! c) (buddy_of c p) = Some (m, fl, True)"
      and rep': "rep (s\<lparr>ram := m, PMM := (PMM s)\<lparr>lists := (lists (PMM s))[c := fl]\<rparr>\<rparr>)
         (ls[c := remove1 (buddy_of c p) (ls ! c)])" (is "rep ?s ?ls")
      and out: "\<forall>x. unat x \<notin> space ls \<longrightarrow> m x = ram s x"
      using rep_remove [OF "1.prems"(1) held_ok [OF "1.prems"(2)] _ merge(2)] merge(1) by auto
    have a: "a_free_loop ?ls (min p (buddy_of c p)) (Suc c) = (ls', p', c')"
      using "1.prems"(3) merge by (simp add: a_free_loop.simps [of ls p c])
    have f: "free_loop s p c = free_loop ?s (min p (buddy_of c p)) (c + 1)"
      using merge(1) bud r by (simp add: free_loop.simps [of s p c] MAX_ORDER_def)
    have h: "held (hhdm ?s) ?ls (c + 1) (min p (buddy_of c p))"
      using merge_held(1) [OF "1.prems"(2) merge] by simp
    have ih: "\<exists>s'. free_loop ?s (min p (buddy_of c p)) (c + 1) = Some (s', p', c') \<and> rep s' ls' \<and>
        hhdm s' = hhdm ?s \<and> FREE_PAGES s' = FREE_PAGES ?s \<and> TOTAL_PAGES s' = TOTAL_PAGES ?s \<and>
        (\<forall>x. unat x \<notin> space ?ls \<longrightarrow> ram s' x = ram ?s x)"
    proof (rule "1.IH")
      show "\<not> MAX_ORDER \<le> c" using merge(1) by (simp add: MAX_ORDER_def)
      show "buddy_of c p = p XOR block_size c" by (simp add: bud)
      show "fl_remove (hhdm s) (ram s) (lists (PMM s) ! c) (buddy_of c p) = Some (m, fl, True)"
        by (rule r)
    qed (use rep' h a in simp_all)
    have "unat x \<notin> space ?ls" if "unat x \<notin> space ls" for x :: u64
      using remove1_space(2) [OF held_ok [OF "1.prems"(2)] _ merge(2)] merge(1) that by auto
    with ih out show ?thesis unfolding f by auto
  qed
qed

section \<open>What the allocator writes\<close>

lemma ram_push_at:
  assumes "held hh ls c p" "unat x \<notin> bspan (c, p)"
  shows "ram (push_at s c p) x = ram s x"
proof -
  have al: "aligned 12 p" using held_aligned [OF assms(1)] by (auto elim: aligned_mono)
  have "unat x \<notin> span p 8" using assms(2) cell_in_bspan by blast
  then have "store64 (ram s) p v x = ram s x" for v using al by (simp add: store64_page_other)
  then show ?thesis by (simp add: push_at_def fl_push_def ptr_defs Let_def)
qed

lemma ram_split_down:
  assumes "held hh ls cur p" "ord \<le> cur" "unat x \<notin> bspan (cur, p)"
  shows "ram (split_down s p cur ord) x = ram s x"
  using assms
proof (induction s p cur ord arbitrary: ls rule: split_down.induct)
  case (1 s p cur ord)
  show ?case
  proof (cases "ord < cur")
    case True
    then obtain c where c: "cur = Suc c" "ord \<le> c" by (cases cur) auto
    note st = split_held [OF "1.prems"(1) [unfolded c(1)]]
    have "aligned (13 + c) p" "c < 12" using held_aligned [OF "1.prems"(1)] c by auto
    note sp = bspan_split(1) [OF this]
    have "unat x \<notin> bspan (c, p)" "unat x \<notin> bspan (c, p + block_size c)"
      using "1.prems"(3) sp c(1) by auto
    then show ?thesis
      using "1.IH" True c st ram_push_at [OF st(2)]
      by (simp add: split_down.simps [of s p "Suc c" ord])
  next
    case False
    then show ?thesis by (simp add: split_down.simps)
  qed
qed

section \<open>Correctness of the code\<close>

lemma rep_heads:
  assumes "rep s ls" "c < 13"
  shows "fl_head (lists (PMM s) ! c) \<noteq> 0 \<longleftrightarrow> ls ! c \<noteq> []"
proof -
  have "chain (hhdm s) (ram s) (fl_head (lists (PMM s) ! c)) (ls ! c)"
    using assms by (auto simp: rep_def)
  then show ?thesis by (simp add: chain_head)
qed

text \<open>The free lists are determined by the addresses they hold.\<close>

lemma rep_lists_unique:
  assumes "rep s ls" "rep s' ls" "hhdm s = hhdm s'"
  shows "lists (PMM s) = lists (PMM s')"
proof (rule nth_equalityI)
  show "length (lists (PMM s)) = length (lists (PMM s'))" using assms by (simp add: rep_def)
  fix c
  assume "c < length (lists (PMM s))"
  then have c: "c < 13" using assms by (simp add: rep_def)
  have "chain (hhdm s) (ram s) (fl_head (lists (PMM s) ! c)) (ls ! c)"
    and "chain (hhdm s) (ram s') (fl_head (lists (PMM s') ! c)) (ls ! c)"
    and cnt: "fl_count (lists (PMM s) ! c) = fl_count (lists (PMM s') ! c)"
    using assms c by (auto simp: rep_def)
  then have "fl_head (lists (PMM s) ! c) = fl_head (lists (PMM s') ! c)"
    by (cases "ls ! c") auto
  with cnt show "lists (PMM s) ! c = lists (PMM s') ! c" by simp
qed

lemma card_div_page:
  assumes "A \<inter> bspan (c, p) = {}" "finite A"
  shows "card (A \<union> bspan (c, p)) div 4096 = card A div 4096 + 2 ^ c"
proof -
  have "card (bspan (c, p)) = 4096 * 2 ^ c" by (simp add: bspan_def power_add)
  moreover have "finite (bspan (c, p))" by (simp add: bspan_def)
  ultimately have "card (A \<union> bspan (c, p)) = card A + 4096 * 2 ^ c"
    using assms by (simp add: card_Un_disjoint)
  then show ?thesis by simp
qed

lemma push_bit_one: "push_bit c (1 :: u64) = of_nat (2 ^ c)"
  by (simp add: push_bit_eq_mult)

lemma buddy_alloc_None:
  assumes "rep s ls" "a_alloc ls ord = None"
  shows "buddy_alloc s ord = None"
proof -
  have "\<forall>k. ord \<le> k \<and> k < 13 \<longrightarrow> ls ! k = []"
    using assms(2) by (simp add: a_alloc_def find_upt_None Let_def split: option.splits)
  then have "find (\<lambda>k. fl_head (lists (PMM s) ! k) \<noteq> 0) [ord..<13] = None"
    unfolding find_upt_None using rep_heads [OF assms(1)] by blast
  then show ?thesis by (simp add: buddy_alloc_def MAX_ORDER_def)
qed

lemma buddy_alloc_Some:
  assumes "rep s ls" "ok (hhdm s) ls" "a_alloc ls ord = Some (p, ls')"
  shows "\<exists>s'. buddy_alloc s ord = Some (p, s') \<and> rep s' ls' \<and> hhdm s' = hhdm s \<and>
           FREE_PAGES s' = FREE_PAGES s - push_bit ord 1 \<and> TOTAL_PAGES s' = TOTAL_PAGES s \<and>
           (\<forall>x. unat x \<notin> space ls \<longrightarrow> ram s' x = ram s x)"
proof -
  obtain c where c: "ord \<le> c" "c < 13" "ls ! c \<noteq> []" "p = hd (ls ! c)"
    "ls' = a_split (ls[c := tl (ls ! c)]) p c ord"
    "\<forall>k. ord \<le> k \<and> k < c \<longrightarrow> ls ! k = []"
    using assms(3) by (auto simp: a_alloc_def find_upt_Some Let_def split: option.splits)
  have "find (\<lambda>k. fl_head (lists (PMM s) ! k) \<noteq> 0) [ord..<13] = Some c"
    unfolding find_upt_Some using c rep_heads [OF assms(1)] by auto
  moreover have lc: "ls ! c = p # tl (ls ! c)" using c by simp
  have ch: "chain (hhdm s) (ram s) (fl_head (lists (PMM s) ! c)) (p # tl (ls ! c))"
    and "fl_count (lists (PMM s) ! c) = of_nat (length (p # tl (ls ! c)))"
    using assms(1) c(2) lc unfolding rep_def by metis+
  then have cnt: "fl_count (lists (PMM s) ! c) = of_nat (Suc (length (tl (ls ! c))))" by simp
  let ?fl = "(lists (PMM s) ! c)\<lparr>fl_head := load64 (ram s) p, fl_count := fl_count (lists (PMM s) ! c) - 1\<rparr>"
  let ?s = "s\<lparr>PMM := (PMM s)\<lparr>lists := (lists (PMM s))[c := ?fl]\<rparr>\<rparr>" and ?ls = "ls[c := tl (ls ! c)]"
  have "fl_pop (hhdm s) (ram s) (lists (PMM s) ! c) = Some (p, ?fl)"
    using ch by (auto simp: fl_pop_def ptr_defs Let_def)
  ultimately have r: "buddy_alloc s ord = Some (p, (split_down ?s p c ord)
      \<lparr>FREE_PAGES := FREE_PAGES (split_down ?s p c ord) - push_bit ord 1\<rparr>)"
    by (simp add: buddy_alloc_def MAX_ORDER_def Let_def)
  note pop = pop_held [OF assms(2) c(2) lc]
  have "rep ?s ?ls"
    using assms(1) c(2) ch cnt by (auto simp: rep_def nth_list_update)
  then have "rep (split_down ?s p c ord) ls'"
    unfolding c(5) using pop(1) c(1) by (intro rep_split_down) auto
  then have "rep (snd (the (buddy_alloc s ord))) ls'" unfolding r by (simp add: rep_def)
  moreover have "ram (split_down ?s p c ord) x = ram s x" if "unat x \<notin> space ls" for x
    using ram_split_down [OF pop(1) c(1), of x ?s] that pop(2) by auto
  ultimately show ?thesis unfolding r by auto
qed

text \<open>The code refines the allocator on lists: same address, same failure, related states.\<close>

lemma buddy_alloc_refines:
  assumes "pmm_inv s ls"
  shows "rel_option (\<lambda>(p, s') (q, ls'). p = q \<and> pmm_inv s' ls') (buddy_alloc s ord) (a_alloc ls ord)"
proof (cases "a_alloc ls ord")
  case None
  then have "buddy_alloc s ord = None"
    using assms buddy_alloc_None unfolding pmm_inv_def by blast
  with None show ?thesis by simp
next
  case (Some pr)
  obtain p ls' where pr: "pr = (p, ls')" by (cases pr)
  have ok: "ok (hhdm s) ls" and rep: "rep s ls" using assms by (auto simp: pmm_inv_def)
  note al = a_alloc_ok [OF ok Some [unfolded pr]]
  obtain s' where s': "buddy_alloc s ord = Some (p, s')" "rep s' ls'" "hhdm s' = hhdm s"
    "FREE_PAGES s' = FREE_PAGES s - push_bit ord 1"
    using buddy_alloc_Some [OF rep ok Some [unfolded pr]] by auto
  have "card (space ls) div 4096 = card (space ls') div 4096 + 2 ^ ord"
    unfolding al(2) using held_disjoint [OF al(1)] by (intro card_div_page) auto
  then have "FREE_PAGES s' = of_nat (card (space ls') div 4096)"
    using assms s'(4) by (simp add: pmm_inv_def push_bit_one)
  then show ?thesis using s' held_ok [OF al(1)] by (simp add: Some pr pmm_inv_def)
qed

lemma buddy_free_refines:
  assumes "pmm_inv s ls" "held (hhdm s) ls c p"
  shows "\<exists>s'. buddy_free s p c = Some s' \<and> pmm_inv s' (a_free ls p c) \<and> hhdm s' = hhdm s \<and>
           FREE_PAGES s' = FREE_PAGES s + push_bit c 1 \<and> TOTAL_PAGES s' = TOTAL_PAGES s \<and>
           (\<forall>x. unat x \<notin> space ls \<union> bspan (c, p) \<longrightarrow> ram s' x = ram s x)"
proof -
  obtain ls' p' c' where e: "a_free_loop ls p c = (ls', p', c')" by (metis prod_cases3)
  note h = a_free_loop_held [OF assms(2) e]
  have rep: "rep s ls" using assms(1) by (simp add: pmm_inv_def)
  obtain s1 where s1: "free_loop s p c = Some (s1, p', c')" "rep s1 ls'" "hhdm s1 = hhdm s"
    "FREE_PAGES s1 = FREE_PAGES s" "TOTAL_PAGES s1 = TOTAL_PAGES s"
    "\<forall>x. unat x \<notin> space ls \<longrightarrow> ram s1 x = ram s x"
    using rep_free_loop [OF rep assms(2) e] by auto
  have h1: "held (hhdm s1) ls' c' p'" using h s1(3) by simp
  have c': "c' < length (lists (PMM s1))" using held_aligned [OF h1] s1(2) by (simp add: rep_def)
  let ?s2 = "push_at s1 c' p'"
  let ?s' = "?s2\<lparr>FREE_PAGES := FREE_PAGES ?s2 + push_bit c 1\<rparr>"
  have r: "buddy_free s p c = Some ?s'" using s1(1) c' by (simp add: buddy_free_def Let_def)
  have "rep ?s2 (a_free ls p c)"
    using rep_push_at [OF s1(2) h1] by (simp add: a_free_def e)
  then have "rep ?s' (a_free ls p c)" by (simp add: rep_def)
  moreover have "FREE_PAGES ?s' = of_nat (card (space (a_free ls p c)) div 4096)"
    unfolding a_free_ok(2) [OF assms(2)]
    using card_div_page [of "space ls" c p] held_disjoint [OF assms(2)] assms(1) s1(4)
    by (simp add: pmm_inv_def push_bit_one Int_commute)
  ultimately have inv: "pmm_inv ?s' (a_free ls p c)"
    using a_free_ok(1) [OF assms(2)] s1(3) by (simp add: pmm_inv_def)
  have "ram ?s' x = ram s x" if "unat x \<notin> space ls \<union> bspan (c, p)" for x
  proof -
    have "unat x \<notin> bspan (c', p')" using that h by blast
    then show ?thesis using ram_push_at [OF h1] s1(6) that by simp
  qed
  then show ?thesis using r inv s1 by auto
qed

subsection \<open>Handing regions to the allocator\<close>

lemma mod_block_size:
  assumes "c \<le> 12"
  shows "addr mod block_size c = 0 \<longleftrightarrow> aligned (12 + c) addr"
proof -
  have "addr mod block_size c = 0 \<longleftrightarrow> unat (addr mod block_size c) = 0" by (simp add: unat_eq_0)
  also have "\<dots> \<longleftrightarrow> unat addr mod 2 ^ (12 + c) = 0"
    using unat_block_size [OF assms] by (simp add: unat_mod)
  finally show ?thesis by (simp add: aligned_def mod_eq_0_iff_dvd)
qed

lemma region_order_fits:
  assumes "aligned 12 addr" "aligned 12 limit" "addr < limit" "unat limit + 2 ^ 24 \<le> 2 ^ 64" "c \<le> 12"
  shows "region_order addr limit c \<le> c \<and> aligned (12 + region_order addr limit c) addr \<and>
         unat addr + 2 ^ (12 + region_order addr limit c) \<le> unat limit"
  using assms(5)
proof (induction c)
  case 0
  have "unat addr < unat limit" using assms(3) by (simp add: word_less_nat_alt)
  moreover obtain i j where "unat addr = 2 ^ 12 * i" "unat limit = 2 ^ 12 * j"
    using assms(1,2) unfolding aligned_def by (meson dvdE)
  ultimately have "unat addr + 2 ^ 12 \<le> unat limit" by simp
  then show ?case using assms(1) by (simp add: region_order.simps)
next
  case (Suc c)
  show ?case
  proof (cases "addr mod block_size (Suc c) \<noteq> 0 \<or> addr + block_size (Suc c) > limit")
    case True
    then have "region_order addr limit (Suc c) = region_order addr limit c"
      by (subst region_order.simps) simp
    with Suc show ?thesis by simp
  next
    case False
    then have e: "region_order addr limit (Suc c) = Suc c" by (subst region_order.simps) simp
    have al: "aligned (12 + Suc c) addr" using False unfolding de_Morgan_disj not_not mod_block_size [OF Suc.prems] by (rule conjunct1)
    have "(2::nat) ^ (12 + Suc c) \<le> 2 ^ 24" using Suc.prems by (intro power_increasing) auto
    moreover have "unat addr < unat limit" using assms(3) by (simp add: word_less_nat_alt)
    ultimately have "unat addr + 2 ^ (12 + Suc c) < 2 ^ 64" using assms(4) by linarith
    then have "unat (addr + block_size (Suc c)) = unat addr + 2 ^ (12 + Suc c)"
      using unat_block_size [OF Suc.prems] by (simp add: unat_word_ariths)
    then show ?thesis using e al False Suc.prems by (simp add: word_le_nat_alt not_less)
  qed
qed

definition interval :: "u64 \<Rightarrow> u64 \<Rightarrow> nat set" where
  "interval a b = {unat a..<unat b}"

lemma add_region_from_correct:
  assumes "pmm_inv s ls" "aligned 12 addr" "aligned 12 limit" "addr \<le> limit"
    and "unat limit + 2 ^ 24 \<le> 2 ^ 64"
    and "interval addr limit \<inter> space ls = {}" "unat (- hhdm s) \<notin> interval addr limit"
  shows "\<exists>s' ls'. add_region_from s addr limit = Some s' \<and> pmm_inv s' ls' \<and> hhdm s' = hhdm s \<and>
           space ls' = space ls \<union> interval addr limit \<and>
           TOTAL_PAGES s' = TOTAL_PAGES s + (limit - addr) div 4096"
  using assms
proof (induction "unat limit - unat addr" arbitrary: s ls addr rule: less_induct)
  case less
  show ?case
  proof (cases "addr < limit")
    case False
    then have "addr = limit" using less.prems(4) by simp
    then have "add_region_from s addr limit = Some s" "interval addr limit = {}" "limit - addr = 0"
      by (simp_all add: add_region_from.simps interval_def)
    with less.prems(1) show ?thesis by auto
  next
    case True
    define c where "c = region_order addr limit MAX_ORDER"
    have c: "c \<le> 12" "aligned (12 + c) addr" "unat addr + 2 ^ (12 + c) \<le> unat limit"
      using region_order_fits [OF less.prems(2,3) True less.prems(5), of 12]
      by (auto simp: c_def MAX_ORDER_def)
    let ?addr = "addr + block_size c"
    have un: "unat ?addr = unat addr + 2 ^ (12 + c)"
    proof -
      have "unat addr + 2 ^ (12 + c) < 18446744073709551616"
        using c(3) unat_less_2p64 [of limit] by (rule le_less_trans)
      then show ?thesis using unat_block_size [OF c(1)] by (simp add: unat_word_ariths)
    qed
    have sp: "interval addr limit = bspan (c, addr) \<union> interval ?addr limit"
      "bspan (c, addr) \<inter> interval ?addr limit = {}"
      using un c(3) by (auto simp: interval_def bspan_def span_def)
    have h: "held (hhdm s) ls c addr"
      using less.prems(1,6,7) c sp(1) by (intro heldI) (auto simp: pmm_inv_def)
    let ?s = "count_pages (push_at s c addr) c" and ?ls = "a_push ls c addr"
    have len: "c < length ls" using held_lists_ok [OF h] c(1) by (simp add: lists_ok_def)
    have sls: "space ?ls = space ls \<union> bspan (c, addr)" using len by (rule space_push)
    have rep: "rep ?s ?ls"
      using rep_push_at [of s ls c addr] less.prems(1) h
      by (simp add: pmm_inv_def count_pages_def rep_def)
    have "FREE_PAGES ?s = of_nat (card (space ?ls) div 4096)"
      unfolding sls using card_div_page [of "space ls" c addr] held_disjoint [OF h] less.prems(1)
      by (simp add: pmm_inv_def count_pages_def push_bit_one Int_commute)
    then have inv: "pmm_inv ?s ?ls"
      using rep push_ok [OF h] by (simp add: pmm_inv_def count_pages_def)
    have "\<exists>s' ls'. add_region_from ?s ?addr limit = Some s' \<and> pmm_inv s' ls' \<and> hhdm s' = hhdm ?s \<and>
           space ls' = space ?ls \<union> interval ?addr limit \<and>
           TOTAL_PAGES s' = TOTAL_PAGES ?s + (limit - ?addr) div 4096"
    proof (rule less.hyps)
      show "unat limit - unat ?addr < unat limit - unat addr"
        using un c(3) True by (simp add: word_less_nat_alt diff_less_mono2)
      have "aligned 12 addr" by (rule less.prems(2))
      then show "aligned 12 ?addr" using un by (simp add: aligned_def power_add)
      show "?addr \<le> limit" using un c(3) by (simp add: word_le_nat_alt)
      show "interval ?addr limit \<inter> space ?ls = {}" using sls sp less.prems(6) by auto
      show "unat (- hhdm ?s) \<notin> interval ?addr limit"
        using sp less.prems(7) by (auto simp: count_pages_def)
    qed (use inv less.prems in auto)
    moreover have "add_region_from s addr limit = add_region_from ?s ?addr limit"
      using True by (simp add: add_region_from.simps [of s addr limit] c_def Let_def)
    moreover have "TOTAL_PAGES ?s + (limit - ?addr) div 4096 = TOTAL_PAGES s + (limit - addr) div 4096"
    proof -
      have "unat ((limit - addr) div 4096) = (unat limit - unat addr) div 4096"
        using less.prems(4) by (simp add: unat_div unat_sub)
      moreover have "unat ((limit - ?addr) div 4096) = (unat limit - unat ?addr) div 4096"
        using un c(3) by (simp add: unat_div unat_sub word_le_nat_alt)
      moreover have "(unat limit - unat addr) div 4096 = 2 ^ c + (unat limit - unat ?addr) div 4096"
      proof -
        have "unat limit - unat addr = 4096 * 2 ^ c + (unat limit - unat ?addr)"
          using un c(3) by (simp add: power_add)
        then show ?thesis by simp
      qed
      ultimately have "unat ((limit - addr) div 4096) = 2 ^ c + unat ((limit - ?addr) div 4096)" by simp
      then have "(limit - addr) div 4096 = of_nat (2 ^ c + unat ((limit - ?addr) div 4096))"
        by (metis of_nat_unat ucast_id)
      then show ?thesis by (simp add: count_pages_def push_bit_one)
    qed
    ultimately show ?thesis using sls sp by (auto simp: count_pages_def Un_assoc)
  qed
qed

end
