(* ===== verification/Frames.thy ===== *)
theory Frames
  imports Buddy
begin

text \<open>
  The contract of the frame allocator of \<open>mm/pmm.rs\<close>: what \<open>alloc\<close>, \<open>free\<close>, \<open>add_region\<close> and
  \<open>init\<close> promise their callers, stated over the set of free bytes.  The locale
  \<open>frame_allocator\<close> is the part of the contract the page tables and the heap rely on; it is
  interpreted on \<open>alloc_frame\<close> and \<open>free_frame\<close> themselves.
\<close>

unbundle bit_operations_syntax

section \<open>Regions\<close>

lemma align_down_eq: "align_down v 4096 = push_bit 12 (drop_bit 12 v)" for v :: u64
proof (rule bit_word_eqI)
  fix n assume "n < LENGTH(64)"
  moreover have "(0xFFF :: u64) = mask 12" by (simp add: mask_eq_exp_minus_1)
  then have "bit (0xFFF :: u64) n \<longleftrightarrow> n < 12 \<and> n < 64" by (simp only: bit_mask_iff) (auto simp: possible_bit_def)
  ultimately show "bit (align_down v 4096) n = bit (push_bit 12 (drop_bit 12 v)) n"
    by (auto simp: bit_simps align_down_def)
qed

lemma unat_align_down: "unat (align_down v 4096) = unat v - unat v mod 4096"
proof -
  have "unat v div 4096 * 4096 \<le> unat v" by simp
  then have "unat v div 4096 * 4096 < 18446744073709551616"
    using unat_less_2p64 [of v] by (rule le_less_trans)
  then have "unat (push_bit 12 (drop_bit 12 v)) = 4096 * (unat v div 4096)"
    by (simp add: push_bit_eq_mult drop_bit_eq_div unat_word_ariths unat_div mult.commute)
  then show ?thesis by (simp add: align_down_eq minus_mod_eq_mult_div)
qed

lemma align_up_eq: "align_up v 4096 = align_down (v + 4095) 4096"
  by (simp add: align_up_def align_down_def add.commute)

lemma aligned_align_down: "aligned 12 (align_down v 4096)"
  by (simp add: aligned_def unat_align_down)

lemma aligned_align_up: "aligned 12 (align_up v 4096)"
  by (simp add: align_up_eq aligned_align_down)

lemma unat_align_up:
  assumes "unat v + 4096 \<le> 2 ^ 64"
  shows "unat (align_up v 4096) = (unat v + 4095) div 4096 * 4096"
proof -
  have "unat (v + 4095) = unat v + 4095" using assms by (simp add: unat_word_ariths)
  then show ?thesis by (simp add: align_up_eq unat_align_down minus_mod_eq_div_mult)
qed

text \<open>The bytes of the whole pages that lie inside \<open>[base, base + len)\<close>.\<close>

definition page_interior :: "nat \<Rightarrow> nat \<Rightarrow> nat set" where
  "page_interior base len = {(base + 4095) div 4096 * 4096..<(base + len) div 4096 * 4096}"

lemma page_interior_subset: "page_interior base len \<subseteq> {base..<base + len}"
proof
  fix x assume "x \<in> page_interior base len"
  then have "(base + 4095) div 4096 * 4096 \<le> x" "x < (base + len) div 4096 * 4096"
    by (auto simp: page_interior_def)
  moreover have "(base + len) div 4096 * 4096 \<le> base + len" by simp
  moreover have "base \<le> (base + 4095) div 4096 * 4096" by linarith
  ultimately show "x \<in> {base..<base + len}" by simp
qed

text \<open>A region contains a page boundary range that is not inverted: nothing to add when it is too short.\<close>

lemma add_region_correct:
  assumes "pmm_inv s ls" "unat base + unat len + 2 ^ 24 \<le> 2 ^ 64"
    and "page_interior (unat base) (unat len) \<inter> space ls = {}"
    and "unat (- hhdm s) \<notin> page_interior (unat base) (unat len)"
  shows "\<exists>s' ls'. add_region s base len = Some s' \<and> pmm_inv s' ls' \<and> hhdm s' = hhdm s \<and>
           space ls' = space ls \<union> page_interior (unat base) (unat len) \<and>
           unat (TOTAL_PAGES s' - TOTAL_PAGES s) = card (page_interior (unat base) (unat len)) div 4096"
proof -
  let ?a = "align_up base 4096" and ?b = "align_down (base + len) 4096"
  let ?I = "page_interior (unat base) (unat len)"
  have un: "unat ?a = (unat base + 4095) div 4096 * 4096"
    "unat ?b = (unat base + unat len) div 4096 * 4096"
    using assms(2) unat_align_up [of base]
    by (simp_all add: unat_align_down unat_word_ariths minus_mod_eq_div_mult)
  then have I: "interval ?a ?b = ?I" by (simp add: interval_def page_interior_def)
  have bound: "unat ?b + 2 ^ 24 \<le> 2 ^ 64" using assms(2) unfolding un by simp
  show ?thesis
  proof (cases "?a \<le> ?b")
    case True
    obtain s' ls' where s': "add_region_from s ?a ?b = Some s'" "pmm_inv s' ls'" "hhdm s' = hhdm s"
      "space ls' = space ls \<union> ?I" "TOTAL_PAGES s' = TOTAL_PAGES s + (?b - ?a) div 4096"
      using add_region_from_correct [OF assms(1) aligned_align_up aligned_align_down True bound]
        assms(3,4) unfolding I by blast
    have "unat ((?b - ?a) div 4096) = (unat ?b - unat ?a) div 4096"
      using True by (simp add: unat_div unat_sub)
    also have "\<dots> = card ?I div 4096" unfolding un page_interior_def by simp
    finally show ?thesis using s' by (auto simp: add_region_def PAGE_SIZE_def)
  next
    case False
    then have "unat ?b \<le> unat ?a" by (simp add: word_le_nat_alt)
    then have "?I = {}" unfolding I [symmetric] by (simp add: interval_def)
    moreover have "\<not> ?a < ?b" using False by auto
    then have "add_region s base len = Some s"
      by (simp add: add_region_def PAGE_SIZE_def add_region_from.simps [of s ?a ?b])
    ultimately show ?thesis using assms(1) by auto
  qed
qed

section \<open>The boot memory map\<close>

text \<open>The byte range of an entry that \<open>init\<close> hands over: usable memory above the first two MiB.\<close>

definition entry_range :: "memory_map_entry \<Rightarrow> nat set" where
  "entry_range e =
     (if mm_kind e = Usable
      then {max (unat (mm_base e)) 0x200000..<unat (mm_base e) + unat (mm_length e)} else {})"

definition entry_frames :: "memory_map_entry \<Rightarrow> nat set" where
  "entry_frames e =
     (case usable_region e of None \<Rightarrow> {} | Some (b, l) \<Rightarrow> page_interior (unat b) (unat l))"

lemma usable_region_range:
  assumes "unat (mm_base e) + unat (mm_length e) + 2 ^ 24 \<le> 2 ^ 64"
  shows "case usable_region e of
           None \<Rightarrow> entry_range e = {}
         | Some (b, l) \<Rightarrow> entry_range e = {unat b..<unat b + unat l} \<and>
                          unat b + unat l + 2 ^ 24 \<le> 2 ^ 64"
proof (cases "mm_base e < 0x200000")
  case True
  then have b: "unat (mm_base e) < 0x200000" by (simp add: word_less_nat_alt)
  then have d: "unat (0x200000 - mm_base e) = 0x200000 - unat (mm_base e)"
    by (simp add: unat_sub word_le_nat_alt)
  have m: "mm_base e + (0x200000 - mm_base e) = 0x200000" by simp
  have le: "0x200000 - mm_base e \<ge> mm_length e \<longleftrightarrow> 0x200000 \<ge> unat (mm_base e) + unat (mm_length e)"
    using b d by (auto simp: word_le_nat_alt)
  show ?thesis
  proof (cases "0x200000 - mm_base e \<ge> mm_length e")
    case True': True
    then show ?thesis
      using True le by (simp add: usable_region_def entry_range_def)
  next
    case False
    then have "unat (mm_length e - (0x200000 - mm_base e)) =
        unat (mm_length e) - (0x200000 - unat (mm_base e))"
      using d by (simp add: unat_sub)
    then show ?thesis
      using True False b le d assms
      by (auto simp: usable_region_def entry_range_def Let_def m word_less_nat_alt)
  qed
next
  case False
  then have "0x200000 \<le> unat (mm_base e)" by (simp add: word_less_nat_alt)
  then show ?thesis
    using False assms
    by (auto simp: usable_region_def entry_range_def Let_def word_less_nat_alt unat_eq_0)
qed

lemma entry_frames_subset:
  assumes "unat (mm_base e) + unat (mm_length e) + 2 ^ 24 \<le> 2 ^ 64"
  shows "entry_frames e \<subseteq> entry_range e"
  using usable_region_range [OF assms] page_interior_subset
  by (auto simp: entry_frames_def split: option.splits)

text \<open>A memory map \<open>init\<close> can take in: entries in range, usable ones disjoint, none on the
  frame whose direct-mapped address is null.\<close>

fun map_ok :: "u64 \<Rightarrow> memory_map_entry list \<Rightarrow> bool" where
  "map_ok hh [] \<longleftrightarrow> True"
| "map_ok hh (e # es) \<longleftrightarrow> unat (mm_base e) + unat (mm_length e) + 2 ^ 24 \<le> 2 ^ 64 \<and>
     unat (- hh) \<notin> entry_range e \<and> (\<forall>e'\<in>set es. entry_range e \<inter> entry_range e' = {}) \<and> map_ok hh es"

lemma pmm_init_frames:
  assumes "pmm_inv s ls" "map_ok (hhdm s) es" "\<forall>e\<in>set es. space ls \<inter> entry_range e = {}"
  shows "\<exists>s' ls'. pmm_init s es = Some s' \<and> pmm_inv s' ls' \<and> hhdm s' = hhdm s \<and>
           space ls' = space ls \<union> \<Union> (entry_frames ` set es)"
  using assms
proof (induction es arbitrary: s ls)
  case Nil
  then show ?case by auto
next
  case (Cons e es)
  have bd: "unat (mm_base e) + unat (mm_length e) + 2 ^ 24 \<le> 2 ^ 64" using Cons.prems(2) by simp
  note ur = usable_region_range [OF bd] and sub = entry_frames_subset [OF bd]
  obtain s1 ls1 where s1: "pmm_inv s1 ls1" "hhdm s1 = hhdm s" "space ls1 = space ls \<union> entry_frames e"
    "pmm_init s (e # es) = pmm_init s1 es"
  proof (cases "usable_region e")
    case None
    then show ?thesis using that [of s ls] Cons.prems(1) by (simp add: entry_frames_def)
  next
    case (Some bl)
    obtain b l where bl: "bl = (b, l)" by (cases bl)
    have ef: "entry_frames e = page_interior (unat b) (unat l)"
      by (simp add: entry_frames_def Some bl)
    have bound: "unat b + unat l + 2 ^ 24 \<le> 2 ^ 64" using ur by (simp add: Some bl)
    have dis: "page_interior (unat b) (unat l) \<inter> space ls = {}"
      and nn: "unat (- hhdm s) \<notin> page_interior (unat b) (unat l)"
      using Cons.prems(2,3) sub unfolding ef by auto
    obtain s' ls' where "add_region s b l = Some s'" "pmm_inv s' ls'" "hhdm s' = hhdm s"
      "space ls' = space ls \<union> page_interior (unat b) (unat l)"
      using add_region_correct [OF Cons.prems(1) bound dis nn] by blast
    then show ?thesis using that [of s' ls'] by (simp add: Some bl ef)
  qed
  have "\<exists>s' ls'. pmm_init s1 es = Some s' \<and> pmm_inv s' ls' \<and> hhdm s' = hhdm s1 \<and>
           space ls' = space ls1 \<union> \<Union> (entry_frames ` set es)"
  proof (rule Cons.IH [OF s1(1)])
    show "map_ok (hhdm s1) es" using Cons.prems(2) s1(2) by simp
    show "\<forall>e'\<in>set es. space ls1 \<inter> entry_range e' = {}"
      using Cons.prems(2,3) sub unfolding s1(3) by fastforce
  qed
  then show ?case unfolding s1(4) using s1 by (auto simp: Un_assoc)
qed

section \<open>Completeness of allocation\<close>

text \<open>Aligned blocks are nested or disjoint.\<close>

lemma dyadic_meet:
  assumes "c \<le> k" "aligned (12 + c) p" "aligned (12 + k) a" "x \<in> bspan (c, p)" "x \<in> bspan (k, a)"
  shows "bspan (c, p) \<subseteq> bspan (k, a)"
proof -
  let ?C = "(2::nat) ^ (12 + c)" and ?K = "(2::nat) ^ (12 + k)"
  have "(2::nat) ^ (12 + k) = 2 ^ (12 + c) * 2 ^ (k - c)"
    using assms(1) by (simp flip: power_add)
  then obtain d where d: "?K = ?C * d" by blast
  obtain i where i: "unat p = ?C * i" using assms(2) unfolding aligned_def by (rule dvdE)
  obtain j where j: "unat a = ?K * j" using assms(3) unfolding aligned_def by (rule dvdE)
  have x: "?C * i \<le> x" "x < ?C * i + ?C" "?C * (d * j) \<le> x" "x < ?C * (d * j) + ?C * d"
    using assms(4,5) i j d by (auto simp: bspan_def span_def mult.assoc)
  have q: "x div ?C = i" using x(1,2) by (intro div_nat_eqI) (auto simp: algebra_simps)
  have "d * j \<le> x div ?C" using x(3) by (simp add: less_eq_div_iff_mult_less_eq mult.commute)
  moreover have "x div ?C < d * j + d"
    using x(4) by (simp add: div_less_iff_less_mult algebra_simps)
  ultimately have ij: "d * j \<le> i" "i + 1 \<le> d * j + d" using q by auto
  have "?C * (d * j) \<le> ?C * i" "?C * (i + 1) \<le> ?C * (d * j + d)"
    using ij by (simp_all only: mult_le_mono2)
  then have "?K * j \<le> ?C * i" "?C * i + ?C \<le> ?K * j + ?K"
    unfolding d by (simp_all only: mult.assoc distrib_left mult_1_right)
  then show ?thesis using i j by (auto simp: bspan_def span_def)
qed

lemma dyadic_subset:
  assumes "c \<le> k" "aligned (12 + c) p" "aligned (12 + k) a" "unat p \<in> bspan (k, a)"
  shows "bspan (c, p) \<subseteq> bspan (k, a)"
  using assms by (intro dyadic_meet [of c k p a "unat p"]) (simp_all add: bspan_def)

lemma dyadic_eq:
  assumes "bspan (c, p) \<subseteq> bspan (c, a)"
  shows "a = p"
proof -
  have "(0::nat) < 2 ^ (12 + c)" by simp
  then obtain n where n: "(2::nat) ^ (12 + c) = Suc n" using gr0_conv_Suc by blast
  have sp: "bspan (c, x) = {unat x..<unat x + Suc n}" for x unfolding bspan_def span_def fst_conv n by simp
  have "unat p \<in> bspan (c, p)" "unat p + n \<in> bspan (c, p)" unfolding sp by simp_all
  then have "unat p \<in> bspan (c, a)" "unat p + n \<in> bspan (c, a)" using assms by blast+
  then have "unat a = unat p" unfolding sp by simp
  then show ?thesis by (rule unsigned_word_eqI)
qed

text \<open>In a coalesced state a free, aligned block lies inside one listed block of at least its order.\<close>

lemma coalesced_cover:
  assumes "ok hh ls" "coalesced ls" "c \<le> 12" "aligned (12 + c) p" "bspan (c, p) \<subseteq> space ls"
  shows "\<exists>k a. c \<le> k \<and> (k, a) \<in> blocks ls \<and> bspan (c, p) \<subseteq> bspan (k, a)"
  using assms(3-5)
proof (induction c arbitrary: p)
  case 0
  have "unat p \<in> bspan (0, p)" by (simp add: bspan_def)
  then obtain k a where ka: "(k, a) \<in> blocks ls" "unat p \<in> bspan (k, a)"
    using "0.prems"(3) by (auto simp: space_def)
  then have "aligned (12 + k) a" using assms(1) by (auto simp: ok_def wf_blocks_def)
  then have "bspan (0, p) \<subseteq> bspan (k, a)"
    using ka(2) "0.prems"(2) dyadic_subset [of 0 k p a] by simp
  then show ?case using ka by auto
next
  case (Suc c)
  let ?q = "p + block_size c"
  have c: "aligned (13 + c) p" "c < 12" using Suc.prems by auto
  note sp = bspan_split(1) [OF c] and al = aligned_half [OF c]
  obtain k a where ka: "c \<le> k" "(k, a) \<in> blocks ls" "bspan (c, p) \<subseteq> bspan (k, a)"
    using Suc.IH [of p] c al(1) sp Suc.prems(3) by auto
  obtain l b where lb: "c \<le> l" "(l, b) \<in> blocks ls" "bspan (c, ?q) \<subseteq> bspan (l, b)"
    using Suc.IH [of ?q] c al(2) sp Suc.prems(3) by auto
  have wf: "aligned (12 + k) a" "aligned (12 + l) b" "k \<le> 12" "l \<le> 12"
    using assms(1) ka(2) lb(2) by (auto simp: ok_def wf_blocks_def)
  have up: "unat p \<in> bspan (k, a)" "unat ?q \<in> bspan (l, b)"
    using ka(3) lb(3) by (auto simp: bspan_def)
  have uq: "unat ?q \<in> bspan (Suc c, p)" unfolding sp by (simp add: bspan_def)
  consider "Suc c \<le> k" | "Suc c \<le> l" | "k = c" "l = c" using ka(1) lb(1) by linarith
  then show ?case
  proof cases
    case 1
    then have "bspan (Suc c, p) \<subseteq> bspan (k, a)"
      using dyadic_subset [of "Suc c" k p a] Suc.prems(2) wf(1) up(1) by simp
    then show ?thesis using 1 ka(2) by blast
  next
    case 2
    then have "bspan (Suc c, p) \<subseteq> bspan (l, b)"
      using dyadic_meet [of "Suc c" l p b] Suc.prems(2) wf(2) up(2) uq by blast
    then show ?thesis using 2 lb(2) by blast
  next
    case 3
    then have "a = p" "b = ?q"
      using dyadic_eq [of c p a] dyadic_eq [of c ?q b] ka(3) lb(3) by simp_all
    then have "(c, p) \<in> blocks ls" "(c, buddy_of c p) \<in> blocks ls"
      using 3 ka(2) lb(2) buddy_of_half(1) [OF c] by auto
    then show ?thesis using assms(2) c(2) by (auto simp: coalesced_def)
  qed
qed

section \<open>The contract of allocation and freeing\<close>

lemma alloc_contract:
  assumes "pmm_inv s ls" "buddy_alloc s ord = Some (p, s')"
  shows "\<exists>ls'. a_alloc ls ord = Some (p, ls') \<and> pmm_inv s' ls' \<and> held (hhdm s) ls' ord p \<and>
           space ls = space ls' \<union> bspan (ord, p) \<and> hhdm s' = hhdm s \<and>
           FREE_PAGES s' = FREE_PAGES s - push_bit ord 1 \<and> TOTAL_PAGES s' = TOTAL_PAGES s \<and>
           (\<forall>x. unat x \<notin> space ls \<longrightarrow> ram s' x = ram s x)"
proof -
  obtain ls' where ls': "a_alloc ls ord = Some (p, ls')" "pmm_inv s' ls'"
    using buddy_alloc_refines [OF assms(1), of ord] assms(2)
    by (cases "a_alloc ls ord") auto
  have ok: "ok (hhdm s) ls" and rep: "rep s ls" using assms(1) by (auto simp: pmm_inv_def)
  show ?thesis
    using ls' a_alloc_ok [OF ok ls'(1)] buddy_alloc_Some [OF rep ok ls'(1)] assms(2) by auto
qed

lemma buddy_alloc_None_iff:
  assumes "pmm_inv s ls"
  shows "buddy_alloc s ord = None \<longleftrightarrow> (\<forall>c. ord \<le> c \<and> c < 13 \<longrightarrow> ls ! c = [])"
proof -
  have "buddy_alloc s ord = None \<longleftrightarrow> a_alloc ls ord = None"
    using buddy_alloc_refines [OF assms, of ord] by (metis rel_option_None1 rel_option_None2)
  also have "\<dots> \<longleftrightarrow> (\<forall>c. ord \<le> c \<and> c < 13 \<longrightarrow> ls ! c = [])"
    by (auto simp: a_alloc_def find_upt_None find_upt_Some Let_def split: option.splits)
  finally show ?thesis .
qed

section \<open>The frame allocator as its clients see it\<close>

text \<open>
  \<open>free s F\<close>: in state \<open>s\<close> exactly the bytes \<open>F\<close> are free.  \<open>frame s p\<close>: \<open>p\<close> is the address of
  a frame that may be handed back.
\<close>

fun alloc_seq :: "('s \<Rightarrow> (u64 \<times> 's) option) \<Rightarrow> nat \<Rightarrow> 's \<Rightarrow> (u64 list \<times> 's) option" where
  "alloc_seq al 0 s = Some ([], s)"
| "alloc_seq al (Suc n) s =
     (case al s of None \<Rightarrow> None
      | Some (p, s1) \<Rightarrow> (case alloc_seq al n s1 of None \<Rightarrow> None | Some (ps, s2) \<Rightarrow> Some (p # ps, s2)))"

fun free_seq :: "('s \<Rightarrow> u64 \<Rightarrow> 's option) \<Rightarrow> u64 list \<Rightarrow> 's \<Rightarrow> 's option" where
  "free_seq fr [] s = Some s"
| "free_seq fr (p # ps) s = (case fr s p of None \<Rightarrow> None | Some s1 \<Rightarrow> free_seq fr ps s1)"

definition frames :: "u64 list \<Rightarrow> nat set" where
  "frames ps = (\<Union>p\<in>set ps. span p 4096)"

fun frames_disjoint :: "u64 list \<Rightarrow> bool" where
  "frames_disjoint [] \<longleftrightarrow> True"
| "frames_disjoint (p # ps) \<longleftrightarrow> span p 4096 \<inter> frames ps = {} \<and> frames_disjoint ps"

lemma frames_simps [simp]: "frames [] = {}" "frames (p # ps) = span p 4096 \<union> frames ps"
  by (simp_all add: frames_def)

locale frame_allocator =
  fixes al :: "'s \<Rightarrow> (u64 \<times> 's) option"
    and fr :: "'s \<Rightarrow> u64 \<Rightarrow> 's option"
    and mem :: "'s \<Rightarrow> ram"
    and free :: "'s \<Rightarrow> nat set \<Rightarrow> bool"
    and frame :: "'s \<Rightarrow> u64 \<Rightarrow> bool"
  assumes al_law: "free s F \<Longrightarrow> al s = Some (p, s') \<Longrightarrow>
      frame s p \<and> span p 4096 \<subseteq> F \<and> free s' (F - span p 4096) \<and> frame s' = frame s"
    and al_mem: "free s F \<Longrightarrow> al s = Some (p, s') \<Longrightarrow> unat x \<notin> F \<Longrightarrow> mem s' x = mem s x"
    and fr_law: "free s F \<Longrightarrow> frame s p \<Longrightarrow> span p 4096 \<inter> F = {} \<Longrightarrow>
      \<exists>s'. fr s p = Some s' \<and> free s' (F \<union> span p 4096) \<and> frame s' = frame s \<and>
           (\<forall>x. unat x \<notin> F \<union> span p 4096 \<longrightarrow> mem s' x = mem s x)"
    and frame_aligned: "frame s p \<Longrightarrow> aligned 12 p"
begin

lemma alloc_seq_law:
  assumes "free s F" "alloc_seq al n s = Some (ps, s')"
  shows "frames_disjoint ps \<and> frames ps \<subseteq> F \<and> free s' (F - frames ps) \<and> (\<forall>p\<in>set ps. frame s' p)
    \<and> frame s' = frame s \<and> length ps = n \<and> (\<forall>x. unat x \<notin> F \<longrightarrow> mem s' x = mem s x)"
  using assms
proof (induction n arbitrary: s F ps)
  case 0
  then show ?case by simp
next
  case (Suc n)
  obtain p s1 qs where st: "al s = Some (p, s1)" "alloc_seq al n s1 = Some (qs, s')" "ps = p # qs"
    using Suc.prems(2) by (auto split: option.splits)
  note one = al_law [OF Suc.prems(1) st(1)]
  have IH: "frames_disjoint qs" "frames qs \<subseteq> F - span p 4096" "free s' (F - span p 4096 - frames qs)"
    "\<forall>p\<in>set qs. frame s' p" "frame s' = frame s1" "length qs = n"
    "\<forall>x. unat x \<notin> F - span p 4096 \<longrightarrow> mem s' x = mem s1 x"
    using Suc.IH [of s1 "F - span p 4096" qs] one st(2) by blast+
  have "F - span p 4096 - frames qs = F - frames ps" using st(3) by auto
  moreover have "mem s' x = mem s x" if "unat x \<notin> F" for x
    using al_mem [OF Suc.prems(1) st(1) that] IH(7) that by simp
  ultimately show ?case using IH one st(3) by auto
qed

lemma free_seq_law:
  assumes "free s F" "frames_disjoint ps" "frames ps \<inter> F = {}" "\<forall>p\<in>set ps. frame s p"
  shows "\<exists>s'. free_seq fr ps s = Some s' \<and> free s' (F \<union> frames ps) \<and> frame s' = frame s"
  using assms
proof (induction ps arbitrary: s F)
  case Nil
  then show ?case by simp
next
  case (Cons p ps)
  obtain s1 where s1: "fr s p = Some s1" "free s1 (F \<union> span p 4096)" "frame s1 = frame s"
    using fr_law [OF Cons.prems(1), of p] Cons.prems(3,4) by auto
  have "\<exists>s'. free_seq fr ps s1 = Some s' \<and> free s' (F \<union> span p 4096 \<union> frames ps) \<and> frame s' = frame s1"
    using Cons.prems s1 by (intro Cons.IH) auto
  then show ?case using s1 by (auto simp: Un_assoc)
qed

text \<open>Handing back what was taken restores the free space, whatever is done in between.\<close>

lemma alloc_free_seq:
  assumes "free s F" "alloc_seq al n s = Some (ps, s')"
  shows "\<exists>s''. free_seq fr ps s' = Some s'' \<and> free s'' F"
proof -
  note a = alloc_seq_law [OF assms]
  have "F - frames ps \<union> frames ps = F" using a by blast
  then show ?thesis using free_seq_law [of s' "F - frames ps" ps] a by auto
qed

end

definition free_space :: "kmem \<Rightarrow> nat set \<Rightarrow> bool" where
  "free_space s F \<longleftrightarrow> (\<exists>ls. pmm_inv s ls \<and> space ls = F)"

definition is_frame :: "kmem \<Rightarrow> u64 \<Rightarrow> bool" where
  "is_frame s p \<longleftrightarrow> aligned 12 p \<and> unat (- hhdm s) \<notin> span p 4096"

lemma is_frame_hhdm: "hhdm s' = hhdm s \<Longrightarrow> is_frame s' = is_frame s"
  by (simp add: is_frame_def fun_eq_iff)

lemma bspan_frame: "bspan (0, p) = span p 4096"
  by (simp add: bspan_def)

lemma held_is_frame: "held (hhdm s) ls 0 p \<Longrightarrow> is_frame s p"
  by (auto simp: held_def wf_blocks_def is_frame_def bspan_frame)

lemma alloc_frame_law:
  assumes "free_space s F" "alloc_frame s = Some (p, s')"
  shows "is_frame s p \<and> span p 4096 \<subseteq> F \<and> free_space s' (F - span p 4096) \<and> is_frame s' = is_frame s"
    and "unat x \<notin> F \<Longrightarrow> ram s' x = ram s x"
    and "hhdm s' = hhdm s"
proof -
  obtain ls where ls: "pmm_inv s ls" "space ls = F" using assms(1) by (auto simp: free_space_def)
  obtain ls' where ls': "pmm_inv s' ls'" "held (hhdm s) ls' 0 p" "space ls = space ls' \<union> span p 4096"
    "hhdm s' = hhdm s" "\<forall>x. unat x \<notin> space ls \<longrightarrow> ram s' x = ram s x"
    using alloc_contract [OF ls(1) assms(2) [unfolded alloc_frame_def], unfolded bspan_frame] by blast
  have "space ls' = F - span p 4096"
    using ls'(3) held_disjoint [OF ls'(2)] ls(2) by (auto simp: bspan_frame)
  then have "free_space s' (F - span p 4096)" using ls'(1) unfolding free_space_def by blast
  moreover have "span p 4096 \<subseteq> F" using ls'(3) ls(2) by blast
  ultimately show "is_frame s p \<and> span p 4096 \<subseteq> F \<and> free_space s' (F - span p 4096) \<and> is_frame s' = is_frame s"
    using held_is_frame [OF ls'(2)] is_frame_hhdm [OF ls'(4)] by simp
  show "hhdm s' = hhdm s" by (rule ls'(4))
  assume "unat x \<notin> F"
  then show "ram s' x = ram s x" using ls'(5) ls(2) by simp
qed

lemma is_frame_held:
  assumes "pmm_inv s ls" "is_frame s p" "span p 4096 \<inter> space ls = {}"
  shows "held (hhdm s) ls 0 p"
  using assms by (intro heldI) (auto simp: pmm_inv_def is_frame_def bspan_frame)

lemma free_frame_law:
  assumes "free_space s F" "is_frame s p" "span p 4096 \<inter> F = {}"
  shows "\<exists>s'. free_frame s p = Some s' \<and> free_space s' (F \<union> span p 4096) \<and> hhdm s' = hhdm s \<and>
           is_frame s' = is_frame s \<and> (\<forall>x. unat x \<notin> F \<union> span p 4096 \<longrightarrow> ram s' x = ram s x)"
proof -
  obtain ls where ls: "pmm_inv s ls" "space ls = F" using assms(1) by (auto simp: free_space_def)
  have h: "held (hhdm s) ls 0 p" using is_frame_held ls assms(2,3) by simp
  obtain s' where s': "buddy_free s p 0 = Some s'" "pmm_inv s' (a_free ls p 0)" "hhdm s' = hhdm s"
    "\<forall>x. unat x \<notin> F \<union> span p 4096 \<longrightarrow> ram s' x = ram s x"
    using buddy_free_refines [OF ls(1) h, unfolded bspan_frame ls(2)] by blast
  have "space (a_free ls p 0) = F \<union> span p 4096" using a_free_ok(2) [OF h] ls(2) by (simp add: bspan_frame)
  then have "free_space s' (F \<union> span p 4096)" using s'(2) unfolding free_space_def by blast
  then show ?thesis
    using s'(1,3,4) is_frame_hhdm [OF s'(3)] by (simp add: free_frame_def)
qed

interpretation pmm: frame_allocator alloc_frame free_frame ram free_space is_frame
proof unfold_locales
  fix s F p
  assume "free_space s F" "is_frame s p" "span p 4096 \<inter> F = {}"
  from free_frame_law [OF this]
  show "\<exists>s'. free_frame s p = Some s' \<and> free_space s' (F \<union> span p 4096) \<and> is_frame s' = is_frame s \<and>
    (\<forall>x. unat x \<notin> F \<union> span p 4096 \<longrightarrow> ram s' x = ram s x)" by blast
qed (use alloc_frame_law(1,2) in \<open>auto simp: is_frame_def\<close>)

text \<open>The allocator reads no memory outside the free blocks, so a client may write to its frames.\<close>

locale frame_memory = frame_allocator +
  fixes set_mem :: "'a \<Rightarrow> ram \<Rightarrow> 'a"
  assumes set_mem_free: "free s F \<Longrightarrow> (\<And>x. unat x \<in> F \<Longrightarrow> m x = mem s x) \<Longrightarrow> free (set_mem s m) F"
    and mem_set_mem: "mem (set_mem s m) = m"
    and frame_set_mem: "frame (set_mem s m) = frame s"
begin

lemma zeroed_law:
  assumes "free s F" "al s = Some (p, s1)" "s' = set_mem s1 (write_bytes (mem s1) p 0 4096)"
  shows "frame s' p \<and> span p 4096 \<subseteq> F \<and> free s' (F - span p 4096) \<and> frame s' = frame s \<and>
         (\<forall>x. unat x \<in> span p 4096 \<longrightarrow> mem s' x = 0) \<and> (\<forall>x. unat x \<notin> F \<longrightarrow> mem s' x = mem s x)"
proof -
  note a = al_law [OF assms(1,2)]
  have b: "unat p + 4096 \<le> 2 ^ 64"
    using aligned_bound [of 12 p] frame_aligned a by auto
  have "free s' (F - span p 4096)"
    unfolding assms(3) using a b by (intro set_mem_free) (auto simp: write_bytes_other)
  moreover have "mem s' x = mem s x" if "unat x \<notin> F" for x
    using that a b al_mem [OF assms(1,2) that] unfolding assms(3) mem_set_mem
    by (subst write_bytes_other) auto
  moreover have "mem s' x = 0" if "unat x \<in> span p 4096" for x
    unfolding assms(3) mem_set_mem using b that by (rule write_bytes_in)
  ultimately show ?thesis using a by (simp add: assms(3) frame_set_mem)
qed

end

lemma blocks_cell_bound:
  assumes "ok hh ls" "(c, a) \<in> blocks ls"
  shows "unat a + 8 \<le> 2 ^ 64"
proof -
  have "aligned 12 a"
    using assms by (intro aligned_mono [of "12 + c" a 12]) (auto simp: ok_def wf_blocks_def)
  then show ?thesis using aligned_bound [of 12 a] by simp
qed

lemma rep_ram_cong:
  assumes "rep s ls" "ok (hhdm s) ls" "\<And>x. unat x \<in> space ls \<Longrightarrow> m x = ram s x"
  shows "rep (s\<lparr>ram := m\<rparr>) ls"
proof -
  have len: "length ls = 13" using assms(1) by (simp add: rep_def)
  have ld: "load64 m a = load64 (ram s) a" if "c < 13" "a \<in> set (ls ! c)" for c a
  proof (rule load64_cong)
    have b: "(c, a) \<in> blocks ls" using that len by (simp add: blocks_def)
    then show "unat a + 8 \<le> 2 ^ 64" by (rule blocks_cell_bound [OF assms(2)])
    fix x :: u64 assume "unat x \<in> span a 8"
    then show "m x = ram s x" using cell_in_bspan [of a c] b assms(3) by (auto simp: space_def)
  qed
  have "chain (hhdm s) m (fl_head (lists (PMM s) ! c)) (ls ! c)" if "c < 13" for c
    using assms(1) that ld [OF that] chain_cong [of "hhdm s" "ram s"] by (auto simp: rep_def)
  then show ?thesis using assms(1) by (simp add: rep_def)
qed

lemma pmm_inv_ram_cong:
  assumes "pmm_inv s ls" "\<And>x. unat x \<in> space ls \<Longrightarrow> m x = ram s x"
  shows "pmm_inv (s\<lparr>ram := m\<rparr>) ls"
  using assms rep_ram_cong by (auto simp: pmm_inv_def)

interpretation pmm_mem: frame_memory alloc_frame free_frame ram free_space is_frame "\<lambda>s m. s\<lparr>ram := m\<rparr>"
proof unfold_locales
  fix s F and m :: ram
  assume "free_space s F" "\<And>x. unat x \<in> F \<Longrightarrow> m x = ram s x"
  then show "free_space (s\<lparr>ram := m\<rparr>) F"
    unfolding free_space_def using pmm_inv_ram_cong by blast
qed (simp_all add: is_frame_def fun_eq_iff)

lemma alloc_zeroed_frame_eq:
  "alloc_zeroed_frame s = Some (p, s') \<longleftrightarrow>
     (\<exists>s1. alloc_frame s = Some (p, s1) \<and> s' = s1\<lparr>ram := write_bytes (ram s1) p 0 4096\<rparr>)"
  by (auto simp: alloc_zeroed_frame_def ptr_defs split: option.splits)

lemma alloc_zeroed_frame_law:
  assumes "free_space s F" "alloc_zeroed_frame s = Some (p, s')"
  shows "is_frame s' p" "span p 4096 \<subseteq> F" "free_space s' (F - span p 4096)" "hhdm s' = hhdm s"
    and "\<And>x. unat x \<in> span p 4096 \<Longrightarrow> ram s' x = 0" "\<And>x. unat x \<notin> F \<Longrightarrow> ram s' x = ram s x"
proof -
  obtain s1 where s1: "alloc_frame s = Some (p, s1)" "s' = s1\<lparr>ram := write_bytes (ram s1) p 0 4096\<rparr>"
    using assms(2) by (auto simp: alloc_zeroed_frame_eq)
  note z = pmm_mem.zeroed_law [OF assms(1) s1]
  show "is_frame s' p" "span p 4096 \<subseteq> F" "free_space s' (F - span p 4096)"
    "\<And>x. unat x \<in> span p 4096 \<Longrightarrow> ram s' x = 0" "\<And>x. unat x \<notin> F \<Longrightarrow> ram s' x = ram s x"
    using z by blast+
  show "hhdm s' = hhdm s" using alloc_frame_law(3) [OF assms(1) s1(1)] s1(2) by simp
qed

lemma alloc_zeroed_frame_None: "alloc_zeroed_frame s = None \<longleftrightarrow> alloc_frame s = None"
  by (auto simp: alloc_zeroed_frame_def split: option.splits)

text \<open>A single frame is refused only when nothing at all is free.\<close>

lemma alloc_None_empty:
  assumes "free_space s F" "alloc_frame s = None"
  shows "F = {}"
proof -
  obtain ls where ls: "pmm_inv s ls" "space ls = F" using assms(1) by (auto simp: free_space_def)
  have len: "length ls = 13" using ls(1) by (simp add: pmm_inv_def rep_def)
  have "\<forall>c<13. ls ! c = []" using assms(2) buddy_alloc_None_iff [OF ls(1), of 0] by (simp add: alloc_frame_def)
  then have "blocks ls = {}" using len by (auto simp: blocks_def)
  then show ?thesis using ls(2) by (simp add: space_def)
qed

section \<open>An example memory\<close>

text \<open>A booted machine whose only free memory is the eight KiB at two MiB: one block of order 1.\<close>

definition example_mem :: kmem where
  "example_mem =
     \<lparr>hhdm = 0xFFFF800000000000, ram = (\<lambda>_. 0),
      PMM = buddy_new\<lparr>lists := (lists buddy_new)[1 := \<lparr>fl_head = 0xFFFF800000200000, fl_count = 1\<rparr>]\<rparr>,
      FREE_PAGES = 2, TOTAL_PAGES = 2\<rparr>"

definition example_lists :: alists where
  "example_lists = (replicate 13 [])[1 := [0x200000]]"

definition boot_mem :: kmem where
  "boot_mem = \<lparr>hhdm = 0xFFFF800000000000, ram = (\<lambda>_. 0), PMM = buddy_new, FREE_PAGES = 0, TOTAL_PAGES = 0\<rparr>"

lemma boot_inv: "pmm_inv boot_mem (replicate 13 [])"
proof -
  have "blocks (replicate 13 []) = {}" by (auto simp: blocks_def)
  then have "space (replicate 13 []) = {}" "ok (hhdm boot_mem) (replicate 13 [])"
    by (simp_all add: space_def ok_def lists_ok_def wf_blocks_def)
  moreover have "rep boot_mem (replicate 13 [])"
    by (simp add: rep_def boot_mem_def buddy_new_def MAX_ORDER_def fl_empty_def)
  ultimately show ?thesis by (simp add: pmm_inv_def boot_mem_def)
qed

lemma example_blocks: "blocks example_lists = {(1, 0x200000)}"
  by (auto simp: blocks_def example_lists_def nth_list_update split: if_splits)

lemma example_space: "space example_lists = {0x200000..<0x202000}"
  by (simp add: space_def example_blocks bspan_def span_def)

lemma example_inv: "pmm_inv example_mem example_lists"
proof -
  have "load64 (\<lambda>_. 0) 0x200000 = 0" by code_simp
  then have "rep example_mem example_lists"
    by (auto simp: rep_def example_mem_def example_lists_def buddy_new_def MAX_ORDER_def fl_empty_def
        nth_list_update)
  moreover have "lists_ok example_lists"
    by (auto simp: lists_ok_def example_lists_def nth_list_update)
  then have "ok (hhdm example_mem) example_lists"
    by (simp add: ok_def wf_blocks_def example_blocks bspan_def span_def aligned_def example_mem_def)
  ultimately show ?thesis by (simp add: pmm_inv_def example_space example_mem_def)
qed

lemma example_coalesced: "coalesced example_lists"
  by (auto simp: coalesced_def example_blocks buddy_of_def block_size_def PAGE_SIZE_def)

lemma example_alloc:
  obtains s' where "buddy_alloc example_mem 0 = Some (0x200000, s')"
proof -
  have "fst (the (a_alloc example_lists 0)) = 0x200000 \<and> a_alloc example_lists 0 \<noteq> None"
    by code_simp
  then show ?thesis
    using buddy_alloc_refines [OF example_inv, of 0] that
    by (cases "a_alloc example_lists 0"; cases "buddy_alloc example_mem 0") auto
qed

section \<open>Properties\<close>

text \<open>C1: a successful allocation returns a block that is aligned to its size and was free, takes
  exactly that block out of the free memory, keeps the allocator's invariant (and full coalescing),
  lowers \<open>FREE_PAGES\<close> by the block's pages, and writes no byte outside the memory that was free.\<close>

theorem alloc_correct:
  assumes "pmm_inv s ls" "buddy_alloc s ord = Some (p, s')"
  shows "\<exists>ls'. pmm_inv s' ls' \<and> (coalesced ls \<longrightarrow> coalesced ls') \<and>
           ord \<le> 12 \<and> aligned (12 + ord) p \<and>
           space ls = space ls' \<union> bspan (ord, p) \<and> bspan (ord, p) \<inter> space ls' = {} \<and>
           FREE_PAGES s' = FREE_PAGES s - 2 ^ ord \<and>
           (\<forall>x. unat x \<notin> space ls \<longrightarrow> ram s' x = ram s x)"
proof -
  have ok: "ok (hhdm s) ls" using assms(1) by (simp add: pmm_inv_def)
  obtain ls' where ls': "a_alloc ls ord = Some (p, ls')" "pmm_inv s' ls'" "held (hhdm s) ls' ord p"
    "space ls = space ls' \<union> bspan (ord, p)" "FREE_PAGES s' = FREE_PAGES s - push_bit ord 1"
    "\<forall>x. unat x \<notin> space ls \<longrightarrow> ram s' x = ram s x"
    using alloc_contract [OF assms] by blast
  have "coalesced ls \<longrightarrow> coalesced ls'" using a_alloc_coalesced [OF ok _ ls'(1)] by blast
  then show ?thesis
    using ls'(2,4-) held_disjoint [OF ls'(3)] held_aligned [OF ls'(3)]
    by (intro exI [of _ ls']) (simp add: push_bit_one)
qed

theorem alloc_correct_witness:
  "\<exists>s' ls'. buddy_alloc example_mem 0 = Some (0x200000, s') \<and> pmm_inv s' ls' \<and>
     space example_lists = space ls' \<union> bspan (0, 0x200000) \<and> FREE_PAGES s' = 1"
proof -
  obtain s' where s': "buddy_alloc example_mem 0 = Some (0x200000, s')" by (rule example_alloc)
  show ?thesis using s' alloc_correct [OF example_inv s'] by (auto simp: example_mem_def)
qed

text \<open>C2: freeing a block that is aligned, disjoint from the free memory and not the frame whose
  direct-mapped address is null always returns; it puts exactly that block back, keeps the invariant
  and full coalescing, raises \<open>FREE_PAGES\<close> by the block's pages, and writes only inside the freed
  block and the memory that was free already.\<close>

theorem free_correct:
  assumes "pmm_inv s ls" "ord \<le> 12" "aligned (12 + ord) p" "bspan (ord, p) \<inter> space ls = {}"
    and "unat (- hhdm s) \<notin> bspan (ord, p)"
  shows "\<exists>s' ls'. buddy_free s p ord = Some s' \<and> pmm_inv s' ls' \<and> (coalesced ls \<longrightarrow> coalesced ls') \<and>
           space ls' = space ls \<union> bspan (ord, p) \<and> FREE_PAGES s' = FREE_PAGES s + 2 ^ ord \<and>
           (\<forall>x. unat x \<notin> space ls \<union> bspan (ord, p) \<longrightarrow> ram s' x = ram s x)"
proof -
  have h: "held (hhdm s) ls ord p" using assms by (intro heldI) (auto simp: pmm_inv_def)
  obtain s' where s': "buddy_free s p ord = Some s'" "pmm_inv s' (a_free ls p ord)"
    "FREE_PAGES s' = FREE_PAGES s + push_bit ord 1"
    "\<forall>x. unat x \<notin> space ls \<union> bspan (ord, p) \<longrightarrow> ram s' x = ram s x"
    using buddy_free_refines [OF assms(1) h] by blast
  have "coalesced ls \<longrightarrow> coalesced (a_free ls p ord)" using a_free_coalesced [OF h] by blast
  then show ?thesis
    using s' a_free_ok(2) [OF h] by (intro exI [of _ s'] exI [of _ "a_free ls p ord"]) (simp add: push_bit_one)
qed

theorem free_correct_witness:
  "\<exists>s' ls'. buddy_free example_mem 0x202000 1 = Some s' \<and> pmm_inv s' ls' \<and>
     space ls' = {0x200000..<0x204000} \<and> FREE_PAGES s' = 4"
proof -
  have "bspan (1, 0x202000) = {0x202000..<0x204000}" by (simp add: bspan_def span_def)
  moreover from this have "\<exists>s' ls'. buddy_free example_mem 0x202000 1 = Some s' \<and> pmm_inv s' ls' \<and>
       (coalesced example_lists \<longrightarrow> coalesced ls') \<and> space ls' = space example_lists \<union> bspan (1, 0x202000) \<and>
       FREE_PAGES s' = FREE_PAGES example_mem + 2 ^ 1 \<and>
       (\<forall>x. unat x \<notin> space example_lists \<union> bspan (1, 0x202000) \<longrightarrow> ram s' x = ram example_mem x)"
    by (intro free_correct [OF example_inv])
       (simp_all add: example_space aligned_def example_mem_def)
  ultimately show ?thesis by (force simp: example_space example_mem_def)
qed






definition example_map :: "memory_map_entry list" where
  "example_map = [\<lparr>mm_base = 0x1000, mm_length = 0x201800, mm_kind = Usable\<rparr>,
                  \<lparr>mm_base = 0x300000, mm_length = 0x1000, mm_kind = Reserved\<rparr>]"


text \<open>C25: frames taken in a row are page aligned, pairwise disjoint and were free; memory that was
  not free keeps its contents; and returning them, in the order they were taken, succeeds and
  restores the free memory.\<close>

theorem alloc_frames_disjoint:
  assumes "free_space s F" "alloc_seq alloc_frame n s = Some (ps, s')"
  shows "length ps = n \<and> frames_disjoint ps \<and> frames ps \<subseteq> F \<and> (\<forall>p\<in>set ps. aligned 12 p) \<and>
         free_space s' (F - frames ps) \<and> (\<forall>x. unat x \<notin> F \<longrightarrow> ram s' x = ram s x) \<and>
         (\<exists>s''. free_seq free_frame ps s' = Some s'' \<and> free_space s'' F)"
  using pmm.alloc_seq_law [OF assms] pmm.alloc_free_seq [OF assms] pmm.frame_aligned by blast

theorem alloc_frames_disjoint_witness:
  "\<exists>s' s''. alloc_seq alloc_frame 1 example_mem = Some ([0x200000], s') \<and>
     free_space s' {0x201000..<0x202000} \<and>
     free_seq free_frame [0x200000] s' = Some s'' \<and> free_space s'' {0x200000..<0x202000}"
proof -
  obtain s' where s': "buddy_alloc example_mem 0 = Some (0x200000, s')" by (rule example_alloc)
  have f: "free_space example_mem {0x200000..<0x202000}"
    using example_inv example_space by (auto simp: free_space_def)
  have a: "alloc_seq alloc_frame 1 example_mem = Some ([0x200000], s')"
    using s' by (simp add: alloc_frame_def)
  have "{0x200000..<0x202000} - frames [0x200000] = {0x201000..<0x202000}"
    by (auto simp: span_def)
  then show ?thesis using a alloc_frames_disjoint [OF f a] by auto
qed

end
