(* ===== verification/PageTables.thy ===== *)
theory PageTables
  imports Vmm Frames
begin

text \<open>
  Correctness of the page tables of \<open>mm/vmm.rs\<close>.  The tables of the user half of an address space
  form a tree of frames; \<open>tbl\<close> reads the tree out of memory, \<open>pt_inv\<close> says that its frames are
  distinct and in use, and \<open>lookup\<close> is the translation it defines.  Mapping and unmapping are shown
  to be exactly an update of that translation, and dropping an address space to return exactly the
  frames of the tree.
\<close>

unbundle bit_operations_syntax

section \<open>Table entries in memory\<close>

definition pte :: "ram \<Rightarrow> u64 \<Rightarrow> nat \<Rightarrow> u64" where
  "pte m t i = load64 m (t + 8 * of_nat i)"

lemma get_entry_phys: "get_entry s (phys_to_virt (hhdm s) t) i = pte (ram s) t i"
  by (simp add: get_entry_def pte_def ptr_defs)

lemma set_entry_phys:
  "hh = hhdm s \<Longrightarrow> set_entry s (phys_to_virt hh t) i v = s\<lparr>ram := store64 (ram s) (t + 8 * of_nat i) v\<rparr>"
  by (simp add: set_entry_def ptr_defs)

lemma unat_cell:
  assumes "aligned 12 t" "i < 512"
  shows "unat (t + 8 * of_nat i) = unat t + 8 * i"
proof -
  have "unat t + 8 * i < 2 ^ 64" using aligned_bound [OF assms(1)] assms(2) by simp
  then have "unat (t + of_nat (8 * i)) = unat t + 8 * i" by (rule unat_plus_of_nat)
  then show ?thesis by simp
qed

lemma cell_bound: "aligned 12 t \<Longrightarrow> i < 512 \<Longrightarrow> unat (t + 8 * of_nat i) + 8 \<le> 2 ^ 64"
  using aligned_bound [of 12 t] by (simp add: unat_cell)

lemma cell_span: "aligned 12 t \<Longrightarrow> i < 512 \<Longrightarrow> span (t + 8 * of_nat i) 8 \<subseteq> span t 4096"
  by (auto simp: span_def unat_cell)

lemma frame_span_disjoint: "aligned 12 a \<Longrightarrow> aligned 12 b \<Longrightarrow> a \<noteq> b \<Longrightarrow> span a 4096 \<inter> span b 4096 = {}"
  using aligned_span_disjoint [of 12 a b] by simp

lemma cells_disjoint:
  assumes "aligned 12 t" "aligned 12 t'" "i < 512" "j < 512" "(t, i) \<noteq> (t', j)"
  shows "span (t + 8 * of_nat i) 8 \<inter> span (t' + 8 * of_nat j) 8 = {}"
proof (cases "t = t'")
  case True
  then show ?thesis using assms by (auto simp: span_def unat_cell)
next
  case False
  then have "span t 4096 \<inter> span t' 4096 = {}" using assms by (intro frame_span_disjoint)
  then show ?thesis using cell_span assms by blast
qed

lemma pte_store_same: "pte (store64 m (t + 8 * of_nat i) v) t i = v"
  by (simp add: pte_def load64_store64_same)

lemma pte_store_other:
  assumes "aligned 12 t" "aligned 12 t'" "i < 512" "j < 512" "(t, i) \<noteq> (t', j)"
  shows "pte (store64 m (t + 8 * of_nat i) v) t' j = pte m t' j"
  unfolding pte_def using assms by (intro load64_store64_disjoint cell_bound cells_disjoint)

lemma pte_cong:
  assumes "aligned 12 t" "i < 512" "\<And>x. unat x \<in> span t 4096 \<Longrightarrow> m x = m' x"
  shows "pte m t i = pte m' t i"
  unfolding pte_def using assms cell_span by (intro load64_cong cell_bound) blast+

section \<open>Bits of an entry\<close>

lemmas pte_bits = PTE_PRESENT_def PTE_WRITABLE_def PTE_USER_def PTE_LARGE_def PTE_NO_EXEC_def

lemma addr_mask_eq: "PTE_ADDR_MASK = push_bit 12 (mask 40)"
  by (simp add: PTE_ADDR_MASK_def mask_eq_exp_minus_1 push_bit_eq_mult)

lemma bit_addr_mask: "bit PTE_ADDR_MASK n \<longleftrightarrow> 12 \<le> n \<and> n < 52"
  unfolding addr_mask_eq by (auto simp: bit_push_bit_iff bit_mask_iff possible_bit_def)

lemma aligned_mask: "aligned 12 (x AND PTE_ADDR_MASK)"
  by (simp add: aligned_bit bit_and_iff bit_addr_mask)

lemma mask_mask: "(x AND PTE_ADDR_MASK) AND PTE_ADDR_MASK = x AND PTE_ADDR_MASK"
  by (simp add: and.assoc)

lemma frame_mask:
  assumes "aligned 12 p" "unat p < 2 ^ 52"
  shows "p AND PTE_ADDR_MASK = p"
proof (rule bit_word_eqI)
  fix n
  have "\<not> bit p n" if "52 \<le> n"
  proof -
    have "take_bit 52 (unat p) = unat p" using assms(2) by (simp add: take_bit_eq_mod)
    then have "bit (unat p) n \<longleftrightarrow> bit (unat p) n \<and> n < 52" by (metis bit_take_bit_iff)
    then show ?thesis using that by (simp add: bit_unsigned_iff)
  qed
  moreover have "\<not> bit p n" if "n < 12" using assms(1) that by (simp add: aligned_bit)
  ultimately have "bit p n \<Longrightarrow> 12 \<le> n \<and> n < 52" by (meson not_le)
  then show "bit (p AND PTE_ADDR_MASK) n = bit p n" by (auto simp: bit_and_iff bit_addr_mask)
qed

lemma present_iff: "x AND PTE_PRESENT \<noteq> 0 \<longleftrightarrow> bit x 0"
  by (simp add: PTE_PRESENT_def and_one_eq odd_iff_mod_2_eq_one [symmetric] bit_0)

lemma bit_large: "bit PTE_LARGE n \<longleftrightarrow> n = 7"
proof -
  have b: "bit ((2 :: u64) ^ k) n \<longleftrightarrow> n = k \<and> n < 64" for k by (auto simp: bit_exp_iff possible_bit_def)
  have "PTE_LARGE = 2 ^ 7" by (simp add: PTE_LARGE_def)
  then have "bit PTE_LARGE n \<longleftrightarrow> n = 7 \<and> n < 64" using b [of 7] by (simp only:)
  then show ?thesis by auto
qed

lemma large_iff: "x AND PTE_LARGE \<noteq> 0 \<longleftrightarrow> bit x 7"
proof -
  have "x AND PTE_LARGE = 0 \<longleftrightarrow> (\<forall>n<64. \<not> (bit x n \<and> bit PTE_LARGE n))"
    by (simp add: bit_eq_iff bit_and_iff)
  then show ?thesis by (simp add: bit_large)
qed

lemma parent_entry:
  assumes "aligned 12 p" "unat p < 2 ^ 52"
  defines "e \<equiv> p OR (PTE_WRITABLE OR PTE_USER) OR PTE_PRESENT"
  shows "e AND PTE_PRESENT \<noteq> 0" "e AND PTE_LARGE = 0" "e AND PTE_ADDR_MASK = p"
proof -
  have seven: "(PTE_WRITABLE OR PTE_USER) OR PTE_PRESENT = mask 3"
    by (simp add: pte_bits mask_eq_exp_minus_1)
  have e: "e = p OR mask 3" unfolding e_def or.assoc [symmetric] seven [symmetric] by (simp add: or.assoc)
  have b: "bit e n \<longleftrightarrow> bit p n \<or> n < 3" for n
    unfolding e by (auto simp: bit_or_iff bit_mask_iff possible_bit_def)
  show "e AND PTE_PRESENT \<noteq> 0" by (simp add: present_iff b)
  have "\<not> bit e 7" using assms(1) by (simp add: b aligned_bit)
  then show "e AND PTE_LARGE = 0" using large_iff by blast
  have "e AND PTE_ADDR_MASK = p AND PTE_ADDR_MASK"
    by (rule bit_word_eqI) (auto simp: bit_and_iff b bit_addr_mask)
  then show "e AND PTE_ADDR_MASK = p" using frame_mask [OF assms(1,2)] by simp
qed

section \<open>The tree of tables\<close>

text \<open>
  A path is the list of indices from a table up to the root, so \<open>[]\<close> is the root, \<open>[a]\<close> the
  pointer table under entry \<open>a\<close> of the root, and \<open>[c, b, a]\<close> a table of leaf entries.  An entry of a
  page directory with the large bit set is a leaf, not a table.
\<close>

fun tbl :: "ram \<Rightarrow> u64 \<Rightarrow> nat list \<Rightarrow> u64 option" where
  "tbl m root [] = Some root"
| "tbl m root (i # is) =
     (case tbl m root is of
        None \<Rightarrow> None
      | Some t \<Rightarrow>
          if pte m t i AND PTE_PRESENT \<noteq> 0 \<and> (length is = 2 \<longrightarrow> pte m t i AND PTE_LARGE = 0)
          then Some (pte m t i AND PTE_ADDR_MASK) else None)"

definition upath :: "nat list \<Rightarrow> bool" where
  "upath is \<longleftrightarrow> length is \<le> 3 \<and> (\<forall>i\<in>set is. i < 512) \<and> (is \<noteq> [] \<longrightarrow> last is < 256)"

definition tables :: "ram \<Rightarrow> u64 \<Rightarrow> nat set" where
  "tables m root = \<Union> {span t 4096 |t. \<exists>is. upath is \<and> tbl m root is = Some t}"

definition pt_inv :: "ram \<Rightarrow> u64 \<Rightarrow> nat set \<Rightarrow> bool" where
  "pt_inv m root F \<longleftrightarrow> aligned 12 root \<and> F \<subseteq> {..<2 ^ 52} \<and> tables m root \<inter> F = {} \<and>
     (\<forall>is js t. upath is \<longrightarrow> upath js \<longrightarrow> tbl m root is = Some t \<longrightarrow> tbl m root js = Some t \<longrightarrow> is = js) \<and>
     (\<forall>is t i. upath is \<longrightarrow> length is = 2 \<longrightarrow> i < 512 \<longrightarrow> tbl m root is = Some t \<longrightarrow>
        pte m t i AND PTE_LARGE \<noteq> 0 \<longrightarrow> pte m t i AND PTE_PRESENT \<noteq> 0)"

lemma upath_Nil [simp]: "upath []"
  by (simp add: upath_def)

lemma upath_ConsD: "upath (i # is) \<Longrightarrow> upath is" "upath (i # is) \<Longrightarrow> i < 512" "upath (i # is) \<Longrightarrow> length is \<le> 2"
  by (auto simp: upath_def)

lemma tbl_Cons_Some: "tbl m root (i # is) = Some t \<Longrightarrow> \<exists>t'. tbl m root is = Some t'"
  by (auto split: option.splits)

lemma tbl_aligned: "aligned 12 root \<Longrightarrow> tbl m root is = Some t \<Longrightarrow> aligned 12 t"
  by (cases "is") (auto simp: aligned_mask split: option.splits if_splits)

lemma pt_invD:
  assumes "pt_inv m root F"
  shows "aligned 12 root" "F \<subseteq> {..<2 ^ 52}" "tables m root \<inter> F = {}"
    and "upath is \<Longrightarrow> tbl m root is = Some t \<Longrightarrow> aligned 12 t"
    and "upath is \<Longrightarrow> upath js \<Longrightarrow> tbl m root is = Some t \<Longrightarrow> tbl m root js = Some t \<Longrightarrow> is = js"
    and "upath is \<Longrightarrow> length is = 2 \<Longrightarrow> i < 512 \<Longrightarrow> tbl m root is = Some t \<Longrightarrow>
        pte m t i AND PTE_LARGE \<noteq> 0 \<Longrightarrow> pte m t i AND PTE_PRESENT \<noteq> 0"
  using assms tbl_aligned unfolding pt_inv_def by blast+

lemma table_span: "upath is \<Longrightarrow> tbl m root is = Some t \<Longrightarrow> span t 4096 \<subseteq> tables m root"
  by (auto simp: tables_def)

lemma tables_iff: "x \<in> tables m root \<longleftrightarrow> (\<exists>is t. upath is \<and> tbl m root is = Some t \<and> x \<in> span t 4096)"
  by (auto simp: tables_def)

text \<open>The cells of the tables are pairwise distinct, so a path is read from cells of its own.\<close>

lemma cell_unique:
  assumes "pt_inv m root F" "upath is" "upath js" "tbl m root is = Some t" "tbl m root js = Some t'"
    and "j # js \<noteq> i # is"
  shows "(t, i) \<noteq> (t', j)"
  using assms pt_invD(5) by blast

text \<open>Agreement of all cells off one path keeps every table that is not below that path.\<close>

lemma tbl_frame:
  assumes "\<And>js j t. upath (j # js) \<Longrightarrow> tbl m root js = Some t \<Longrightarrow> j # js \<noteq> path \<Longrightarrow> pte m' t j = pte m t j"
    and "upath js" "\<And>ks. js \<noteq> ks @ path"
  shows "tbl m' root js = tbl m root js"
  using assms(2,3)
proof (induction js)
  case Nil
  then show ?case by simp
next
  case (Cons j js)
  have IH: "tbl m' root js = tbl m root js"
    using Cons.IH Cons.prems by (metis append_Cons upath_ConsD(1))
  have "j # js \<noteq> path" using Cons.prems(2) [of "[]"] by simp
  then show ?case using IH assms(1) [OF Cons.prems(1)] by (auto split: option.splits)
qed

lemma tbl_None_below: "tbl m root path = None \<Longrightarrow> tbl m root (ks @ path) = None"
  by (induction ks) auto

text \<open>The step from \<open>m\<close> to \<open>m'\<close> adds the empty table \<open>p\<close> at \<open>path\<close> and keeps everything else.\<close>

definition adds_table :: "ram \<Rightarrow> ram \<Rightarrow> u64 \<Rightarrow> nat list \<Rightarrow> u64 \<Rightarrow> bool" where
  "adds_table m m' root path p \<longleftrightarrow> tbl m root path = None \<and>
     (\<forall>js. upath js \<longrightarrow> tbl m' root js = (if js = path then Some p else tbl m root js)) \<and>
     (\<forall>js j t. upath js \<longrightarrow> j < 512 \<longrightarrow> tbl m root js = Some t \<longrightarrow> j # js \<noteq> path \<longrightarrow> pte m' t j = pte m t j) \<and>
     (\<forall>j<512. pte m' p j = 0) \<and>
     (\<forall>t. tbl m root (tl path) = Some t \<longrightarrow>
        pte m t (hd path) AND PTE_PRESENT = 0 \<and> pte m' t (hd path) AND PTE_LARGE = 0)"

lemma adds_table_new: "adds_table m m' root path p \<Longrightarrow> upath path \<Longrightarrow> tbl m' root path = Some p"
  by (simp add: adds_table_def)

lemma adds_table_inv:
  assumes inv: "pt_inv m root F" and add: "adds_table m m' root path p" and path: "upath path" "path \<noteq> []"
    and p: "aligned 12 p" "span p 4096 \<subseteq> F" and par: "tbl m root (tl path) = Some t0"
    and pres: "pte m' t0 (hd path) AND PTE_PRESENT \<noteq> 0"
  shows "pt_inv m' root (F - span p 4096)" "tables m' root = tables m root \<union> span p 4096"
proof -
  have tb: "tbl m' root js = (if js = path then Some p else tbl m root js)" if "upath js" for js
    using add that by (simp add: adds_table_def)
  have new: "tbl m root js \<noteq> Some p" if "upath js" for js
  proof
    assume "tbl m root js = Some p"
    then have "span p 4096 \<inter> F = {}" using table_span [OF that] pt_invD(3) [OF inv] by blast
    moreover have "unat p \<in> span p 4096" by simp
    ultimately show False using p(2) by blast
  qed
  have none: "tbl m root path = None" using add by (simp add: adds_table_def)
  show tabs: "tables m' root = tables m root \<union> span p 4096"
  proof (rule set_eqI)
    fix x
    have "(\<exists>js t. upath js \<and> tbl m' root js = Some t \<and> x \<in> span t 4096) \<longleftrightarrow>
        (\<exists>js t. upath js \<and> tbl m root js = Some t \<and> x \<in> span t 4096) \<or> x \<in> span p 4096"
      using tb none path(1) by (metis option.inject option.distinct(1))
    then show "x \<in> tables m' root \<longleftrightarrow> x \<in> tables m root \<union> span p 4096" by (simp add: tables_iff)
  qed
  have inj: "is = js" if "upath is" "upath js" "tbl m' root is = Some t" "tbl m' root js = Some t" for "is" js t
    using that tb new pt_invD(5) [OF inv] by (metis (no_types, lifting) option.inject)
  have lp: "pte m' t i AND PTE_PRESENT \<noteq> 0"
    if h: "upath is" "length is = 2" "i < 512" "tbl m' root is = Some t" "pte m' t i AND PTE_LARGE \<noteq> 0" for "is" t i
  proof (cases "is = path")
    case True
    then have "pte m' t i = 0" using h tb [OF path(1)] add by (simp add: adds_table_def)
    then show ?thesis using h(5) by simp
  next
    case False
    then have old: "tbl m root is = Some t" using h(1,4) tb by simp
    show ?thesis
    proof (cases "i # is = path")
      case True
      then show ?thesis using pres par old by auto
    next
      case False
      then have "pte m' t i = pte m t i" using add h(1,3) old by (simp add: adds_table_def)
      then show ?thesis using pt_invD(6) [OF inv h(1-3) old] h(5) by simp
    qed
  qed
  have "tables m' root \<inter> (F - span p 4096) = {}" using tabs pt_invD(3) [OF inv] by blast
  moreover have "F - span p 4096 \<subseteq> {..<2 ^ 52}" using pt_invD(2) [OF inv] by blast
  ultimately show "pt_inv m' root (F - span p 4096)"
    unfolding pt_inv_def using pt_invD(1) [OF inv] inj lp by blast
qed

section \<open>The translation defined by the tree\<close>

definition leaf :: "ram \<Rightarrow> u64 \<Rightarrow> u64 \<Rightarrow> u64 option" where
  "leaf m pt v =
     (if pte m pt (pt_idx v) AND PTE_PRESENT = 0 then None
      else Some ((pte m pt (pt_idx v) AND PTE_ADDR_MASK) OR (v AND 0xFFF)))"

definition pd_path :: "u64 \<Rightarrow> nat list" where
  "pd_path v = [pdpt_idx v, pml4_idx v]"

definition lookup :: "ram \<Rightarrow> u64 \<Rightarrow> u64 \<Rightarrow> u64 option" where
  "lookup m root v =
     (case tbl m root (pd_path v) of
        None \<Rightarrow> None
      | Some pd \<Rightarrow>
          if pte m pd (pd_idx v) AND PTE_LARGE \<noteq> 0
          then Some ((pte m pd (pd_idx v) AND PTE_ADDR_MASK) + (v AND 0x1FFFFF))
          else (case tbl m root (pd_idx v # pd_path v) of None \<Rightarrow> None | Some pt \<Rightarrow> leaf m pt v))"

text \<open>Addresses of the lower half: the first level has its top bit clear.\<close>

definition user_addr :: "u64 \<Rightarrow> bool" where
  "user_addr v \<longleftrightarrow> pml4_idx v < 256"

lemma idx_less: "unat (x AND 0x1FF :: u64) < 512"
proof -
  have "(0x1FF :: u64) = mask 9" by (simp add: mask_eq_exp_minus_1)
  then have "x AND 0x1FF = take_bit 9 x" by (simp only: take_bit_eq_mask)
  then show ?thesis by (simp add: take_bit_eq_mod unat_mod)
qed

lemma idx_bounds [simp]: "pml4_idx v < 512" "pdpt_idx v < 512" "pd_idx v < 512" "pt_idx v < 512"
  unfolding pml4_idx_def pdpt_idx_def pd_idx_def pt_idx_def by (rule idx_less)+

lemma upath_paths [simp]:
  assumes "user_addr v"
  shows "upath [pml4_idx v]" "upath (pd_path v)" "upath (pd_idx v # pd_path v)"
  using assms by (simp_all add: upath_def user_addr_def pd_path_def)

lemma length_pd_path [simp]: "length (pd_path v) = 2"
  by (simp add: pd_path_def)

lemma get_table_phys:
  "get_table s (phys_to_virt (hhdm s) t) i =
     (if pte (ram s) t i AND PTE_PRESENT \<noteq> 0
      then Some (phys_to_virt (hhdm s) (pte (ram s) t i AND PTE_ADDR_MASK)) else None)"
  by (simp add: get_table_def is_present_def get_entry_phys)

lemma translate_lookup: "translate s sp v = lookup (ram s) (pml4_phys sp) v"
  by (simp add: translate_def lookup_def pml4_def get_table_phys get_entry_phys leaf_def pd_path_def Let_def)

lemma adds_table_lookup:
  assumes inv: "pt_inv m root F" and add: "adds_table m m' root path p"
    and path: "upath path" "path \<noteq> []" and v: "user_addr v"
  shows "lookup m' root v = lookup m root v"
proof -
  note up = upath_paths [OF v]
  have tb: "tbl m' root js = (if js = path then Some p else tbl m root js)" if "upath js" for js
    using add that by (simp add: adds_table_def)
  have old: "tbl m root path = None" using add by (simp add: adds_table_def)
  have cell: "pte m' t j = pte m t j" if "upath js" "j < 512" "tbl m root js = Some t" "j # js \<noteq> path" for js j t
    using add that by (simp add: adds_table_def)
  have zero: "pte m' p j = 0" if "j < 512" for j using add that by (simp add: adds_table_def)
  have leaf0: "leaf m' p v = None" by (simp add: leaf_def zero)
  have len: "length path \<le> 3" using path(1) by (simp add: upath_def)
  consider (pd) "pd_path v = path" | (pt) "pd_path v \<noteq> path" "pd_idx v # pd_path v = path"
    | (other) "pd_path v \<noteq> path" "pd_idx v # pd_path v \<noteq> path" by blast
  then show ?thesis
  proof cases
    case pd
    have "tbl m root (pd_idx v # pd_path v) = None" using old pd by simp
    moreover have "pd_idx v # pd_path v \<noteq> path" using pd by auto
    ultimately show ?thesis using tb [OF up(2)] tb [OF up(3)] pd old zero by (simp add: lookup_def)
  next
    case pt
    show ?thesis
    proof (cases "tbl m root (pd_path v)")
      case None
      then show ?thesis using tb [OF up(2)] pt by (simp add: lookup_def)
    next
      case (Some pd)
      have "pte m pd (pd_idx v) AND PTE_PRESENT = 0" using add Some pt(2) by (auto simp: adds_table_def)
      then have "pte m pd (pd_idx v) AND PTE_LARGE = 0"
        using pt_invD(6) [OF inv up(2) length_pd_path idx_bounds(3) Some] by blast
      moreover have "pte m' pd (pd_idx v) AND PTE_LARGE = 0"
        using add Some pt(2) by (auto simp: adds_table_def)
      ultimately show ?thesis
        using tb [OF up(2)] tb [OF up(3)] pt old Some leaf0 by (simp add: lookup_def)
    qed
  next
    case other
    have "leaf m' t v = leaf m t v" if "tbl m root (pd_idx v # pd_path v) = Some t" for t
    proof -
      have "pt_idx v # pd_idx v # pd_path v \<noteq> path" using len by auto
      then show ?thesis using cell [OF up(3) _ that] by (simp add: leaf_def)
    qed
    then show ?thesis
      using tb [OF up(2)] tb [OF up(3)] other cell [OF up(2), of "pd_idx v"]
      by (auto simp: lookup_def split: option.splits)
  qed
qed

section \<open>Adding a table\<close>

lemma load64_zero: "load64 (\<lambda>_. 0) a = 0"
  by (intro bit_word_eqI) (simp add: load64_def load_bytes_def bit_from_le_bytes)

lemma pte_zero:
  assumes "aligned 12 t" "i < 512" "\<And>x. unat x \<in> span t 4096 \<Longrightarrow> m x = 0"
  shows "pte m t i = 0"
proof -
  have "pte m t i = pte (\<lambda>_. 0) t i" using assms by (intro pte_cong) auto
  then show ?thesis by (simp add: pte_def load64_zero)
qed

lemma is_frame_aligned: "is_frame s p \<Longrightarrow> aligned 12 p"
  by (simp add: is_frame_def)

lemma alloc_zeroed_facts:
  assumes "free_space s F" "F \<subseteq> {..<2 ^ 52}" "alloc_zeroed_frame s = Some (p, s1)"
  shows "aligned 12 p" "unat p < 2 ^ 52" "span p 4096 \<subseteq> F" "unat p \<in> F"
proof -
  note z = alloc_zeroed_frame_law [OF assms(1,3)]
  show "aligned 12 p" "span p 4096 \<subseteq> F" using z is_frame_aligned by blast+
  moreover have "unat p \<in> span p 4096" by simp
  ultimately show "unat p \<in> F" by blast
  then show "unat p < 2 ^ 52" using assms(2) by blast
qed

lemma alloc_set_adds:
  assumes "free_space s F" and inv: "pt_inv (ram s) root F" and "upath (i # is)"
    and t: "tbl (ram s) root is = Some t" "pte (ram s) t i AND PTE_PRESENT = 0"
    and al: "alloc_zeroed_frame s = Some (p, s1)"
    and m': "m' = store64 (ram s1) (t + 8 * of_nat i) (p OR (PTE_WRITABLE OR PTE_USER) OR PTE_PRESENT)"
  shows "adds_table (ram s) m' root (i # is) p" "pte m' t i AND PTE_PRESENT \<noteq> 0"
proof -
  note z = alloc_zeroed_frame_law [OF assms(1) al]
  note p = alloc_zeroed_facts [OF assms(1) pt_invD(2) [OF inv] al]
  note up = upath_ConsD [OF assms(3)]
  note e = parent_entry [OF p(1,2)]
  have off: "span t' 4096 \<inter> F = {}" if "upath js" "tbl (ram s) root js = Some t'" for js t'
    using table_span [OF that] pt_invD(3) [OF inv] by blast
  have alt: "aligned 12 t" by (rule pt_invD(4) [OF inv up(1) t(1)])
  have cell: "pte m' t' j = pte (ram s) t' j"
    if js: "upath js" "j < 512" "tbl (ram s) root js = Some t'" "j # js \<noteq> i # is" for js j t'
  proof -
    have al': "aligned 12 t'" by (rule pt_invD(4) [OF inv js(1,3)])
    have "pte m' t' j = pte (ram s1) t' j"
      unfolding m' using alt al' up(2) js(2) cell_unique [OF inv up(1) js(1) t(1) js(3,4)]
      by (rule pte_store_other)
    also have "\<dots> = pte (ram s) t' j"
      using al' js(2) off [OF js(1,3)] z(6) by (intro pte_cong) auto
    finally show ?thesis .
  qed
  have own: "pte m' t i = p OR (PTE_WRITABLE OR PTE_USER) OR PTE_PRESENT"
    unfolding m' by (rule pte_store_same)
  have "t \<noteq> p"
    using off [OF up(1) t(1)] p(4) by (metis IntI empty_iff in_span_self zero_less_numeral)
  then have zero: "pte m' p j = 0" if "j < 512" for j
    unfolding m' using that alt p(1) up(2) z(5) pte_zero [of p j "ram s1"]
    by (subst pte_store_other) auto
  have same: "tbl m' root js = tbl (ram s) root js" if "upath js" "\<And>ks. js \<noteq> ks @ i # is" for js
    using that cell upath_ConsD by (intro tbl_frame [where path = "i # is"]) blast+
  have none: "tbl (ram s) root (i # is) = None" using t by simp
  have "tbl m' root is = Some t" using same [OF up(1)] t(1) by fastforce
  then have new: "tbl m' root (i # is) = Some p" using e own by simp
  have "tbl m' root js = (if js = i # is then Some p else tbl (ram s) root js)" if "upath js" for js
  proof (cases "\<exists>ks. js = ks @ i # is")
    case True
    then obtain ks where ks: "js = ks @ i # is" by blast
    show ?thesis
    proof (cases ks rule: rev_cases)
      case Nil
      then show ?thesis using ks new by simp
    next
      case (snoc ks' k)
      have "k < 512" using that by (simp add: ks snoc upath_def)
      then have "tbl m' root (k # i # is) = None" using new zero by simp
      then have "tbl m' root js = None" using tbl_None_below [of m' root "k # i # is" ks'] by (simp add: ks snoc)
      moreover have "tbl (ram s) root js = None" unfolding ks by (rule tbl_None_below [OF none])
      moreover have "js \<noteq> i # is" by (simp add: ks snoc)
      ultimately show ?thesis by simp
    qed
  next
    case False
    then have "js \<noteq> i # is" by (metis append_Nil)
    then show ?thesis using same [OF that] False by simp
  qed
  then show "adds_table (ram s) m' root (i # is) p"
    using none cell zero t e(2) unfolding adds_table_def by (simp add: own)
  show "pte m' t i AND PTE_PRESENT \<noteq> 0" using e(1) own by simp
qed

text \<open>No large page is mapped where a table for \<open>v\<close> is wanted.\<close>

definition no_large :: "ram \<Rightarrow> u64 \<Rightarrow> u64 \<Rightarrow> bool" where
  "no_large m root v \<longleftrightarrow> (\<forall>pd. tbl m root (pd_path v) = Some pd \<longrightarrow> pte m pd (pd_idx v) AND PTE_LARGE = 0)"

lemma adds_table_no_large:
  assumes "adds_table m m' root path p" "upath path" "user_addr v" "no_large m root v"
  shows "no_large m' root v"
proof (cases "pd_path v = path")
  case True
  then show ?thesis using assms(1) upath_paths(2) [OF assms(3)] by (simp add: no_large_def adds_table_def)
next
  case False
  have "tbl m' root (pd_path v) = tbl m root (pd_path v)"
    using False assms(1) upath_paths(2) [OF assms(3)] by (simp add: adds_table_def)
  moreover have "pte m' pd (pd_idx v) AND PTE_LARGE = 0" if pd: "tbl m root (pd_path v) = Some pd" for pd
  proof (cases "pd_idx v # pd_path v = path")
    case True
    then show ?thesis using assms(1) pd by (auto simp: adds_table_def)
  next
    case False
    then have "pte m' pd (pd_idx v) = pte m pd (pd_idx v)"
      using assms(1) pd upath_paths(2) [OF assms(3)] by (simp add: adds_table_def)
    then show ?thesis using assms(4) pd by (simp add: no_large_def)
  qed
  ultimately show ?thesis by (simp add: no_large_def)
qed

text \<open>
  What the steps of an operation on one address space keep: the allocator's and the tree's
  invariants, the frames owned by either together, the translation, and all other memory.
\<close>

definition quiet :: "u64 \<Rightarrow> kmem \<Rightarrow> nat set \<Rightarrow> kmem \<Rightarrow> nat set \<Rightarrow> bool" where
  "quiet root s F s' F' \<longleftrightarrow> F' \<subseteq> F \<and> free_space s' F' \<and> pt_inv (ram s') root F' \<and> hhdm s' = hhdm s \<and>
     F' \<union> tables (ram s') root = F \<union> tables (ram s) root \<and>
     (\<forall>v. user_addr v \<longrightarrow> lookup (ram s') root v = lookup (ram s) root v) \<and>
     (\<forall>v. user_addr v \<longrightarrow> no_large (ram s) root v \<longrightarrow> no_large (ram s') root v) \<and>
     (\<forall>x. unat x \<notin> F \<union> tables (ram s) root \<longrightarrow> ram s' x = ram s x)"

lemma quiet_refl: "free_space s F \<Longrightarrow> pt_inv (ram s) root F \<Longrightarrow> quiet root s F s F"
  by (simp add: quiet_def)

lemma quiet_trans: "quiet root s F s1 F1 \<Longrightarrow> quiet root s1 F1 s2 F2 \<Longrightarrow> quiet root s F s2 F2"
  unfolding quiet_def by (elim conjE) (intro conjI; simp; blast)

text \<open>
  The result of at most \<open>n\<close> calls of \<open>get_or_alloc_table\<close>: the table at \<open>path\<close>, or none because no
  frame is left; at most one frame per call is used up.
\<close>

definition walks :: "nat \<Rightarrow> u64 \<Rightarrow> kmem \<Rightarrow> nat set \<Rightarrow> nat list \<Rightarrow> u64 option \<Rightarrow> kmem \<Rightarrow> nat set \<Rightarrow> bool" where
  "walks n root s F path r s' F' \<longleftrightarrow> quiet root s F s' F' \<and> card F \<le> card F' + n * 4096 \<and>
     (case r of None \<Rightarrow> F' = {}
      | Some ptr \<Rightarrow> \<exists>t. ptr = phys_to_virt (hhdm s') t \<and> tbl (ram s') root path = Some t)"

lemma get_or_alloc_step:
  assumes fs: "free_space s F" and inv: "pt_inv (ram s) root F" and up: "upath (i # is)"
    and t: "tbl (ram s) root is = Some t" and nl: "length is = 2 \<longrightarrow> pte (ram s) t i AND PTE_LARGE = 0"
    and g: "get_or_alloc_table s (phys_to_virt (hhdm s) t) i (PTE_WRITABLE OR PTE_USER) = (r, s')"
  shows "\<exists>F'. walks 1 root s F (i # is) r s' F'"
proof (cases "pte (ram s) t i AND PTE_PRESENT = 0")
  case False
  then have "s' = s" "r = Some (phys_to_virt (hhdm s) (pte (ram s) t i AND PTE_ADDR_MASK))"
    using g by (auto simp: get_or_alloc_table_def is_present_def get_entry_phys)
  moreover have "tbl (ram s) root (i # is) = Some (pte (ram s) t i AND PTE_ADDR_MASK)"
    using False t nl by simp
  ultimately show ?thesis using quiet_refl [OF fs inv] by (auto simp: walks_def simp del: tbl.simps)
next
  case np: True
  show ?thesis
  proof (cases "alloc_zeroed_frame s")
    case None
    then have "s' = s" "r = None"
      using g np by (auto simp: get_or_alloc_table_def is_present_def get_entry_phys)
    moreover have "F = {}" using alloc_None_empty [OF fs] None by (simp add: alloc_zeroed_frame_None)
    ultimately show ?thesis using quiet_refl [OF fs inv] by (auto simp: walks_def)
  next
    case (Some ps)
    obtain p s1 where ps: "alloc_zeroed_frame s = Some (p, s1)" using Some by (cases ps) auto
    note z = alloc_zeroed_frame_law [OF fs ps]
    note pf = alloc_zeroed_facts [OF fs pt_invD(2) [OF inv] ps]
    let ?e = "p OR (PTE_WRITABLE OR PTE_USER) OR PTE_PRESENT"
    let ?m = "store64 (ram s1) (t + 8 * of_nat i) ?e"
    note ad = alloc_set_adds [OF fs inv up t np ps refl]
    have st: "s' = s1\<lparr>ram := ?m\<rparr>" "r = Some (phys_to_virt (hhdm s') p)"
    proof -
      have se: "set_entry s1 (phys_to_virt (hhdm s) t) i ?e = s1\<lparr>ram := ?m\<rparr>"
        by (rule set_entry_phys) (simp add: z(4))
      have ge: "get_entry (s1\<lparr>ram := ?m\<rparr>) (phys_to_virt (hhdm s) t) i = ?e"
        using get_entry_phys [of "s1\<lparr>ram := ?m\<rparr>" t i] z(4) by (simp add: pte_store_same)
      have "get_or_alloc_table s (phys_to_virt (hhdm s) t) i (PTE_WRITABLE OR PTE_USER) =
          (Some (phys_to_virt (hhdm s1) p), s1\<lparr>ram := ?m\<rparr>)"
        using np parent_entry(3) [OF pf(1,2)]
        by (simp add: get_or_alloc_table_def is_present_def get_entry_phys ps se ge)
      then show "s' = s1\<lparr>ram := ?m\<rparr>" "r = Some (phys_to_virt (hhdm s') p)" using g by auto
    qed
    have i: "i < 512" and alt: "aligned 12 t"
      using up upath_ConsD(2) pt_invD(4) [OF inv upath_ConsD(1) [OF up] t] by auto
    have tsp: "span t 4096 \<subseteq> tables (ram s) root" using table_span [OF upath_ConsD(1) [OF up] t] .
    have off: "?m x = ram s1 x" if "unat x \<notin> tables (ram s) root" for x
      using that tsp cell_span [OF alt i] by (intro store64_other cell_bound [OF alt i]) blast
    have "free_space s' (F - span p 4096)"
      unfolding st(1) using z(3) off pt_invD(3) [OF inv] by (intro pmm_mem.set_mem_free) auto
    moreover have "pt_inv ?m root (F - span p 4096)" "tables ?m root = tables (ram s) root \<union> span p 4096"
      using t ad(2) by (simp_all add: adds_table_inv [OF inv ad(1) up _ pf(1,3), where ?t0.0 = t])
    moreover have "lookup ?m root v = lookup (ram s) root v" if "user_addr v" for v
      using adds_table_lookup [OF inv ad(1) up _ that] by simp
    moreover have "no_large ?m root v" if "user_addr v" "no_large (ram s) root v" for v
      using adds_table_no_large [OF ad(1) up that] .
    moreover have "?m x = ram s x" if "unat x \<notin> F \<union> tables (ram s) root" for x
      using that off z(6) by simp
    ultimately have "quiet root s F s' (F - span p 4096)"
      unfolding quiet_def using z(4) pf(3) by (auto simp: st(1))
    moreover have "tbl (ram s') root (i # is) = Some p" using adds_table_new [OF ad(1) up] unfolding st(1) by simp
    moreover have "card F \<le> card (F - span p 4096) + 4096"
      using diff_card_le_card_Diff [of "span p 4096" F] by simp
    ultimately show ?thesis using st(2) by (auto simp: walks_def simp del: tbl.simps)
  qed
qed

section \<open>Writing a leaf entry\<close>

definition same_page :: "u64 \<Rightarrow> u64 \<Rightarrow> bool" where
  "same_page v w \<longleftrightarrow> pt_idx v = pt_idx w \<and> pd_idx v = pd_idx w \<and> pd_path v = pd_path w"

lemma store_cell_off_path:
  assumes inv: "pt_inv m root F" and up: "upath is" "i < 512" and t: "tbl m root is = Some t"
    and js: "upath js" "j < 512" "tbl m root js = Some t'" "j # js \<noteq> i # is"
  shows "pte (store64 m (t + 8 * of_nat i) val) t' j = pte m t' j"
  using pt_invD(4) [OF inv up(1) t] pt_invD(4) [OF inv js(1,3)] up(2) js(2)
    cell_unique [OF inv up(1) js(1) t js(3,4)]
  by (rule pte_store_other)

lemma pt_inv_same:
  assumes inv: "pt_inv m root F" and F: "F' \<subseteq> F"
    and same: "\<And>js. upath js \<Longrightarrow> tbl m' root js = tbl m root js"
    and cell: "\<And>js j t. upath js \<Longrightarrow> length js = 2 \<Longrightarrow> j < 512 \<Longrightarrow> tbl m root js = Some t \<Longrightarrow> pte m' t j = pte m t j"
  shows "pt_inv m' root F'" "tables m' root = tables m root"
proof -
  show tabs: "tables m' root = tables m root" using same by (simp add: set_eq_iff tables_iff cong: conj_cong)
  show "pt_inv m' root F'"
    unfolding pt_inv_def tabs
  proof (intro conjI allI impI)
    show "aligned 12 root" "F' \<subseteq> {..<2 ^ 52}" "tables m root \<inter> F' = {}"
      using pt_invD(1-3) [OF inv] F by blast+
    show "is = js" if "upath is" "upath js" "tbl m' root is = Some t" "tbl m' root js = Some t" for "is" js t
      using that pt_invD(5) [OF inv that(1,2)] same by simp
    show "pte m' t i AND PTE_PRESENT \<noteq> 0"
      if "upath is" "length is = 2" "i < 512" "tbl m' root is = Some t" "pte m' t i AND PTE_LARGE \<noteq> 0" for "is" t i
    proof -
      have t: "tbl m root is = Some t" using that(1,4) same by simp
      show ?thesis using pt_invD(6) [OF inv that(1-3) t] that(5) cell [OF that(1-3) t] by simp
    qed
  qed
qed

lemma leaf_store:
  fixes val :: u64
  assumes inv: "pt_inv m root F" and v: "user_addr v" and pt: "tbl m root (pd_idx v # pd_path v) = Some pt"
  defines "m' \<equiv> store64 m (pt + 8 * of_nat (pt_idx v)) val"
  shows "pt_inv m' root F" "tables m' root = tables m root"
    and "user_addr w \<Longrightarrow> lookup m' root w =
      (if same_page w v then (if val AND PTE_PRESENT = 0 then None
                              else Some ((val AND PTE_ADDR_MASK) OR (w AND 0xFFF)))
       else lookup m root w)"
    and "user_addr w \<Longrightarrow> no_large m' root w \<longleftrightarrow> no_large m root w"
    and "unat x \<notin> tables m root \<Longrightarrow> m' x = m x"
proof -
  note up = upath_paths [OF v]
  let ?path = "pt_idx v # pd_idx v # pd_path v"
  have cell: "pte m' t j = pte m t j" if "upath js" "j < 512" "tbl m root js = Some t" "j # js \<noteq> ?path" for js j t
    unfolding m'_def by (rule store_cell_off_path [OF inv up(3) idx_bounds(4) pt that])
  have long: "\<not> upath (ks @ ?path)" for ks by (simp add: upath_def)
  have same: "tbl m' root js = tbl m root js" if "upath js" for js
  proof (rule tbl_frame [OF _ that])
    show "pte m' t j = pte m t j" if "upath (j # js)" "tbl m root js = Some t" "j # js \<noteq> ?path" for js j t
      using cell that upath_ConsD by blast
    show "js \<noteq> ks @ ?path" for ks using that long by blast
  qed
  have pdc: "pte m' t j = pte m t j" if "upath js" "length js = 2" "j < 512" "tbl m root js = Some t" for js j t
  proof -
    have "j # js \<noteq> ?path" using that(2) by auto
    then show ?thesis by (rule cell [OF that(1,3,4)])
  qed
  show "pt_inv m' root F" "tables m' root = tables m root"
    by (rule pt_inv_same [OF inv subset_refl same pdc]; assumption)+
  show "no_large m' root w \<longleftrightarrow> no_large m root w" if "user_addr w"
    using same [OF upath_paths(2) [OF that]] pdc [OF upath_paths(2) [OF that] length_pd_path idx_bounds(3)]
    by (auto simp: no_large_def)
  have own: "pte m' pt (pt_idx v) = val" unfolding m'_def by (rule pte_store_same)
  show "lookup m' root w = (if same_page w v then (if val AND PTE_PRESENT = 0 then None
          else Some ((val AND PTE_ADDR_MASK) OR (w AND 0xFFF))) else lookup m root w)" if w: "user_addr w"
  proof (cases "same_page w v")
    case True
    then have e: "pt_idx w = pt_idx v" "pd_idx w = pd_idx v" "pd_path w = pd_path v" by (auto simp: same_page_def)
    obtain pd where pd: "tbl m root (pd_path v) = Some pd" "pte m pd (pd_idx v) AND PTE_LARGE = 0"
      using pt by (auto split: option.splits if_splits)
    then show ?thesis
      using True same [OF up(2)] same [OF up(3)] pt own pdc [OF up(2) length_pd_path idx_bounds(3) pd(1)]
      by (simp add: lookup_def e leaf_def del: tbl.simps)
  next
    case False
    note uw = upath_paths [OF w]
    have "leaf m' t w = leaf m t w" if "tbl m root (pd_idx w # pd_path w) = Some t" for t
      using cell [OF uw(3) idx_bounds(4) that] False by (auto simp: leaf_def same_page_def)
    then show ?thesis
      using False same [OF uw(2)] same [OF uw(3)] pdc [OF uw(2) length_pd_path idx_bounds(3)]
      by (auto simp: lookup_def simp del: tbl.simps split: option.splits)
  qed
  have al: "aligned 12 pt" by (rule pt_invD(4) [OF inv up(3) pt])
  show "m' x = m x" if "unat x \<notin> tables m root"
    unfolding m'_def using that table_span [OF up(3) pt] cell_span [OF al idx_bounds(4)]
    by (intro store64_other cell_bound [OF al idx_bounds(4)]) blast
qed

text \<open>Writing to a table does not disturb the allocator.\<close>

lemma set_tables_free:
  assumes "free_space s F" "pt_inv (ram s) root F" "\<And>x. unat x \<notin> tables (ram s) root \<Longrightarrow> m x = ram s x"
  shows "free_space (s\<lparr>ram := m\<rparr>) F"
  using assms pt_invD(3) [OF assms(2)] by (intro pmm_mem.set_mem_free) auto

section \<open>Mapping a page\<close>

text \<open>The walk of \<open>map\<close> and \<open>map_large\<close> to the page directory, allocating what is missing.\<close>

definition walk_pd :: "kmem \<Rightarrow> address_space \<Rightarrow> u64 \<Rightarrow> u64 option \<times> kmem" where
  "walk_pd s sp v =
     (case get_or_alloc_table s (pml4 s sp) (pml4_idx v) (PTE_WRITABLE OR PTE_USER) of
        (None, s1) \<Rightarrow> (None, s1)
      | (Some pdpt, s1) \<Rightarrow> get_or_alloc_table s1 pdpt (pdpt_idx v) (PTE_WRITABLE OR PTE_USER))"

lemma map_page_walk_pd:
  "map_page s sp v p flags =
     (case walk_pd s sp v of
        (None, s1) \<Rightarrow> (False, s1)
      | (Some pd, s1) \<Rightarrow>
          (case get_or_alloc_table s1 pd (pd_idx v) (PTE_WRITABLE OR PTE_USER) of
             (None, s2) \<Rightarrow> (False, s2)
           | (Some pt, s2) \<Rightarrow>
               (True, set_entry s2 pt (pt_idx v) ((p AND PTE_ADDR_MASK) OR flags OR PTE_PRESENT))))"
  by (simp add: map_page_def walk_pd_def Let_def split: prod.splits option.splits)

lemma walks_trans:
  assumes "walks k root s F path r s1 F1" "walks n root s1 F1 path' r' s2 F2"
  shows "walks (k + n) root s F path' r' s2 F2"
proof -
  have "quiet root s F s1 F1" "quiet root s1 F1 s2 F2" using assms by (simp_all add: walks_def)
  then have "quiet root s F s2 F2" by (rule quiet_trans)
  then show ?thesis using assms by (simp add: walks_def distrib_right)
qed

lemma walks_mono: "walks k root s F path r s1 F1 \<Longrightarrow> k \<le> n \<Longrightarrow> walks n root s F path r s1 F1"
  by (auto simp: walks_def intro: order_trans)

lemma quietD:
  assumes "quiet root s F s' F'"
  shows "free_space s' F'" "pt_inv (ram s') root F'" "hhdm s' = hhdm s"
    and "user_addr v \<Longrightarrow> lookup (ram s') root v = lookup (ram s) root v"
    and "user_addr v \<Longrightarrow> no_large (ram s) root v \<Longrightarrow> no_large (ram s') root v"
  using assms unfolding quiet_def by blast+

lemma walk_pd_step:
  assumes fs: "free_space s F" and inv: "pt_inv (ram s) (pml4_phys sp) F" and v: "user_addr v"
    and w: "walk_pd s sp v = (r, s')"
  shows "\<exists>F'. walks 2 (pml4_phys sp) s F (pd_path v) r s' F'"
proof -
  let ?root = "pml4_phys sp" and ?fl = "PTE_WRITABLE OR PTE_USER"
  note up = upath_paths [OF v]
  obtain r1 s1 where g1: "get_or_alloc_table s (phys_to_virt (hhdm s) ?root) (pml4_idx v) ?fl = (r1, s1)"
    by (meson surj_pair)
  obtain F1 where w1: "walks 1 ?root s F [pml4_idx v] r1 s1 F1"
    using get_or_alloc_step [OF fs inv up(1) tbl.simps(1) _ g1] by auto
  show ?thesis
  proof (cases r1)
    case None
    then have "r = None" "s' = s1" using w g1 by (simp_all add: walk_pd_def pml4_def)
    then show ?thesis using w1 None by (auto simp: walks_def)
  next
    case (Some ptr)
    then obtain t where t: "ptr = phys_to_virt (hhdm s1) t" "tbl (ram s1) ?root [pml4_idx v] = Some t"
      and q: "quiet ?root s F s1 F1" using w1 by (auto simp: walks_def simp del: tbl.simps)
    have g2: "get_or_alloc_table s1 (phys_to_virt (hhdm s1) t) (pdpt_idx v) ?fl = (r, s')"
      using w g1 Some t(1) by (simp add: walk_pd_def pml4_def)
    obtain F2 where "walks 1 ?root s1 F1 (pd_path v) r s' F2"
      using get_or_alloc_step [OF quietD(1,2) [OF q] up(2) [unfolded pd_path_def] t(2) _ g2]
      unfolding pd_path_def by auto
    from walks_trans [OF w1 this] show ?thesis unfolding one_add_one by blast
  qed
qed

lemma map_page_walk:
  assumes fs: "free_space s F" and inv: "pt_inv (ram s) (pml4_phys sp) F"
    and v: "user_addr v" and nl: "no_large (ram s) (pml4_phys sp) v"
    and mp: "map_page s sp v p flags = (b, s')"
  shows "\<exists>s1 F1. quiet (pml4_phys sp) s F s1 F1 \<and> card F \<le> card F1 + 3 * 4096 \<and>
    (if b then \<exists>pt. tbl (ram s1) (pml4_phys sp) (pd_idx v # pd_path v) = Some pt \<and>
         s' = s1\<lparr>ram := store64 (ram s1) (pt + 8 * of_nat (pt_idx v))
                          ((p AND PTE_ADDR_MASK) OR flags OR PTE_PRESENT)\<rparr>
     else s' = s1 \<and> F1 = {})"
proof -
  let ?root = "pml4_phys sp" and ?fl = "PTE_WRITABLE OR PTE_USER"
  note up = upath_paths [OF v]
  obtain r1 s1 where g1: "walk_pd s sp v = (r1, s1)" by (meson surj_pair)
  obtain F1 where w1: "walks 2 ?root s F (pd_path v) r1 s1 F1" using walk_pd_step [OF fs inv v g1] by blast
  show ?thesis
  proof (cases r1)
    case None
    then have "b = False" "s' = s1" using mp g1 by (simp_all add: map_page_walk_pd)
    then show ?thesis using w1 None by (auto simp: walks_def)
  next
    case (Some ptr)
    then obtain t where t: "ptr = phys_to_virt (hhdm s1) t" "tbl (ram s1) ?root (pd_path v) = Some t"
      and q: "quiet ?root s F s1 F1" using w1 by (auto simp: walks_def)
    obtain r2 s2 where g2: "get_or_alloc_table s1 (phys_to_virt (hhdm s1) t) (pd_idx v) ?fl = (r2, s2)"
      by (meson surj_pair)
    have "pte (ram s1) t (pd_idx v) AND PTE_LARGE = 0"
      using quietD(5) [OF q v nl] t(2) by (auto simp: no_large_def)
    then obtain F2 where "walks 1 ?root s1 F1 (pd_idx v # pd_path v) r2 s2 F2"
      using get_or_alloc_step [OF quietD(1,2) [OF q] up(3) t(2) _ g2] by blast
    from walks_trans [OF w1 this] have w2: "walks 3 ?root s F (pd_idx v # pd_path v) r2 s2 F2" by simp
    show ?thesis
    proof (cases r2)
      case None
      then have "b = False" "s' = s2" using mp g1 g2 Some t(1) by (simp_all add: map_page_walk_pd)
      then show ?thesis using w2 None by (auto simp: walks_def)
    next
      case (Some ptr2)
      then obtain pt where pt: "ptr2 = phys_to_virt (hhdm s2) pt" "tbl (ram s2) ?root (pd_idx v # pd_path v) = Some pt"
        and q2: "quiet ?root s F s2 F2" "card F \<le> card F2 + 3 * 4096"
        using w2 by (auto simp: walks_def simp del: tbl.simps)
      have "b" "s' = set_entry s2 (phys_to_virt (hhdm s2) pt) (pt_idx v) ((p AND PTE_ADDR_MASK) OR flags OR PTE_PRESENT)"
        using mp g1 g2 \<open>r1 = Some ptr\<close> Some t(1) pt(1) by (simp_all add: map_page_walk_pd)
      then show ?thesis using q2 pt(2) set_entry_phys [OF refl] by auto
    qed
  qed
qed

lemma leaf_entry_bits:
  fixes p flags :: u64
  assumes "flags AND PTE_ADDR_MASK = 0"
  defines "e \<equiv> (p AND PTE_ADDR_MASK) OR flags OR PTE_PRESENT"
  shows "e AND PTE_PRESENT = 0 \<longleftrightarrow> False" "e AND PTE_ADDR_MASK = p AND PTE_ADDR_MASK"
proof -
  have "e AND PTE_PRESENT \<noteq> 0" unfolding present_iff by (simp add: e_def bit_or_iff PTE_PRESENT_def)
  then show "e AND PTE_PRESENT = 0 \<longleftrightarrow> False" by simp
  have "PTE_PRESENT AND PTE_ADDR_MASK = 0" by (simp add: PTE_PRESENT_def PTE_ADDR_MASK_def)
  then show "e AND PTE_ADDR_MASK = p AND PTE_ADDR_MASK"
    by (simp add: e_def bit.conj_disj_distrib2 mask_mask assms(1))
qed

text \<open>What an operation on one address space keeps when it changes the translation to \<open>f\<close>.\<close>

definition remaps :: "u64 \<Rightarrow> kmem \<Rightarrow> nat set \<Rightarrow> kmem \<Rightarrow> nat set \<Rightarrow> (u64 \<Rightarrow> u64 option) \<Rightarrow> bool" where
  "remaps root s F s' F' f \<longleftrightarrow> F' \<subseteq> F \<and> free_space s' F' \<and> pt_inv (ram s') root F' \<and> hhdm s' = hhdm s \<and>
     F' \<union> tables (ram s') root = F \<union> tables (ram s) root \<and>
     (\<forall>v. user_addr v \<longrightarrow> lookup (ram s') root v = f v) \<and>
     (\<forall>v. user_addr v \<longrightarrow> no_large (ram s) root v \<longrightarrow> no_large (ram s') root v) \<and>
     (\<forall>x. unat x \<notin> F \<union> tables (ram s) root \<longrightarrow> ram s' x = ram s x)"

lemma leaf_store_remaps:
  assumes q: "quiet root s F s1 F1" and v: "user_addr v"
    and pt: "tbl (ram s1) root (pd_idx v # pd_path v) = Some pt"
    and s': "s' = s1\<lparr>ram := store64 (ram s1) (pt + 8 * of_nat (pt_idx v)) val\<rparr>"
  shows "remaps root s F s' F1
    (\<lambda>w. if same_page w v then (if val AND PTE_PRESENT = 0 then None
                              else Some ((val AND PTE_ADDR_MASK) OR (w AND 0xFFF)))
         else lookup (ram s) root w)"
proof -
  note ls = leaf_store [OF quietD(2) [OF q] v pt, where val = val]
  have "free_space s' F1"
    unfolding s' using ls(5) by (intro set_tables_free [OF quietD(1,2) [OF q]])
  moreover have "ram s' x = ram s x" if "unat x \<notin> F \<union> tables (ram s) root" for x
    using that q ls(5) [of x] unfolding quiet_def s' by auto
  moreover have "lookup (ram s1) root w = lookup (ram s) root w" if "user_addr w" for w
    by (rule quietD(4) [OF q that])
  ultimately show ?thesis
    using q ls(1-4) by (simp add: remaps_def quiet_def s')
qed

lemma map_page_law:
  assumes "free_space s F" "pt_inv (ram s) (pml4_phys sp) F" "user_addr v" "no_large (ram s) (pml4_phys sp) v"
    and "flags AND PTE_ADDR_MASK = 0" "map_page s sp v p flags = (b, s')"
  shows "\<exists>F'. remaps (pml4_phys sp) s F s' F'
     (\<lambda>w. if b \<and> same_page w v then Some ((p AND PTE_ADDR_MASK) OR (w AND 0xFFF))
          else lookup (ram s) (pml4_phys sp) w) \<and> card F \<le> card F' + 3 * 4096 \<and> (\<not> b \<longrightarrow> F' = {})"
proof -
  let ?e = "(p AND PTE_ADDR_MASK) OR flags OR PTE_PRESENT"
  obtain s1 F1 where q: "quiet (pml4_phys sp) s F s1 F1" and c: "card F \<le> card F1 + 3 * 4096" and
    r: "if b then \<exists>pt. tbl (ram s1) (pml4_phys sp) (pd_idx v # pd_path v) = Some pt \<and>
         s' = s1\<lparr>ram := store64 (ram s1) (pt + 8 * of_nat (pt_idx v)) ?e\<rparr>
     else s' = s1 \<and> F1 = {}"
    using map_page_walk [OF assms(1-4,6)] by blast
  show ?thesis
  proof (cases b)
    case True
    then obtain pt where "tbl (ram s1) (pml4_phys sp) (pd_idx v # pd_path v) = Some pt"
      "s' = s1\<lparr>ram := store64 (ram s1) (pt + 8 * of_nat (pt_idx v)) ?e\<rparr>" using r by auto
    from leaf_store_remaps [OF q assms(3) this] show ?thesis
      unfolding leaf_entry_bits [OF assms(5), of p] if_False using True c by auto
  next
    case False
    then show ?thesis using q r c by (auto simp: remaps_def quiet_def)
  qed
qed

text \<open>Four free frames are enough for the tables.\<close>

lemma map_page_succeeds:
  assumes "free_space s F" "pt_inv (ram s) (pml4_phys sp) F" "user_addr v" "no_large (ram s) (pml4_phys sp) v"
    and "flags AND PTE_ADDR_MASK = 0" "map_page s sp v p flags = (b, s')" "3 * 4096 < card F"
  shows b
proof (rule ccontr)
  assume "\<not> b"
  with map_page_law [OF assms(1-6)] have "card F \<le> card ({} :: nat set) + 3 * 4096" by metis
  then show False using assms(7) by simp
qed

lemma unmap_law:
  assumes "free_space s F" "pt_inv (ram s) (pml4_phys sp) F" "user_addr v" "no_large (ram s) (pml4_phys sp) v"
  shows "remaps (pml4_phys sp) s F (unmap s sp v) F
     (\<lambda>w. if same_page w v then None else lookup (ram s) (pml4_phys sp) w)"
proof (cases "tbl (ram s) (pml4_phys sp) (pd_idx v # pd_path v)")
  case (Some pt)
  have "unmap s sp v = s\<lparr>ram := store64 (ram s) (pt + 8 * of_nat (pt_idx v)) 0\<rparr>"
    using Some by (auto simp: unmap_def pml4_def get_table_phys pd_path_def set_entry_phys
        split: option.splits if_splits)
  from leaf_store_remaps [OF quiet_refl [OF assms(1,2)] assms(3) Some this] show ?thesis by (simp cong: if_cong)
next
  case None
  have "unmap s sp v = s"
    using None assms(4) by (auto simp: unmap_def pml4_def get_table_phys pd_path_def no_large_def split: option.splits)
  moreover have "lookup (ram s) (pml4_phys sp) w = None" if "same_page w v" for w
    using None that assms(4)
    by (auto simp: lookup_def same_page_def no_large_def simp del: tbl.simps split: option.splits)
  ultimately show ?thesis using quiet_refl [OF assms(1,2)] by (auto simp: remaps_def quiet_def)
qed

section \<open>Memory writes that miss the tables\<close>

lemma pt_same:
  assumes inv: "pt_inv m root F" and eq: "\<And>x. unat x \<in> tables m root \<Longrightarrow> m' x = m x" and F: "F' \<subseteq> F"
  shows "pt_inv m' root F'" "tables m' root = tables m root"
    and "user_addr v \<Longrightarrow> lookup m' root v = lookup m root v"
    and "user_addr v \<Longrightarrow> no_large m' root v \<longleftrightarrow> no_large m root v"
proof -
  have cell: "pte m' t j = pte m t j" if "upath js" "j < 512" "tbl m root js = Some t" for js j t
    using pt_invD(4) [OF inv that(1,3)] that(2) eq table_span [OF that(1,3)] by (intro pte_cong) auto
  have same: "tbl m' root js = tbl m root js" if "upath js" for js
  proof (rule tbl_frame [where path = "[0, 0, 0, 0]", OF _ that])
    show "pte m' t j = pte m t j" if "upath (j # js)" "tbl m root js = Some t" for js j t
      using cell that upath_ConsD by blast
    show "js \<noteq> ks @ [0, 0, 0, 0]" for ks using that by (auto simp: upath_def)
  qed
  show "pt_inv m' root F'" "tables m' root = tables m root"
    by (rule pt_inv_same [OF inv F same cell]; assumption)+
  assume v: "user_addr v"
  note up = upath_paths [OF v]
  have "leaf m' t v = leaf m t v" if "tbl m root (pd_idx v # pd_path v) = Some t" for t
    using cell [OF up(3) idx_bounds(4) that] by (simp add: leaf_def)
  then show "lookup m' root v = lookup m root v"
    using same [OF up(2)] same [OF up(3)] cell [OF up(2) idx_bounds(3)]
    by (auto simp: lookup_def simp del: tbl.simps split: option.splits)
  show "no_large m' root v \<longleftrightarrow> no_large m root v"
    using same [OF up(2)] cell [OF up(2) idx_bounds(3)] by (auto simp: no_large_def)
qed

end
