(* ===== verification/Paging.thy ===== *)
theory Paging
  imports PageTables
begin

text \<open>
  Page faults, creation and destruction of address spaces (\<open>mm/vmm.rs\<close>), on top of the tree of
  \<open>PageTables\<close>: the demand and copy-on-write handlers, \<open>new_user\<close> and the nested loops of
  \<open>free_user_page_tables\<close>, with the properties of the virtual memory manager.
\<close>

unbundle bit_operations_syntax

section \<open>Page faults\<close>

lemma align_down_idx:
  "pml4_idx (align_down v 4096) = pml4_idx v" "pdpt_idx (align_down v 4096) = pdpt_idx v"
  "pd_idx (align_down v 4096) = pd_idx v" "pt_idx (align_down v 4096) = pt_idx v"
proof -
  have "drop_bit k (align_down v 4096) = drop_bit k v" if "12 \<le> k" for k
    unfolding align_down_eq using that
    by (intro bit_word_eqI) (auto simp: bit_simps possible_bit_def dest: bit_imp_le_length)
  then show "pml4_idx (align_down v 4096) = pml4_idx v" "pdpt_idx (align_down v 4096) = pdpt_idx v"
    "pd_idx (align_down v 4096) = pd_idx v" "pt_idx (align_down v 4096) = pt_idx v"
    by (simp_all add: pml4_idx_def pdpt_idx_def pd_idx_def pt_idx_def)
qed

lemma align_down_page:
  "user_addr (align_down v 4096) \<longleftrightarrow> user_addr v" "same_page w (align_down v 4096) \<longleftrightarrow> same_page w v"
  "no_large m root (align_down v 4096) \<longleftrightarrow> no_large m root v"
  by (simp_all add: user_addr_def same_page_def no_large_def pd_path_def align_down_idx)

text \<open>Taking a frame and filling it leaves the tree and the allocator as they were.\<close>

lemma alloc_fill:
  assumes fs: "free_space s F" and inv: "pt_inv (ram s) root F" and al: "alloc_zeroed_frame s = Some (p, s1)"
    and len: "length bs \<le> 4096" and s2: "s2 = s1\<lparr>ram := store_bytes (ram s1) p bs\<rparr>"
  defines "F1 \<equiv> F - span p 4096"
  shows "free_space s2 F1" "pt_inv (ram s2) root F1" "tables (ram s2) root = tables (ram s) root"
    and "user_addr v \<Longrightarrow> lookup (ram s2) root v = lookup (ram s) root v"
    and "user_addr v \<Longrightarrow> no_large (ram s2) root v \<longleftrightarrow> no_large (ram s) root v"
    and "hhdm s2 = hhdm s" "unat x \<notin> F \<Longrightarrow> ram s2 x = ram s x"
proof -
  note z = alloc_zeroed_frame_law [OF fs al]
  note pf = alloc_zeroed_facts [OF fs pt_invD(2) [OF inv] al]
  have off: "ram s2 x = ram s1 x" if "unat x \<notin> span p 4096" for x
    unfolding s2 using that len aligned_bound [OF pf(1)] span_mono [OF len, of p]
    by (simp, intro store_bytes_other) auto
  show other: "ram s2 x = ram s x" if "unat x \<notin> F" for x
    using that off z(6) pf(3) by (metis subsetD)
  have tb: "ram s2 x = ram s x" if "unat x \<in> tables (ram s) root" for x
    using other pt_invD(3) [OF inv] that by blast
  show "pt_inv (ram s2) root F1" "tables (ram s2) root = tables (ram s) root"
    using pt_same(1,2) [OF inv tb, of F1] by (auto simp: F1_def)
  show "user_addr v \<Longrightarrow> lookup (ram s2) root v = lookup (ram s) root v"
    "user_addr v \<Longrightarrow> no_large (ram s2) root v \<longleftrightarrow> no_large (ram s) root v"
    using pt_same(3,4) [OF inv tb subset_refl] by auto
  show "hhdm s2 = hhdm s" using z(4) by (simp add: s2)
  have "free_space (s1\<lparr>ram := ram s2\<rparr>) F1"
    using z(3) off unfolding F1_def by (intro pmm_mem.set_mem_free) auto
  then show "free_space s2 F1" by (simp add: s2)
qed

text \<open>
  A fresh frame \<open>p\<close> mapped at the page of \<open>a\<close>, or (\<open>b\<close> false) frames exhausted on the way: what
  both fault handlers end with.
\<close>

definition maps_fresh :: "u64 \<Rightarrow> kmem \<Rightarrow> nat set \<Rightarrow> kmem \<Rightarrow> nat set \<Rightarrow> u64 \<Rightarrow> u64 \<Rightarrow> bool \<Rightarrow> bool" where
  "maps_fresh root s F s' F' a p b \<longleftrightarrow>
     aligned 12 p \<and> span p 4096 \<subseteq> F \<and> F' \<subseteq> F - span p 4096 \<and> free_space s' F' \<and> pt_inv (ram s') root F' \<and>
     tables (ram s') root \<inter> span p 4096 = {} \<and> hhdm s' = hhdm s \<and>
     (\<forall>w. user_addr w \<longrightarrow> lookup (ram s') root w =
        (if b \<and> same_page w a then Some (p OR (w AND 0xFFF)) else lookup (ram s) root w)) \<and>
     (\<forall>x. unat x \<notin> F \<union> tables (ram s) root \<longrightarrow> ram s' x = ram s x) \<and>
     (\<not> b \<longrightarrow> F' = {})"

lemma map_fresh_law:
  assumes fs: "free_space s F" and inv: "pt_inv (ram s) (pml4_phys sp) F" and al: "alloc_zeroed_frame s = Some (p, s1)"
    and len: "length bs \<le> 4096" and s2: "s2 = s1\<lparr>ram := store_bytes (ram s1) p bs\<rparr>"
    and a: "user_addr a" "no_large (ram s) (pml4_phys sp) a" and fl: "flags AND PTE_ADDR_MASK = 0"
    and mp: "map_page s2 sp (align_down a 4096) p flags = (b, s')"
  shows "\<exists>F'. maps_fresh (pml4_phys sp) s F s' F' a p b \<and> (\<forall>x. unat x \<in> span p 4096 \<longrightarrow> ram s' x = ram s2 x)"
proof -
  let ?root = "pml4_phys sp"
  note af = alloc_fill [OF fs inv al len s2]
  note pf = alloc_zeroed_facts [OF fs pt_invD(2) [OF inv] al]
  have u: "user_addr (align_down a 4096)" "no_large (ram s2) ?root (align_down a 4096)"
    using a af(5) [OF a(1)] by (simp_all add: align_down_page)
  obtain F' where r: "remaps ?root s2 (F - span p 4096) s' F'
     (\<lambda>w. if b \<and> same_page w (align_down a 4096) then Some ((p AND PTE_ADDR_MASK) OR (w AND 0xFFF))
          else lookup (ram s2) ?root w)" and nb: "\<not> b \<longrightarrow> F' = {}"
    using map_page_law [OF af(1,2) u fl mp] by blast
  have F: "F' \<union> tables (ram s') ?root = (F - span p 4096) \<union> tables (ram s) ?root"
    using r af(3) by (simp add: remaps_def)
  have off: "tables (ram s) ?root \<inter> span p 4096 = {}" using pt_invD(3) [OF inv] pf(3) by blast
  have "ram s' x = ram s2 x" if "unat x \<in> span p 4096" for x
    using r af(3) off that unfolding remaps_def by blast
  moreover have "ram s' x = ram s x" if "unat x \<notin> F \<union> tables (ram s) ?root" for x
    using r af(3,7) that unfolding remaps_def by auto
  moreover have "lookup (ram s') ?root w =
      (if b \<and> same_page w a then Some (p OR (w AND 0xFFF)) else lookup (ram s) ?root w)" if "user_addr w" for w
    using r that af(4) [OF that] by (simp add: remaps_def align_down_page frame_mask [OF pf(1,2)])
  moreover have "tables (ram s') ?root \<inter> span p 4096 = {}" using F off by blast
  ultimately have "maps_fresh ?root s F s' F' a p b"
    using r nb af(6) pf(1,3) unfolding remaps_def maps_fresh_def by simp
  then show ?thesis using \<open>\<And>x. unat x \<in> span p 4096 \<Longrightarrow> ram s' x = ram s2 x\<close> by blast
qed

lemma demand_flags_mask: "demand_flags vma AND PTE_ADDR_MASK = 0"
  by (simp add: demand_flags_def PTE_ADDR_MASK_def pte_bits Let_def)

lemma store_no_bytes: "store_bytes m p [] = m"
  by (simp add: store_bytes_def)

lemma handle_demand_page_law:
  assumes "free_space s F" "pt_inv (ram s) (pml4_phys sp) F" "user_addr a" "no_large (ram s) (pml4_phys sp) a"
    and "handle_demand_page s sp a vma = (True, s')"
  shows "\<exists>p F'. maps_fresh (pml4_phys sp) s F s' F' a p True \<and> (\<forall>x. unat x \<in> span p 4096 \<longrightarrow> ram s' x = 0)"
proof -
  obtain p s1 where al: "alloc_zeroed_frame s = Some (p, s1)"
    and mp: "map_page s1 sp (align_down a 4096) p (demand_flags vma) = (True, s')"
    using assms(5) by (auto simp: handle_demand_page_def PAGE_SIZE_def split: option.splits)
  have s1: "s1 = s1\<lparr>ram := store_bytes (ram s1) p []\<rparr>" by (simp add: store_no_bytes)
  have "\<exists>F'. maps_fresh (pml4_phys sp) s F s' F' a p True \<and> (\<forall>x. unat x \<in> span p 4096 \<longrightarrow> ram s' x = ram s1 x)"
    by (rule map_fresh_law [OF assms(1,2) al _ s1 assms(3,4) demand_flags_mask mp]) simp
  moreover have "ram s1 x = 0" if "unat x \<in> span p 4096" for x using alloc_zeroed_frame_law(5) [OF assms(1) al that] .
  ultimately show ?thesis by force
qed

text \<open>The copy of a frame: the bytes at the new address are those of the old one.\<close>

lemma store_load_bytes:
  assumes "unat dst + n \<le> 2 ^ 64" "unat src + n \<le> 2 ^ 64" "i < n"
  shows "store_bytes m dst (load_bytes m' src n) (dst + of_nat i) = m' (src + of_nat i)"
proof -
  have "unat ((dst + of_nat i) - dst) = i" using assms by (simp add: unat_of_nat)
  then show ?thesis using assms by (simp add: store_bytes_def load_bytes_def)
qed

lemma handle_cow_law:
  assumes fs: "free_space s F" and inv: "pt_inv (ram s) (pml4_phys sp) F"
    and a: "user_addr a" "no_large (ram s) (pml4_phys sp) a"
    and old: "lookup (ram s) (pml4_phys sp) (align_down a 4096) = Some q" "unat q + 4096 \<le> 2 ^ 64" "span q 4096 \<inter> F = {}"
    and al: "alloc_zeroed_frame s \<noteq> None" and h: "handle_cow s sp a = (b, s')"
  shows "b \<and> (\<exists>p F' c. maps_fresh (pml4_phys sp) s F s' F' a p c \<and>
     (\<forall>i<4096. ram s' (p + of_nat i) = ram s (q + of_nat i)))"
proof -
  let ?fl = "PTE_PRESENT OR PTE_WRITABLE OR PTE_USER"
  obtain p s1 where al: "alloc_zeroed_frame s = Some (p, s1)" using al by auto
  define s2 where "s2 = s1\<lparr>ram := store_bytes (ram s1) p (load_bytes (ram s1) q 4096)\<rparr>"
  obtain c where mp: "map_page s2 sp (align_down a 4096) p ?fl = (c, s')" and b: b
    using h old(1) al
    by (auto simp: handle_cow_def PAGE_SIZE_def translate_lookup s2_def ptr_defs Let_def)
       (metis prod.collapse)
  have fl: "?fl AND PTE_ADDR_MASK = 0" by (simp add: PTE_ADDR_MASK_def pte_bits)
  have "length (load_bytes (ram s1) q 4096) \<le> 4096" by (simp add: load_bytes_def)
  then obtain F' where m: "maps_fresh (pml4_phys sp) s F s' F' a p c" "\<forall>x. unat x \<in> span p 4096 \<longrightarrow> ram s' x = ram s2 x"
    using map_fresh_law [OF fs inv al _ s2_def a fl mp] by blast
  note pf = alloc_zeroed_facts [OF fs pt_invD(2) [OF inv] al]
  note z = alloc_zeroed_frame_law [OF fs al]
  have pb: "unat p + 4096 \<le> 2 ^ 64" using aligned_bound [OF pf(1)] by simp
  have copy: "ram s2 (p + of_nat i) = ram s (q + of_nat i)" if i: "i < 4096" for i
  proof -
    have "unat (q + of_nat i) = unat q + i" using old(2) i by (intro unat_plus_of_nat) simp
    then have "unat (q + of_nat i) \<in> span q 4096" using i by (simp add: span_def)
    then have "ram s1 (q + of_nat i) = ram s (q + of_nat i)" using z(6) old(3) by blast
    then show ?thesis using store_load_bytes [OF pb old(2) i, of "ram s1" "ram s1"] by (simp add: s2_def)
  qed
  have "unat (p + of_nat i) \<in> span p 4096" if "i < 4096" for i
    using that pb unat_plus_of_nat [of p i] by (simp add: span_def)
  then have "\<forall>i<4096. ram s' (p + of_nat i) = ram s (q + of_nat i)" using m(2) copy by simp
  then show ?thesis using m(1) b by blast
qed

section \<open>Creating an address space\<close>

text \<open>The copy loop of \<open>new_user\<close>: entries \<open>256..<n\<close> of the root are copied, all else is kept.\<close>

lemma copy_entries:
  fixes hh :: u64
  assumes "aligned 12 p" "aligned 12 k" "p \<noteq> k" "n \<le> 512"
  defines "f \<equiv> \<lambda>i s. set_entry s (pml4 s \<lparr>pml4_phys = p\<rparr>) i (get_entry s (phys_to_virt hh k) i)"
  assumes "hhdm s = hh"
  shows "\<exists>m. fold f [256..<n] s = s\<lparr>ram := m\<rparr> \<and>
    (\<forall>i<512. pte m p i = (if 256 \<le> i \<and> i < n then pte (ram s) k i else pte (ram s) p i)) \<and>
    (\<forall>i<512. pte m k i = pte (ram s) k i) \<and> (\<forall>x. unat x \<notin> span p 4096 \<longrightarrow> m x = ram s x)"
  using assms(4)
proof (induction n)
  case 0
  show ?case by (intro exI [of _ "ram s"]) simp
next
  case (Suc n)
  show ?case
  proof (cases "256 \<le> n")
    case False
    then show ?thesis by (intro exI [of _ "ram s"]) auto
  next
    case True
    obtain m where m: "fold f [256..<n] s = s\<lparr>ram := m\<rparr>"
      "\<forall>i<512. pte m p i = (if 256 \<le> i \<and> i < n then pte (ram s) k i else pte (ram s) p i)"
      "\<forall>i<512. pte m k i = pte (ram s) k i" "\<forall>x. unat x \<notin> span p 4096 \<longrightarrow> m x = ram s x"
      using Suc by auto
    let ?m = "store64 m (p + 8 * of_nat n) (pte m k n)"
    have n: "n < 512" using Suc.prems by simp
    have "fold f [256..<Suc n] s = f n (s\<lparr>ram := m\<rparr>)" using True m(1) by simp
    also have "\<dots> = s\<lparr>ram := ?m\<rparr>"
      using get_entry_phys [of "s\<lparr>ram := m\<rparr>" k n] assms(6)
      by (simp add: f_def pml4_def set_entry_phys)
    finally have "fold f [256..<Suc n] s = s\<lparr>ram := ?m\<rparr>" .
    moreover have "pte ?m p i = (if 256 \<le> i \<and> i < Suc n then pte (ram s) k i else pte (ram s) p i)" if "i < 512" for i
      using that n m(2,3) True assms(1) pte_store_other [of p p n i] pte_store_same [of m p n]
      by (cases "i = n") auto
    moreover have "pte ?m k i = pte (ram s) k i" if "i < 512" for i
      using that n m(3) assms(1-3) pte_store_other [of p k n i] by simp
    moreover have "?m x = ram s x" if "unat x \<notin> span p 4096" for x
    proof -
      have "unat x \<notin> span (p + 8 * of_nat n) 8" using that cell_span [OF assms(1) n] by blast
      then show ?thesis using that m(4) store64_other [OF cell_bound [OF assms(1) n]] by simp
    qed
    ultimately show ?thesis by blast
  qed
qed

lemma empty_root:
  assumes "aligned 12 p" "\<And>i. i < 256 \<Longrightarrow> pte m p i = 0"
  shows "upath js \<Longrightarrow> tbl m p js = (if js = [] then Some p else None)"
proof -
  have one: "tbl m p [i] = None" if "i < 256" for i using assms(2) that by simp
  assume up: "upath js"
  show ?thesis
  proof (cases js rule: rev_cases)
    case (snoc ks i)
    then have "i < 256" using up by (simp add: upath_def)
    from tbl_None_below [OF one [OF this], of ks] show ?thesis by (simp add: snoc)
  qed simp
qed

lemma empty_root_inv:
  assumes "aligned 12 p" "\<And>i. i < 256 \<Longrightarrow> pte m p i = 0" "F \<subseteq> {..<2 ^ 52}" "span p 4096 \<inter> F = {}"
  shows "pt_inv m p F" "tables m p = span p 4096" "user_addr v \<Longrightarrow> lookup m p v = None"
    and "user_addr v \<Longrightarrow> no_large m p v"
proof -
  have tb: "tbl m p js = (if js = [] then Some p else None)" if "upath js" for js
    using empty_root [OF assms(1,2) that] .
  show tabs: "tables m p = span p 4096"
  proof (rule set_eqI)
    fix x
    have "(\<exists>is t. upath is \<and> tbl m p is = Some t \<and> x \<in> span t 4096) \<longleftrightarrow> x \<in> span p 4096"
      using tb upath_Nil by (metis option.distinct(1) option.inject)
    then show "x \<in> tables m p \<longleftrightarrow> x \<in> span p 4096" by (simp add: tables_iff)
  qed
  show "pt_inv m p F"
    unfolding pt_inv_def tabs using assms(1,3,4) tb by (auto split: if_splits)
  show "lookup m p v = None" "no_large m p v" if "user_addr v"
    using tb [OF upath_paths(2) [OF that]] by (auto simp: lookup_def no_large_def pd_path_def)
qed

lemma new_user_law:
  assumes fs: "free_space s F" "F \<subseteq> {..<2 ^ 52}" and k: "aligned 12 k" "k \<noteq> 0" "span k 4096 \<inter> F = {}"
  shows "case new_user s k of None \<Rightarrow> False
    | Some (None, s') \<Rightarrow> s' = s \<and> F = {}
    | Some (Some sp, s') \<Rightarrow> span (pml4_phys sp) 4096 \<subseteq> F \<and> hhdm s' = hhdm s \<and>
        free_space s' (F - span (pml4_phys sp) 4096) \<and> pt_inv (ram s') (pml4_phys sp) (F - span (pml4_phys sp) 4096) \<and>
        tables (ram s') (pml4_phys sp) = span (pml4_phys sp) 4096 \<and>
        (\<forall>v. user_addr v \<longrightarrow> lookup (ram s') (pml4_phys sp) v = None) \<and>
        (\<forall>i. 256 \<le> i \<and> i < 512 \<longrightarrow> pte (ram s') (pml4_phys sp) i = pte (ram s) k i) \<and>
        (\<forall>x. unat x \<notin> F \<longrightarrow> ram s' x = ram s x)"
proof (cases "alloc_zeroed_frame s")
  case None
  then have "F = {}" using alloc_None_empty [OF fs(1)] by (simp add: alloc_zeroed_frame_None)
  with None show ?thesis by (simp add: new_user_def)
next
  case (Some ps)
  obtain p s1 where ps: "alloc_zeroed_frame s = Some (p, s1)" using Some by (cases ps) auto
  note z = alloc_zeroed_frame_law [OF fs(1) ps]
  note pf = alloc_zeroed_facts [OF fs ps]
  have pk: "p \<noteq> k" using pf(4) k(3) by (metis IntI empty_iff in_span_self zero_less_numeral)
  obtain m where m: "fold (\<lambda>i s. set_entry s (pml4 s \<lparr>pml4_phys = p\<rparr>) i (get_entry s (phys_to_virt (hhdm s1) k) i))
      [256..<512] s1 = s1\<lparr>ram := m\<rparr>"
    "\<forall>i<512. pte m p i = (if 256 \<le> i \<and> i < 512 then pte (ram s1) k i else pte (ram s1) p i)"
    "\<forall>x. unat x \<notin> span p 4096 \<longrightarrow> m x = ram s1 x"
    using copy_entries [OF pf(1) k(1) pk le_refl refl, of s1] by blast
  have r: "new_user s k = Some (Some \<lparr>pml4_phys = p\<rparr>, s1\<lparr>ram := m\<rparr>)"
    using k(2) by (simp add: new_user_def ps get_kernel_pml4_def Let_def m(1) del: upt_rec_numeral)
  have zero: "pte (ram s1) p i = 0" if "i < 512" for i using pte_zero [OF pf(1) that z(5)] .
  have "pte m p i = 0" if "i < 256" for i using m(2) zero that by simp
  from empty_root_inv [OF pf(1) this, of "F - span p 4096"]
  have e: "pt_inv m p (F - span p 4096)" "tables m p = span p 4096" "\<And>v. user_addr v \<Longrightarrow> lookup m p v = None"
    using fs(2) by auto
  have "pte (ram s1) k i = pte (ram s) k i" if "i < 512" for i
    using k(1,3) that z(6) by (intro pte_cong) auto
  then have ent: "\<forall>i. 256 \<le> i \<and> i < 512 \<longrightarrow> pte m p i = pte (ram s) k i" using m(2) by simp
  have "free_space (s1\<lparr>ram := m\<rparr>) (F - span p 4096)"
    using z(3) m(3) by (intro pmm_mem.set_mem_free) auto
  moreover have "\<forall>x. unat x \<notin> F \<longrightarrow> m x = ram s x" using m(3) z(6) pf(3) by auto
  ultimately show ?thesis using e ent z(4) pf(3) by (simp add: r)
qed

section \<open>Dropping an address space\<close>

definition spans :: "ram \<Rightarrow> u64 \<Rightarrow> nat list set \<Rightarrow> nat set" where
  "spans m root D = \<Union> {span t 4096 |t. \<exists>js\<in>D. tbl m root js = Some t}"

text \<open>Of the tree read from \<open>m\<close>, the tables at the paths \<open>D\<close> have been freed, and no other memory changed.\<close>

definition freed :: "u64 \<Rightarrow> ram \<Rightarrow> u64 \<Rightarrow> nat set \<Rightarrow> kmem \<Rightarrow> nat list set \<Rightarrow> bool" where
  "freed hh m root F s D \<longleftrightarrow> D \<subseteq> Collect upath \<and> free_space s (F \<union> spans m root D) \<and> hhdm s = hh \<and>
     (\<forall>x. unat x \<notin> F \<union> spans m root D \<longrightarrow> ram s x = m x)"

definition sub :: "nat list \<Rightarrow> nat list set" where
  "sub js = {qs. upath qs \<and> (\<exists>ks. qs = ks @ js)}"

lemma spans_iff: "x \<in> spans m root D \<longleftrightarrow> (\<exists>js\<in>D. \<exists>t. tbl m root js = Some t \<and> x \<in> span t 4096)"
  by (auto simp: spans_def)

lemma spans_insert: "tbl m root js = Some t \<Longrightarrow> spans m root (insert js D) = spans m root D \<union> span t 4096"
  by (auto simp: set_eq_iff spans_iff)

lemma sub_upath: "sub js \<subseteq> Collect upath"
  by (auto simp: sub_def)

lemma sub_disjoint: "i \<noteq> j \<Longrightarrow> sub (i # js) \<inter> sub (j # js) = {}"
  by (auto simp: sub_def)

lemma sub_parent: "sub (i # js) \<subseteq> sub js" "js \<notin> sub (i # js)"
proof -
  show "sub (i # js) \<subseteq> sub js" by (auto simp: sub_def)
  show "js \<notin> sub (i # js)" by (auto simp: sub_def)
qed

lemma upath_suffix: "upath (ks @ i # js) \<Longrightarrow> upath (i # js)"
  by (auto simp: upath_def)

lemma sub_split:
  assumes "upath js"
  shows "sub js = insert js (\<Union>i\<in>{i. upath (i # js)}. sub (i # js))"
proof
  show "sub js \<subseteq> insert js (\<Union>i\<in>{i. upath (i # js)}. sub (i # js))"
  proof
    fix qs assume "qs \<in> sub js"
    then obtain ks where ks: "upath qs" "qs = ks @ js" by (auto simp: sub_def)
    show "qs \<in> insert js (\<Union>i\<in>{i. upath (i # js)}. sub (i # js))"
    proof (cases ks rule: rev_cases)
      case Nil
      then show ?thesis using ks by simp
    next
      case (snoc ks' i)
      then have "upath (i # js)" "qs \<in> sub (i # js)" using ks upath_suffix by (auto simp: sub_def)
      then show ?thesis by blast
    qed
  qed
  show "insert js (\<Union>i\<in>{i. upath (i # js)}. sub (i # js)) \<subseteq> sub js"
    using assms sub_parent(1) by (auto simp: sub_def)
qed

lemma upath_children:
  assumes "upath js" "length js \<le> 2"
  shows "{i. upath (i # js)} = {..<if js = [] then 256 else 512}"
  using assms by (auto simp: upath_def)

lemma sub_leaf: "upath js \<Longrightarrow> length js = 3 \<Longrightarrow> sub js = {js}"
  by (subst sub_split) (auto simp: upath_def)

lemma freed_skip:
  assumes "freed hh m root F s D" "tbl m root path = None"
  shows "freed hh m root F s (D \<union> sub path)"
proof -
  have "tbl m root qs = None" if "qs \<in> sub path" for qs
    using that tbl_None_below [OF assms(2)] by (auto simp: sub_def)
  then have "spans m root (D \<union> sub path) = spans m root D" by (auto simp: set_eq_iff spans_iff)
  then show ?thesis using assms(1) sub_upath by (auto simp: freed_def)
qed

text \<open>The tables still to be freed are intact.\<close>

lemma freed_intact:
  assumes inv: "pt_inv m root F" and fr: "freed hh m root F s D"
    and js: "upath js" "js \<notin> D" "tbl m root js = Some t"
  shows "span t 4096 \<inter> (F \<union> spans m root D) = {}" "i < 512 \<Longrightarrow> pte (ram s) t i = pte m t i"
proof -
  have al: "aligned 12 t" by (rule pt_invD(4) [OF inv js(1,3)])
  have sp: "span t 4096 \<inter> span t' 4096 = {}" if "qs \<in> D" "tbl m root qs = Some t'" for qs t'
  proof -
    have q: "upath qs" using fr that(1) by (auto simp: freed_def)
    then have "t \<noteq> t'" using pt_invD(5) [OF inv js(1) q js(3)] that js(2) by blast
    then show ?thesis using al pt_invD(4) [OF inv q that(2)] by (intro frame_span_disjoint)
  qed
  have "span t 4096 \<inter> F = {}" using table_span [OF js(1,3)] pt_invD(3) [OF inv] by blast
  moreover have "span t 4096 \<inter> spans m root D = {}" using sp unfolding disjoint_iff spans_iff by blast
  ultimately show dis: "span t 4096 \<inter> (F \<union> spans m root D) = {}" by blast
  show "pte (ram s) t i = pte m t i" if "i < 512"
    using fr dis by (intro pte_cong [OF al that]) (auto simp: freed_def)
qed

lemma freed_step:
  assumes inv: "pt_inv m root F" and null: "unat (- hh) \<notin> tables m root" and fr: "freed hh m root F s D"
    and js: "upath js" "js \<notin> D" "tbl m root js = Some t"
  shows "\<exists>s'. free_frame s t = Some s' \<and> freed hh m root F s' (insert js D)"
proof -
  let ?G = "F \<union> spans m root D"
  have fd: "D \<subseteq> Collect upath" "free_space s ?G" "hhdm s = hh" "\<forall>x. unat x \<notin> ?G \<longrightarrow> ram s x = m x"
    using fr by (simp_all add: freed_def)
  have "unat (- hhdm s) \<notin> span t 4096" using null fd(3) table_span [OF js(1,3)] by blast
  then have "is_frame s t" using pt_invD(4) [OF inv js(1,3)] by (simp add: is_frame_def)
  then obtain s' where s': "free_frame s t = Some s'" "free_space s' (?G \<union> span t 4096)"
    "hhdm s' = hhdm s" "\<forall>x. unat x \<notin> ?G \<union> span t 4096 \<longrightarrow> ram s' x = ram s x"
    using free_frame_law [OF fd(2) _ freed_intact(1) [OF inv fr js]] by blast
  have eq: "F \<union> spans m root (insert js D) = ?G \<union> span t 4096"
    by (simp add: spans_insert [OF js(3)] Un_assoc)
  have "freed hh m root F s' (insert js D)"
    unfolding freed_def eq
  proof (intro conjI)
    show "\<forall>x. unat x \<notin> ?G \<union> span t 4096 \<longrightarrow> ram s' x = m x" using s'(4) fd(4) by simp
    show "insert js D \<subseteq> Collect upath" using fd(1) js(1) by simp
    show "free_space s' (?G \<union> span t 4096)" by (rule s'(2))
    show "hhdm s' = hh" using s'(3) fd(3) by simp
  qed
  with s'(1) show ?thesis by (intro exI conjI)
qed

text \<open>One level of the nested loops: the subtrees of all children, then the table itself.\<close>

lemma free_level:
  assumes inv: "pt_inv m root F" and null: "unat (- hh) \<notin> tables m root"
    and js: "upath js" "length js \<le> 2" "tbl m root js = Some t"
    and n: "n = (if js = [] then 256 else 512)"
    and fr: "freed hh m root F s D" and dis: "sub js \<inter> D = {}"
    and body: "\<And>i s D. upath (i # js) \<Longrightarrow> freed hh m root F s D \<Longrightarrow> js \<notin> D \<Longrightarrow> sub (i # js) \<inter> D = {} \<Longrightarrow>
      \<exists>s'. f i s = Some s' \<and> freed hh m root F s' (D \<union> sub (i # js))"
  shows "\<exists>s'. (case fold_opt f [0..<n] s of None \<Rightarrow> None | Some s1 \<Rightarrow> free_frame s1 t) = Some s' \<and>
    freed hh m root F s' (D \<union> sub js)"
proof -
  have ch: "{i. upath (i # js)} = set [0..<n]" using upath_children [OF js(1,2)] by (simp only: n [symmetric] atLeast_upt)
  have in_js: "js \<in> sub js" using js(1) by (simp add: sub_def)
  let ?E = "\<lambda>xs. D \<union> (\<Union>i\<in>set xs. sub (i # js))"
  have "\<exists>s1. fold_opt f [0..<n] s = Some s1 \<and> freed hh m root F s1 (?E [0..<n])"
  proof (rule fold_opt_invariant [where P = "\<lambda>xs s. freed hh m root F s (?E xs)"])
    show "freed hh m root F s (?E [])" using fr by simp
    fix xs i ys s'
    assume z: "[0..<n] = xs @ i # ys" and f: "freed hh m root F s' (?E xs)"
    have i: "i \<in> set [0..<n]" "i \<notin> set xs" using distinct_upt [of 0 n] unfolding z by auto
    then have up: "upath (i # js)" using ch by blast
    have nin: "js \<notin> ?E xs" using dis in_js by (auto simp: sub_parent(2))
    have "sub (i # js) \<inter> D = {}" using dis sub_parent(1) [of i js] by blast
    moreover have "sub (i # js) \<inter> sub (k # js) = {}" if "k \<in> set xs" for k
      using sub_disjoint [of i k js] that i(2) by metis
    ultimately have "sub (i # js) \<inter> ?E xs = {}" by blast
    from body [OF up f nin this] show "\<exists>s''. f i s' = Some s'' \<and> freed hh m root F s'' (?E (xs @ [i]))"
      by (simp add: Un_ac)
  qed
  then obtain s1 where s1: "fold_opt f [0..<n] s = Some s1" "freed hh m root F s1 (?E [0..<n])" by blast
  have "js \<notin> ?E [0..<n]" using dis in_js by (auto simp: sub_parent(2))
  moreover have "insert js (?E [0..<n]) = D \<union> sub js" unfolding sub_split [OF js(1)] ch by blast
  ultimately show ?thesis
    using freed_step [OF inv null s1(2) js(1) _ js(3)] s1(1) by auto
qed

lemma free_pd_law:
  assumes inv: "pt_inv m root F" and null: "unat (- hh) \<notin> tables m root"
    and js: "upath js" "length js = 2" "tbl m root js = Some t"
    and fr: "freed hh m root F s D" and dis: "sub js \<inter> D = {}"
  shows "\<exists>s'. free_pd t s = Some s' \<and> freed hh m root F s' (D \<union> sub js)"
  unfolding free_pd_def
proof (rule free_level [OF inv null js(1) _ js(3) _ fr dis])
  fix i s D
  assume i: "upath (i # js)" and f: "freed hh m root F s D" and nin: "js \<notin> D" and d: "sub (i # js) \<inter> D = {}"
  have e: "get_entry s (phys_to_virt (hhdm s) t) i = pte m t i"
    using freed_intact(2) [OF inv f js(1) nin js(3) upath_ConsD(2) [OF i]] by (simp add: get_entry_phys)
  have leaf: "sub (i # js) = {i # js}" using i js(2) by (intro sub_leaf) auto
  show "\<exists>s'. (let pd = phys_to_virt (hhdm s) t
        in if \<not> is_present s pd i then Some s
           else if get_entry s pd i AND PTE_LARGE \<noteq> 0 then Some s
           else free_frame s (get_entry s pd i AND PTE_ADDR_MASK)) = Some s' \<and>
      freed hh m root F s' (D \<union> sub (i # js))"
  proof (cases "tbl m root (i # js)")
    case None
    then show ?thesis
      using freed_skip [OF f None] js(2,3) e by (auto simp: is_present_def Let_def split: if_splits)
  next
    case (Some t')
    then have "pte m t i AND PTE_PRESENT \<noteq> 0" "pte m t i AND PTE_LARGE = 0" "t' = pte m t i AND PTE_ADDR_MASK"
      using js(2,3) by (auto split: if_splits)
    moreover have "i # js \<notin> D" using d leaf by simp
    ultimately show ?thesis
      using freed_step [OF inv null f i _ Some] e leaf by (auto simp: is_present_def Let_def)
  qed
qed (use js(2) in auto)

lemma free_pdpt_law:
  assumes inv: "pt_inv m root F" and null: "unat (- hh) \<notin> tables m root"
    and js: "upath js" "length js = 1" "tbl m root js = Some t"
    and fr: "freed hh m root F s D" and dis: "sub js \<inter> D = {}"
  shows "\<exists>s'. free_pdpt t s = Some s' \<and> freed hh m root F s' (D \<union> sub js)"
  unfolding free_pdpt_def
proof (rule free_level [OF inv null js(1) _ js(3) _ fr dis])
  fix i s D
  assume i: "upath (i # js)" and f: "freed hh m root F s D" and nin: "js \<notin> D" and d: "sub (i # js) \<inter> D = {}"
  have e: "get_entry s (phys_to_virt (hhdm s) t) i = pte m t i"
    using freed_intact(2) [OF inv f js(1) nin js(3) upath_ConsD(2) [OF i]] by (simp add: get_entry_phys)
  show "\<exists>s'. (let pdpt = phys_to_virt (hhdm s) t
        in if \<not> is_present s pdpt i then Some s
           else free_pd (get_entry s pdpt i AND PTE_ADDR_MASK) s) = Some s' \<and>
      freed hh m root F s' (D \<union> sub (i # js))"
  proof (cases "tbl m root (i # js)")
    case None
    then show ?thesis
      using freed_skip [OF f None] js(2,3) e by (auto simp: is_present_def Let_def split: if_splits)
  next
    case (Some t')
    then have "pte m t i AND PTE_PRESENT \<noteq> 0" "t' = pte m t i AND PTE_ADDR_MASK"
      using js(2,3) by (auto split: if_splits)
    then show ?thesis
      using free_pd_law [OF inv null i _ Some f d] e js(2) by (auto simp: is_present_def Let_def)
  qed
qed (use js(2) in auto)

lemma free_user_page_tables_law:
  assumes fs: "free_space s F" and inv: "pt_inv (ram s) root F" and null: "unat (- hhdm s) \<notin> tables (ram s) root"
  shows "\<exists>s'. free_user_page_tables root s = Some s' \<and> free_space s' (F \<union> tables (ram s) root) \<and>
    (\<forall>x. unat x \<notin> F \<union> tables (ram s) root \<longrightarrow> ram s' x = ram s x) \<and> hhdm s' = hhdm s"
proof -
  let ?m = "ram s" and ?hh = "hhdm s"
  have f0: "freed ?hh ?m root F s {}" using fs by (simp add: freed_def spans_def)
  have "\<exists>s'. free_user_page_tables root s = Some s' \<and> freed ?hh ?m root F s' ({} \<union> sub [])"
    unfolding free_user_page_tables_def
  proof (rule free_level [OF inv null upath_Nil _ tbl.simps(1) _ f0])
    fix i s1 D
    assume i: "upath [i]" and f: "freed ?hh ?m root F s1 D" and nin: "[] \<notin> D" and d: "sub [i] \<inter> D = {}"
    have e: "get_entry s1 (phys_to_virt (hhdm s1) root) i = pte ?m root i"
      using freed_intact(2) [OF inv f upath_Nil nin tbl.simps(1) upath_ConsD(2) [OF i]] by (simp add: get_entry_phys)
    show "\<exists>s'. (let pml4 = phys_to_virt (hhdm s1) root
        in if \<not> is_present s1 pml4 i then Some s1
           else free_pdpt (get_entry s1 pml4 i AND PTE_ADDR_MASK) s1) = Some s' \<and>
      freed ?hh ?m root F s' (D \<union> sub [i])"
    proof (cases "tbl ?m root [i]")
      case None
      then show ?thesis using freed_skip [OF f None] e by (auto simp: is_present_def Let_def split: if_splits)
    next
      case (Some t')
      then have "pte ?m root i AND PTE_PRESENT \<noteq> 0" "t' = pte ?m root i AND PTE_ADDR_MASK"
        by (auto split: if_splits)
      then show ?thesis
        using free_pdpt_law [OF inv null i _ Some f d] e by (auto simp: is_present_def Let_def)
    qed
  qed auto
  moreover have "sub [] = Collect upath" by (auto simp: sub_def)
  moreover have "spans ?m root (Collect upath) = tables ?m root" by (auto simp: spans_def tables_def)
  ultimately show ?thesis by (auto simp: freed_def)
qed

section \<open>An example\<close>

text \<open>Eight free frames at two MiB, and an empty root table at one MiB.\<close>

definition example_mem8 :: kmem where
  "example_mem8 =
     \<lparr>hhdm = 0xFFFF800000000000, ram = (\<lambda>_. 0),
      PMM = buddy_new\<lparr>lists := (lists buddy_new)[3 := \<lparr>fl_head = 0xFFFF800000200000, fl_count = 1\<rparr>]\<rparr>,
      FREE_PAGES = 8, TOTAL_PAGES = 8\<rparr>"

definition example_lists8 :: alists where
  "example_lists8 = (replicate 13 [])[3 := [0x200000]]"

definition example_sp :: address_space where
  "example_sp = \<lparr>pml4_phys = 0x100000\<rparr>"

abbreviation example_free :: "nat set" where
  "example_free \<equiv> {0x200000..<0x208000}"

lemma example_free_space: "free_space example_mem8 example_free"
proof -
  have b: "blocks example_lists8 = {(3, 0x200000)}"
    by (auto simp: blocks_def example_lists8_def nth_list_update split: if_splits)
  then have sp: "space example_lists8 = example_free" by (simp add: space_def bspan_def span_def)
  have "rep example_mem8 example_lists8"
    by (auto simp: rep_def example_mem8_def example_lists8_def buddy_new_def MAX_ORDER_def fl_empty_def
        nth_list_update load64_zero)
  moreover have "lists_ok example_lists8"
    by (auto simp: lists_ok_def example_lists8_def nth_list_update)
  then have "ok (hhdm example_mem8) example_lists8"
    by (simp add: ok_def wf_blocks_def b bspan_def span_def aligned_def example_mem8_def)
  ultimately have "pmm_inv example_mem8 example_lists8" by (simp add: pmm_inv_def sp example_mem8_def)
  then show ?thesis using sp by (auto simp: free_space_def)
qed

lemma example_pte: "pte (ram example_mem8) t i = 0"
  by (simp add: pte_def example_mem8_def load64_zero)

lemma example_space_facts:
  "pt_inv (ram example_mem8) (pml4_phys example_sp) example_free"
  "tables (ram example_mem8) (pml4_phys example_sp) = {0x100000..<0x101000}"
  "user_addr v \<Longrightarrow> lookup (ram example_mem8) (pml4_phys example_sp) v = None"
  "user_addr v \<Longrightarrow> no_large (ram example_mem8) (pml4_phys example_sp) v"
proof -
  note e = empty_root_inv [of "0x100000" "ram example_mem8" example_free, OF _ example_pte]
  have al: "aligned 12 0x100000" by (simp add: aligned_def)
  have sp: "span 0x100000 4096 = {0x100000..<0x101000}" by (simp add: span_def)
  have "example_free \<subseteq> {..<2 ^ 52}" by auto
  moreover have "span 0x100000 4096 \<inter> example_free = {}" by (simp add: sp)
  ultimately show "pt_inv (ram example_mem8) (pml4_phys example_sp) example_free"
    "tables (ram example_mem8) (pml4_phys example_sp) = {0x100000..<0x101000}"
    "user_addr v \<Longrightarrow> lookup (ram example_mem8) (pml4_phys example_sp) v = None"
    "user_addr v \<Longrightarrow> no_large (ram example_mem8) (pml4_phys example_sp) v"
    using e al sp by (simp_all add: example_sp_def)
qed

lemma example_user: "user_addr 0x400000"
  by (simp add: user_addr_def pml4_idx_def)

section \<open>Properties\<close>

text \<open>C3: \<open>map\<close> is an update of the translation.  It keeps the allocator's and the page tables'
  invariants; when it succeeds the page of \<open>virt\<close> translates to the given frame and every other user
  address translates as before; when it fails nothing is mapped, and it fails only when no frame is
  left; frames move only from the allocator to the tables, at most three of them; and no memory
  outside the free frames and the tables changes.\<close>

theorem map_page_correct:
  assumes "free_space s F" "pt_inv (ram s) (pml4_phys sp) F"
    and "user_addr virt" "no_large (ram s) (pml4_phys sp) virt" "flags AND PTE_ADDR_MASK = 0"
    and "map_page s sp virt phys flags = (b, s')"
  shows "\<exists>F'. F' \<subseteq> F \<and> free_space s' F' \<and> pt_inv (ram s') (pml4_phys sp) F' \<and>
     F' \<union> tables (ram s') (pml4_phys sp) = F \<union> tables (ram s) (pml4_phys sp) \<and>
     (\<forall>w. user_addr w \<longrightarrow> translate s' sp w =
        (if b \<and> same_page w virt then Some ((phys AND PTE_ADDR_MASK) OR (w AND 0xFFF)) else translate s sp w)) \<and>
     (\<not> b \<longrightarrow> F' = {}) \<and> card F \<le> card F' + 3 * 4096 \<and>
     (\<forall>x. unat x \<notin> F \<union> tables (ram s) (pml4_phys sp) \<longrightarrow> ram s' x = ram s x)"
  using map_page_law [OF assms] unfolding translate_lookup remaps_def by blast

theorem map_page_correct_witness:
  "\<exists>s' F'. map_page example_mem8 example_sp 0x400000 0x300000 7 = (True, s') \<and>
     free_space s' F' \<and> translate s' example_sp 0x400000 = Some 0x300000 \<and>
     translate s' example_sp 0x401000 = None"
proof -
  obtain b s' where m: "map_page example_mem8 example_sp 0x400000 0x300000 7 = (b, s')" by (meson surj_pair)
  have fl: "(7 :: u64) AND PTE_ADDR_MASK = 0" by (simp add: PTE_ADDR_MASK_def)
  from map_page_correct [OF example_free_space example_space_facts(1) example_user
      example_space_facts(4) [OF example_user] fl m]
  obtain F' where F': "free_space s' F'" "\<not> b \<longrightarrow> F' = {}" "card example_free \<le> card F' + 3 * 4096"
    "\<forall>w. user_addr w \<longrightarrow> translate s' example_sp w =
        (if b \<and> same_page w 0x400000 then Some ((0x300000 AND PTE_ADDR_MASK) OR (w AND 0xFFF))
         else translate example_mem8 example_sp w)" by blast
  have b: b using F'(2,3) by auto
  have "same_page 0x400000 0x400000" "\<not> same_page 0x401000 0x400000" "user_addr 0x401000"
    by (simp_all add: same_page_def pt_idx_def user_addr_def pml4_idx_def)
  then have "translate s' example_sp 0x400000 = Some 0x300000" "translate s' example_sp 0x401000 = None"
    using F'(4) b example_user example_space_facts(3) by (simp_all add: translate_lookup PTE_ADDR_MASK_def)
  then show ?thesis using m b F'(1) by auto
qed

text \<open>C26: \<open>unmap\<close> removes exactly the translation of the page of \<open>virt\<close>: afterwards that page has no
  translation, every other user address keeps its own, the invariants hold, no frame changes owner,
  and only table memory is written.\<close>

theorem unmap_correct:
  assumes "free_space s F" "pt_inv (ram s) (pml4_phys sp) F" "user_addr virt"
    and "no_large (ram s) (pml4_phys sp) virt"
  shows "free_space (unmap s sp virt) F \<and> pt_inv (ram (unmap s sp virt)) (pml4_phys sp) F \<and>
     tables (ram (unmap s sp virt)) (pml4_phys sp) = tables (ram s) (pml4_phys sp) \<and>
     (\<forall>w. user_addr w \<longrightarrow> translate (unmap s sp virt) sp w =
        (if same_page w virt then None else translate s sp w)) \<and>
     (\<forall>x. unat x \<notin> F \<union> tables (ram s) (pml4_phys sp) \<longrightarrow> ram (unmap s sp virt) x = ram s x)"
proof -
  let ?s = "unmap s sp virt" and ?root = "pml4_phys sp"
  have r: "remaps ?root s F ?s F (\<lambda>w. if same_page w virt then None else lookup (ram s) ?root w)"
    by (rule unmap_law [OF assms])
  then have "F \<union> tables (ram ?s) ?root = F \<union> tables (ram s) ?root" "pt_inv (ram ?s) ?root F"
    by (simp_all add: remaps_def)
  then have "tables (ram ?s) ?root = tables (ram s) ?root"
    using pt_invD(3) [OF assms(2)] pt_invD(3) [of "ram ?s" ?root F] by blast
  then show ?thesis using r by (simp add: remaps_def translate_lookup)
qed

theorem unmap_correct_witness:
  "free_space (unmap example_mem8 example_sp 0x400000) example_free \<and>
   translate (unmap example_mem8 example_sp 0x400000) example_sp 0x400000 = None"
proof -
  have "same_page 0x400000 0x400000" by (simp add: same_page_def)
  then show ?thesis
    using unmap_correct [OF example_free_space example_space_facts(1) example_user
        example_space_facts(4) [OF example_user]] example_user by simp
qed

text \<open>C18: a demand-page fault that is resolved maps a fresh zero-filled frame.  The page of the
  faulting address translates to a frame that was free, is now neither free nor a table and holds
  zeros; every other user address translates as before; memory in use is not touched.\<close>

theorem handle_demand_page_correct:
  assumes "free_space s F" "pt_inv (ram s) (pml4_phys sp) F" "user_addr addr"
    and "no_large (ram s) (pml4_phys sp) addr" "handle_demand_page s sp addr vma = (True, s')"
  shows "\<exists>p F'. span p 4096 \<subseteq> F \<and> F' \<subseteq> F - span p 4096 \<and> free_space s' F' \<and> pt_inv (ram s') (pml4_phys sp) F' \<and>
     tables (ram s') (pml4_phys sp) \<inter> span p 4096 = {} \<and>
     (\<forall>w. user_addr w \<longrightarrow> translate s' sp w =
        (if same_page w addr then Some (p OR (w AND 0xFFF)) else translate s sp w)) \<and>
     (\<forall>x. unat x \<in> span p 4096 \<longrightarrow> ram s' x = 0) \<and>
     (\<forall>x. unat x \<notin> F \<union> tables (ram s) (pml4_phys sp) \<longrightarrow> ram s' x = ram s x)"
proof -
  obtain p F' where "maps_fresh (pml4_phys sp) s F s' F' addr p True" "\<forall>x. unat x \<in> span p 4096 \<longrightarrow> ram s' x = 0"
    using handle_demand_page_law [OF assms] by blast
  then show ?thesis by (intro exI [of _ p] exI [of _ F']) (simp add: maps_fresh_def translate_lookup)
qed

definition example_vma :: vma_entry where
  "example_vma = \<lparr>vma_start = 0x400000, vma_end = 0x500000, vma_flags = 0x23\<rparr>"

theorem handle_demand_page_correct_witness:
  "\<exists>s' p. handle_demand_page example_mem8 example_sp 0x400123 example_vma = (True, s') \<and>
     unat p \<in> example_free \<and> translate s' example_sp 0x400123 = Some (p OR 0x123) \<and> ram s' p = 0"
proof -
  have u: "user_addr 0x400123" by (simp add: user_addr_def pml4_idx_def)
  obtain p s1 where al: "alloc_zeroed_frame example_mem8 = Some (p, s1)"
    using alloc_None_empty [OF example_free_space] alloc_zeroed_frame_None
    by (cases "alloc_zeroed_frame example_mem8") auto
  obtain b s' where h: "handle_demand_page example_mem8 example_sp 0x400123 example_vma = (b, s')"
    by (meson surj_pair)
  note af = alloc_fill [OF example_free_space example_space_facts(1) al _ refl, of "[]", unfolded store_no_bytes]
  have mp: "map_page s1 example_sp (align_down 0x400123 4096) p (demand_flags example_vma) = (b, s')"
    using h al by (simp add: handle_demand_page_def PAGE_SIZE_def)
  have fi: "free_space s1 (example_free - span p 4096)" "pt_inv (ram s1) (pml4_phys example_sp) (example_free - span p 4096)"
    using af(1,2) by simp_all
  have "user_addr (align_down 0x400123 4096)" "no_large (ram s1) (pml4_phys example_sp) (align_down 0x400123 4096)"
    using u af(5) [OF _ u] example_space_facts(4) [OF u] by (simp_all add: align_down_page)
  moreover have "card example_free - card (span p 4096) \<le> card (example_free - span p 4096)"
    by (rule diff_card_le_card_Diff) (rule finite_span)
  ultimately have b using map_page_succeeds [OF fi _ _ demand_flags_mask mp] by simp
  then have h: "handle_demand_page example_mem8 example_sp 0x400123 example_vma = (True, s')" using h by simp
  have same: "same_page 0x400123 0x400123" by (simp add: same_page_def)
  obtain q where q: "span q 4096 \<subseteq> example_free" "\<forall>x. unat x \<in> span q 4096 \<longrightarrow> ram s' x = 0"
    "\<forall>w. user_addr w \<longrightarrow> translate s' example_sp w =
        (if same_page w 0x400123 then Some (q OR (w AND 0xFFF)) else translate example_mem8 example_sp w)"
    using handle_demand_page_correct [OF example_free_space example_space_facts(1) u
        example_space_facts(4) [OF u] h] by blast
  have "translate s' example_sp 0x400123 = Some (q OR 0x123)" using q(3) u same by simp
  moreover have "unat q \<in> span q 4096" by simp
  ultimately show ?thesis using h q(1,2) by blast
qed

text \<open>C17: copy-on-write.  When the faulting page is mapped, its old frame is in use and a frame is
  free, the handler copies the page: the new frame was free, holds byte for byte what the old frame
  held, is no longer free, and the old frame and all other memory in use are unchanged.  The page
  translates to the copy and every other user address as before, unless the frames ran out while
  the tables were extended, in which case no translation changes.\<close>

theorem handle_cow_correct:
  assumes "free_space s F" "pt_inv (ram s) (pml4_phys sp) F"
    and "user_addr addr" "no_large (ram s) (pml4_phys sp) addr"
    and "translate s sp (align_down addr PAGE_SIZE) = Some q" "unat q + 4096 \<le> 2 ^ 64" "span q 4096 \<inter> F = {}"
    and "alloc_frame s \<noteq> None" "handle_cow s sp addr = (b, s')"
  shows "\<exists>p F' ok. span p 4096 \<subseteq> F \<and> F' \<subseteq> F - span p 4096 \<and> free_space s' F' \<and>
     pt_inv (ram s') (pml4_phys sp) F' \<and> (ok \<or> F' = {}) \<and>
     (\<forall>i<4096. ram s' (p + of_nat i) = ram s (q + of_nat i)) \<and>
     (\<forall>w. user_addr w \<longrightarrow> translate s' sp w =
        (if ok \<and> same_page w addr then Some (p OR (w AND 0xFFF)) else translate s sp w)) \<and>
     (\<forall>x. unat x \<notin> F \<union> tables (ram s) (pml4_phys sp) \<longrightarrow> ram s' x = ram s x)"
proof -
  have "lookup (ram s) (pml4_phys sp) (align_down addr 4096) = Some q" "alloc_zeroed_frame s \<noteq> None"
    using assms(5,8) by (simp_all add: translate_lookup PAGE_SIZE_def alloc_zeroed_frame_None)
  with handle_cow_law [OF assms(1-4) _ assms(6,7) _ assms(9)]
  obtain p F' c where "maps_fresh (pml4_phys sp) s F s' F' addr p c"
    "\<forall>i<4096. ram s' (p + of_nat i) = ram s (q + of_nat i)" by blast
  then show ?thesis
    by (intro exI [of _ p] exI [of _ F'] exI [of _ c]) (auto simp: maps_fresh_def translate_lookup)
qed

theorem handle_cow_correct_witness:
  "\<exists>s s' p. translate s example_sp 0x400000 = Some 0x300000 \<and> handle_cow s example_sp 0x400000 = (True, s') \<and>
     unat p \<in> example_free \<and> ram s' p = ram s 0x300000"
proof -
  obtain b s where m: "map_page example_mem8 example_sp 0x400000 0x300000 7 = (b, s)" by (meson surj_pair)
  have fl: "(7 :: u64) AND PTE_ADDR_MASK = 0" by (simp add: PTE_ADDR_MASK_def)
  note h = example_free_space example_space_facts(1) example_user example_space_facts(4) [OF example_user] fl m
  have b: b using map_page_succeeds [OF h] by simp
  obtain F where r: "remaps (pml4_phys example_sp) example_mem8 example_free s F
      (\<lambda>w. if b \<and> same_page w 0x400000 then Some ((0x300000 AND PTE_ADDR_MASK) OR (w AND 0xFFF))
          else lookup (ram example_mem8) (pml4_phys example_sp) w)"
    and c: "card example_free \<le> card F + 3 * 4096" using map_page_law [OF h] by blast
  have F: "free_space s F" "pt_inv (ram s) (pml4_phys example_sp) F" "F \<subseteq> example_free"
    "no_large (ram s) (pml4_phys example_sp) 0x400000"
    using r example_user example_space_facts(4) [OF example_user] by (auto simp: remaps_def)
  have "same_page 0x400000 0x400000" by (simp add: same_page_def)
  then have t: "translate s example_sp 0x400000 = Some 0x300000"
    using r b example_user by (simp add: remaps_def translate_lookup PTE_ADDR_MASK_def)
  have t': "translate s example_sp (align_down 0x400000 PAGE_SIZE) = Some 0x300000"
    using t by (simp add: align_down_def PAGE_SIZE_def)
  have q: "unat (0x300000 :: u64) + 4096 \<le> 2 ^ 64" "span 0x300000 4096 \<inter> F = {}"
    using F(3) by (auto simp: span_def)
  have "F \<noteq> {}" using c by auto
  then have al: "alloc_frame s \<noteq> None" using alloc_None_empty [OF F(1)] by blast
  obtain b' s' where hc: "handle_cow s example_sp 0x400000 = (b', s')" by (meson surj_pair)
  have "b'" using hc t' al by (auto simp: handle_cow_def Let_def alloc_zeroed_frame_def split: option.splits)
  obtain p where p: "span p 4096 \<subseteq> F" "\<forall>i<4096. ram s' (p + of_nat i) = ram s (0x300000 + of_nat i)"
    using handle_cow_correct [OF F(1,2) example_user F(4) t' q al hc] by blast
  have "unat p \<in> span p 4096" by simp
  then have "unat p \<in> example_free" using p(1) F(3) by blast
  moreover have "ram s' p = ram s 0x300000" using p(2) [rule_format, of 0] by simp
  moreover have "handle_cow s example_sp 0x400000 = (True, s')" using hc \<open>b'\<close> by simp
  ultimately show ?thesis using t by blast
qed

text \<open>C27: a new address space is empty.  \<open>new_user\<close> never panics once the kernel's table is set; it
  takes one frame for the root, no user address translates, the kernel half is that of the kernel's
  table, the invariants hold, and without a free frame nothing changes.\<close>

theorem new_user_correct:
  assumes "free_space s F" "F \<subseteq> {..<2 ^ 52}" "aligned 12 k" "k \<noteq> 0" "span k 4096 \<inter> F = {}"
  shows "case new_user s k of
      None \<Rightarrow> False
    | Some (None, s') \<Rightarrow> s' = s \<and> F = {}
    | Some (Some sp, s') \<Rightarrow>
        span (pml4_phys sp) 4096 \<subseteq> F \<and> free_space s' (F - span (pml4_phys sp) 4096) \<and>
        pt_inv (ram s') (pml4_phys sp) (F - span (pml4_phys sp) 4096) \<and>
        (\<forall>v. user_addr v \<longrightarrow> translate s' sp v = None) \<and>
        (\<forall>i. 256 \<le> i \<and> i < 512 \<longrightarrow>
           get_entry s' (pml4 s' sp) i = get_entry s (phys_to_virt (hhdm s) k) i) \<and>
        (\<forall>x. unat x \<notin> F \<longrightarrow> ram s' x = ram s x)"
  using new_user_law [OF assms]
  by (auto simp: translate_lookup pml4_def get_entry_phys split: option.splits)

theorem new_user_correct_witness:
  "\<exists>sp s'. new_user example_mem8 0x100000 = Some (Some sp, s') \<and>
     pml4_phys sp \<noteq> 0x100000 \<and> translate s' sp 0x400000 = None"
proof -
  have k: "aligned 12 0x100000" "span 0x100000 4096 \<inter> example_free = {}" "example_free \<subseteq> {..<2 ^ 52}"
    by (auto simp: aligned_def span_def)
  note c = new_user_correct [OF example_free_space k(3,1) _ k(2)]
  obtain sp s' where r: "new_user example_mem8 0x100000 = Some (Some sp, s')"
    using c by (auto split: option.splits)
  have "span (pml4_phys sp) 4096 \<subseteq> example_free" "translate s' sp 0x400000 = None"
    using c example_user by (simp_all add: r)
  moreover have "\<not> span 0x100000 4096 \<subseteq> example_free" by (simp add: span_def)
  ultimately show ?thesis using r by metis
qed

text \<open>C28: dropping an address space terminates and returns exactly the frames of its page tables:
  afterwards the free memory is the old free memory and the tables of the user half, and no other
  memory has changed.\<close>

theorem drop_space_correct:
  assumes "free_space s F" "pt_inv (ram s) (pml4_phys sp) F" "unat (- hhdm s) \<notin> tables (ram s) (pml4_phys sp)"
  shows "\<exists>s'. drop_space s sp = Some s' \<and> free_space s' (F \<union> tables (ram s) (pml4_phys sp)) \<and>
     (\<forall>x. unat x \<notin> F \<union> tables (ram s) (pml4_phys sp) \<longrightarrow> ram s' x = ram s x)"
  unfolding drop_space_def using free_user_page_tables_law [OF assms] by blast

theorem drop_space_correct_witness:
  "\<exists>s'. drop_space example_mem8 example_sp = Some s' \<and>
     free_space s' ({0x200000..<0x208000} \<union> {0x100000..<0x101000})"
proof -
  have "unat (- hhdm example_mem8) \<notin> tables (ram example_mem8) (pml4_phys example_sp)"
    unfolding example_space_facts(2) by (simp add: example_mem8_def)
  then show ?thesis
    using drop_space_correct [OF example_free_space example_space_facts(1)]
    by (auto simp: example_space_facts(2))
qed

end
