(* ===== verification/Fork.thy ===== *)
theory Fork
  imports Sched Paging
begin

text \<open>
  Process duplication (\<open>proc/fork.rs\<close>): the copy of the user half of the page tables with writable
  pages made read-only on both sides, \<open>fork\<close> itself, and \<open>waitpid\<close>.  The operations thread the run
  queue and the memory.  The address of \<open>fork_child_return\<close> is an argument.
\<close>

unbundle bit_operations_syntax

section \<open>Copying the tables\<close>

text \<open>
  The loop the three upper levels share: each present entry of the table at \<open>parent\<close> is cloned, and
  the result stored at the same index of the table at \<open>child\<close>.  The first failure ends it.
\<close>

fun clone_entries ::
  "(kmem \<Rightarrow> u64 \<Rightarrow> u64 option \<times> kmem) \<Rightarrow> u64 \<Rightarrow> u64 \<Rightarrow> nat list \<Rightarrow> kmem \<Rightarrow> bool \<times> kmem" where
  "clone_entries clone parent child [] s = (True, s)"
| "clone_entries clone parent child (i # is) s =
     (let tab = phys_to_virt (hhdm s) parent
      in if \<not> is_present s tab i then clone_entries clone parent child is s
         else case clone s (get_entry s tab i) of
                (None, s1) \<Rightarrow> (False, s1)
              | (Some e, s1) \<Rightarrow>
                  clone_entries clone parent child is (set_entry s1 (phys_to_virt (hhdm s1) child) i e))"

definition cow_pte :: "u64 \<Rightarrow> u64" where
  "cow_pte e = (if e AND PTE_USER \<noteq> 0 then e AND NOT PTE_WRITABLE else e)"

definition clone_pt :: "kmem \<Rightarrow> u64 \<Rightarrow> u64 option \<times> kmem" where
  "clone_pt s parent_entry =
     (let parent_phys = parent_entry AND PTE_ADDR_MASK;
          flags = parent_entry AND NOT PTE_ADDR_MASK
      in case alloc_zeroed_frame s of
           None \<Rightarrow> (None, s)
         | Some (child_phys, s1) \<Rightarrow>
             (let s2 = fold (\<lambda>i s.
                  let parent_pt = phys_to_virt (hhdm s) parent_phys
                  in if \<not> is_present s parent_pt i then s
                     else set_entry s (phys_to_virt (hhdm s) child_phys) i (cow_pte (get_entry s parent_pt i)))
                  [0..<512] s1
              in (Some (child_phys OR flags), s2)))"

definition clone_pd :: "kmem \<Rightarrow> u64 \<Rightarrow> u64 option \<times> kmem" where
  "clone_pd s parent_entry =
     (if parent_entry AND PTE_LARGE \<noteq> 0 then (Some (parent_entry AND NOT PTE_WRITABLE), s)
      else let parent_phys = parent_entry AND PTE_ADDR_MASK;
               flags = parent_entry AND NOT PTE_ADDR_MASK
      in case alloc_zeroed_frame s of
           None \<Rightarrow> (None, s)
         | Some (child_phys, s1) \<Rightarrow>
             (case clone_entries clone_pt parent_phys child_phys [0..<512] s1 of
                (False, s2) \<Rightarrow> (None, s2)
              | (True, s2) \<Rightarrow> (Some (child_phys OR flags), s2)))"

definition clone_pdpt :: "kmem \<Rightarrow> u64 \<Rightarrow> u64 option \<times> kmem" where
  "clone_pdpt s parent_entry =
     (let parent_phys = parent_entry AND PTE_ADDR_MASK;
          flags = parent_entry AND NOT PTE_ADDR_MASK
      in case alloc_zeroed_frame s of
           None \<Rightarrow> (None, s)
         | Some (child_phys, s1) \<Rightarrow>
             (case clone_entries clone_pd parent_phys child_phys [0..<512] s1 of
                (False, s2) \<Rightarrow> (None, s2)
              | (True, s2) \<Rightarrow> (Some (child_phys OR flags), s2)))"

section \<open>Making the parent's pages read-only\<close>

definition make_cow_pt :: "u64 \<Rightarrow> kmem \<Rightarrow> kmem" where
  "make_cow_pt pt_phys s =
     fold (\<lambda>i s.
        let pt = phys_to_virt (hhdm s) pt_phys
        in if \<not> is_present s pt i then s
           else if get_entry s pt i AND PTE_USER \<noteq> 0
                then set_entry s pt i (get_entry s pt i AND NOT PTE_WRITABLE) else s) [0..<512] s"

definition make_cow_pd :: "u64 \<Rightarrow> kmem \<Rightarrow> kmem" where
  "make_cow_pd pd_phys s =
     fold (\<lambda>i s.
        let pd = phys_to_virt (hhdm s) pd_phys
        in if \<not> is_present s pd i then s
           else if get_entry s pd i AND PTE_LARGE \<noteq> 0
                then set_entry s pd i (get_entry s pd i AND NOT PTE_WRITABLE)
                else make_cow_pt (get_entry s pd i AND PTE_ADDR_MASK) s) [0..<512] s"

definition make_cow_pdpt :: "u64 \<Rightarrow> kmem \<Rightarrow> kmem" where
  "make_cow_pdpt pdpt_phys s =
     fold (\<lambda>i s.
        let pdpt = phys_to_virt (hhdm s) pdpt_phys
        in if \<not> is_present s pdpt i then s
           else make_cow_pd (get_entry s pdpt i AND PTE_ADDR_MASK) s) [0..<512] s"

definition make_cow_pml4 :: "u64 \<Rightarrow> kmem \<Rightarrow> kmem" where
  "make_cow_pml4 root s =
     fold (\<lambda>i s.
        let pml4 = phys_to_virt (hhdm s) root
        in if \<not> is_present s pml4 i then s
           else make_cow_pdpt (get_entry s pml4 i AND PTE_ADDR_MASK) s) [0..<256] s"

definition clone_vmspace :: "vm_space \<Rightarrow> vm_space" where
  "clone_vmspace parent =
     \<lparr>areas = map (\<lambda>vma. let flags = vma_flags vma
          in \<lparr>vma_start = vma_start vma, vma_end = vma_end vma,
              vma_flags = (if flags_contains flags VMA_WRITE \<and> flags_contains flags VMA_ANONYMOUS
                           then flags OR VMA_COPY_ON_WRITE else flags)\<rparr>) (areas parent),
      brk = brk parent\<rparr>"

definition clone_address_space ::
  "kmem \<Rightarrow> address_space \<Rightarrow> vm_space \<Rightarrow> (address_space \<times> vm_space) option \<times> kmem" where
  "clone_address_space s parent_space parent_vm =
     (case alloc_zeroed_frame s of
        None \<Rightarrow> (None, s)
      | Some (child_pml4_phys, s1) \<Rightarrow>
          (let parent_pml4 = phys_to_virt (hhdm s1) (pml4_phys parent_space);
               child_space = \<lparr>pml4_phys = child_pml4_phys\<rparr>
           in case clone_entries clone_pdpt (pml4_phys parent_space) child_pml4_phys [0..<256] s1 of
             (False, s2) \<Rightarrow> (None, s2)
           | (True, s2) \<Rightarrow>
               (let s3 = fold (\<lambda>i s. set_entry s (pml4 s child_space) i (get_entry s parent_pml4 i)) [256..<512] s2;
                    s4 = make_cow_pml4 (pml4_phys parent_space) s3
                in (Some (child_space, clone_vmspace parent_vm), s4))))"

section \<open>Fork\<close>

definition ENOSYS :: i64 where "ENOSYS = 38"
definition EINVAL :: i64 where "EINVAL = 22"
definition EBADF :: i64 where "EBADF = 9"
definition ENOMEM :: i64 where "ENOMEM = 12"
definition EFAULT :: i64 where "EFAULT = 14"
definition EAGAIN :: i64 where "EAGAIN = 11"
definition ENOENT :: i64 where "ENOENT = 2"

text \<open>The process both system calls build; they differ in the signal mask of the child.\<close>

definition fork_child ::
  "process \<Rightarrow> u32 \<Rightarrow> address_space \<Rightarrow> vm_space \<Rightarrow> u64 \<Rightarrow> u64 \<Rightarrow> u64 \<Rightarrow> process" where
  "fork_child parent child_pid sp vm kstack_virt fork_child_return smask =
     (let kstack_top = kstack_virt + KERNEL_STACK_SIZE
      in \<lparr>p_pid = child_pid, p_ppid = p_pid parent, p_state = Runnable,
          p_context = (p_context parent)\<lparr>c_rsp := kstack_top, c_rip := fork_child_return\<rparr>,
          p_space = sp, p_vm = vm, p_kernel_stack = kstack_virt,
          p_kernel_stack_size = KERNEL_STACK_SIZE, p_priority = p_priority parent,
          p_time_slice = p_base_slice parent, p_base_slice = p_base_slice parent, p_exit_code = 0,
          p_name = p_name parent, p_pending_signals = 0, p_signal_mask = smask\<rparr>)"

text \<open>
  When there is no kernel stack left the cloned address space goes out of scope and is dropped, which
  releases its tables.
\<close>

definition fork_with :: "(process \<Rightarrow> u64) \<Rightarrow> u64 \<Rightarrow> run_queue \<Rightarrow> kmem \<Rightarrow> (i64 \<times> run_queue \<times> kmem) option" where
  "fork_with sigmask fork_child_return q s =
     (case current_process q of
        None \<Rightarrow> Some (- EINVAL, q, s)
      | Some parent_arc \<Rightarrow>
          (case alloc_pid q of (child_pid, q1) \<Rightarrow>
             (let parent = procs q1 ! parent_arc
              in case clone_address_space s (p_space parent) (p_vm parent) of
                   (None, s1) \<Rightarrow> Some (- ENOMEM, q1, s1)
                 | (Some (sp, vm), s1) \<Rightarrow>
                     (case alloc_frames s1 2 of
                        None \<Rightarrow> map_option (\<lambda>s2. (- ENOMEM, q1, s2)) (drop_space s1 sp)
                      | Some (kstack_phys, s2) \<Rightarrow>
                          (let kstack_virt = phys_to_virt (hhdm s2) kstack_phys;
                               child = fork_child parent child_pid sp vm kstack_virt fork_child_return (sigmask parent)
                           in case arc_new q1 child of
                                (child_arc, q2) \<Rightarrow> Some (ucast child_pid, spawn q2 child_arc, s2))))))"

definition sys_fork :: "u64 \<Rightarrow> run_queue \<Rightarrow> kmem \<Rightarrow> (i64 \<times> run_queue \<times> kmem) option" where
  "sys_fork = fork_with (\<lambda>_. 0)"

definition sys_fork_simple :: "u64 \<Rightarrow> run_queue \<Rightarrow> kmem \<Rightarrow> (i64 \<times> run_queue \<times> kmem) option" where
  "sys_fork_simple = fork_with p_signal_mask"

section \<open>Waiting for a child\<close>

definition find_zombie_child :: "run_queue \<Rightarrow> i32 \<Rightarrow> (u32 \<times> u32) option" where
  "find_zombie_child q target_pid =
     (case current q of
        None \<Rightarrow> None
      | Some c \<Rightarrow>
          (let current_pid = p_pid (procs q ! c)
           in map_option (\<lambda>p. (p_pid (procs q ! p), p_exit_code (procs q ! p)))
                (find (\<lambda>p. p_ppid (procs q ! p) = current_pid
                         \<and> \<not> (target_pid \<noteq> -1 \<and> p_pid (procs q ! p) \<noteq> target_pid)
                         \<and> p_state (procs q ! p) = Zombie) (queue q))))"

definition reap_zombie :: "run_queue \<Rightarrow> u32 \<Rightarrow> run_queue" where
  "reap_zombie q pid = q\<lparr>queue := filter (\<lambda>p. p_pid (procs q ! p) \<noteq> pid) (queue q)\<rparr>"

text \<open>
  One round of the loop of \<open>sys_waitpid\<close>: the value it returns, or the switch away after which the
  loop starts again.
\<close>

definition waitpid_round ::
  "i32 \<Rightarrow> u64 \<Rightarrow> u32 \<Rightarrow> run_queue \<Rightarrow> kmem \<Rightarrow> (i64 + cpu_action) \<times> run_queue \<times> kmem" where
  "waitpid_round pid wstatus_ptr options q s =
     (let WNOHANG = 1
      in case find_zombie_child q pid of
           Some (child_pid, exit_code) \<Rightarrow>
             (let s1 = (if wstatus_ptr \<noteq> 0
                        then (let wstatus = push_bit 8 (exit_code AND 0xFF) :: u32
                              in case current_process q of
                                   None \<Rightarrow> s
                                 | Some p \<Rightarrow>
                                     (case translate s (p_space (procs q ! p)) wstatus_ptr of
                                        None \<Rightarrow> s
                                      | Some phys \<Rightarrow>
                                          s\<lparr>ram := store_bytes (ram s)
                                               (virt_to_phys (hhdm s) (phys_to_virt (hhdm s) phys))
                                               (to_le_bytes 4 wstatus)\<rparr>))
                        else s)
              in (Inl (ucast child_pid), reap_zombie q child_pid, s1))
         | None \<Rightarrow>
             if options AND WNOHANG \<noteq> 0 then (Inl 0, q, s)
             else case sleep_current q of (q1, act) \<Rightarrow> (Inr act, q1, s))"

section \<open>Trees of tables by level\<close>

text \<open>
  Level 0 is a table of leaf entries, level 1 a page directory, level 2 a pointer table.  \<open>foot\<close> is the
  memory the tables below one table occupy, \<open>small\<close> that none of them maps a large page.
\<close>

abbreviation present :: "u64 \<Rightarrow> bool" where
  "present e \<equiv> e AND PTE_PRESENT \<noteq> 0"

abbreviation addr_of :: "u64 \<Rightarrow> u64" where
  "addr_of e \<equiv> e AND PTE_ADDR_MASK"

fun foot :: "nat \<Rightarrow> ram \<Rightarrow> u64 \<Rightarrow> nat set" where
  "foot 0 m t = span t 4096"
| "foot (Suc n) m t = span t 4096 \<union> (\<Union>i\<in>{i. i < 512 \<and> present (pte m t i)}. foot n m (addr_of (pte m t i)))"

fun small :: "nat \<Rightarrow> ram \<Rightarrow> u64 \<Rightarrow> bool" where
  "small 0 m t \<longleftrightarrow> True"
| "small (Suc n) m t \<longleftrightarrow>
     (\<forall>i<512. pte m t i AND PTE_LARGE = 0 \<and> (present (pte m t i) \<longrightarrow> small n m (addr_of (pte m t i))))"

text \<open>The table \<open>t'\<close> of \<open>m'\<close> is the copy the code makes of \<open>t\<close> of \<open>m\<close>, down to the leaf entries.\<close>

fun clones :: "nat \<Rightarrow> ram \<Rightarrow> u64 \<Rightarrow> ram \<Rightarrow> u64 \<Rightarrow> bool" where
  "clones 0 m t m' t' \<longleftrightarrow> (\<forall>i<512. pte m' t' i = (if present (pte m t i) then cow_pte (pte m t i) else 0))"
| "clones (Suc n) m t m' t' \<longleftrightarrow>
     (\<forall>i<512. if present (pte m t i)
        then pte m' t' i AND NOT PTE_ADDR_MASK = pte m t i AND NOT PTE_ADDR_MASK
             \<and> clones n m (addr_of (pte m t i)) m' (addr_of (pte m' t' i))
        else pte m' t' i = 0)"

text \<open>
  A tree in which no table is shared: the subtrees of a table are apart from it and from each other.
\<close>

definition branches :: "nat \<Rightarrow> ram \<Rightarrow> u64 \<Rightarrow> nat \<Rightarrow> bool" where
  "branches n m t N \<longleftrightarrow> (\<forall>i<N. present (pte m t i) \<longrightarrow> span t 4096 \<inter> foot n m (addr_of (pte m t i)) = {} \<and>
     (\<forall>j<i. present (pte m t j) \<longrightarrow> foot n m (addr_of (pte m t i)) \<inter> foot n m (addr_of (pte m t j)) = {}))"

fun solid :: "nat \<Rightarrow> ram \<Rightarrow> u64 \<Rightarrow> bool" where
  "solid 0 m t \<longleftrightarrow> True"
| "solid (Suc n) m t \<longleftrightarrow> branches n m t 512 \<and> (\<forall>i<512. present (pte m t i) \<longrightarrow> solid n m (addr_of (pte m t i)))"

definition copied :: "nat \<Rightarrow> ram \<Rightarrow> u64 \<Rightarrow> ram \<Rightarrow> u64 \<Rightarrow> bool" where
  "copied n m e m' e' \<longleftrightarrow>
     e' AND NOT PTE_ADDR_MASK = e AND NOT PTE_ADDR_MASK \<and> clones n m (addr_of e) m' (addr_of e') \<and> solid n m' (addr_of e')"

lemma foot_self: "span t 4096 \<subseteq> foot n m t"
  by (cases n) auto

lemma foot_sub: "i < 512 \<Longrightarrow> present (pte m t i) \<Longrightarrow> foot n m (addr_of (pte m t i)) \<subseteq> foot (Suc n) m t"
  by auto

lemma pte_agree:
  assumes "aligned 12 t" "i < 512" "\<And>x. unat x \<in> foot n m t \<Longrightarrow> m' x = m x"
  shows "pte m' t i = pte m t i"
  using assms foot_self [of t n m] by (intro pte_cong) blast+

lemma foot_cong:
  "aligned 12 t \<Longrightarrow> (\<And>x. unat x \<in> foot n m t \<Longrightarrow> m' x = m x) \<Longrightarrow> foot n m' t = foot n m t"
proof (induction n arbitrary: t)
  case 0
  then show ?case by simp
next
  case (Suc n)
  have p: "pte m' t i = pte m t i" if "i < 512" for i
    using pte_agree [OF Suc.prems(1) that, of "Suc n" m m'] Suc.prems(2) by blast
  have "foot n m' (addr_of (pte m t i)) = foot n m (addr_of (pte m t i))" if "i < 512" "present (pte m t i)" for i
    using that foot_sub [OF that] Suc.prems(2) by (intro Suc.IH aligned_mask) blast
  then have "(\<Union>i\<in>{i. i < 512 \<and> present (pte m' t i)}. foot n m' (addr_of (pte m' t i))) =
      (\<Union>i\<in>{i. i < 512 \<and> present (pte m t i)}. foot n m (addr_of (pte m t i)))"
    using p by auto
  then show ?case by simp
qed

lemma small_cong:
  "aligned 12 t \<Longrightarrow> (\<And>x. unat x \<in> foot n m t \<Longrightarrow> m' x = m x) \<Longrightarrow> small n m' t = small n m t"
proof (induction n arbitrary: t)
  case 0
  then show ?case by simp
next
  case (Suc n)
  have p: "pte m' t i = pte m t i" if "i < 512" for i
    using pte_agree [OF Suc.prems(1) that, of "Suc n" m m'] Suc.prems(2) by blast
  have "small n m' (addr_of (pte m t i)) = small n m (addr_of (pte m t i))" if "i < 512" "present (pte m t i)" for i
    using that foot_sub [OF that] Suc.prems(2) by (intro Suc.IH aligned_mask) blast
  then show ?case using p by auto
qed

lemma clones_child_cong:
  "aligned 12 t' \<Longrightarrow> (\<And>x. unat x \<in> foot n m1 t' \<Longrightarrow> m2 x = m1 x) \<Longrightarrow> clones n m t m1 t' \<Longrightarrow> clones n m t m2 t'"
proof (induction n arbitrary: t t')
  case 0
  have "pte m2 t' i = pte m1 t' i" if "i < 512" for i
    using pte_agree [OF 0(1) that, of 0 m1 m2] 0(2) by blast
  then show ?case using 0(3) by simp
next
  case (Suc n)
  have p: "pte m2 t' i = pte m1 t' i" if "i < 512" for i
    using pte_agree [OF Suc.prems(1) that, of "Suc n" m1 m2] Suc.prems(2) by blast
  have "clones n m (addr_of (pte m t i)) m2 (addr_of (pte m1 t' i))"
    if i: "i < 512" "present (pte m t i)" for i
  proof -
    have e: "pte m1 t' i AND NOT PTE_ADDR_MASK = pte m t i AND NOT PTE_ADDR_MASK"
      "clones n m (addr_of (pte m t i)) m1 (addr_of (pte m1 t' i))"
      using Suc.prems(3) i by auto
    have "bit (pte m1 t' i AND NOT PTE_ADDR_MASK) 0 = bit (pte m t i AND NOT PTE_ADDR_MASK) 0" using e(1) by simp
    then have "present (pte m1 t' i)" using i(2) by (simp add: present_iff bit_and_iff bit_not_iff bit_addr_mask)
    then show ?thesis
      using foot_sub [OF i(1), of m1 t' n] Suc.prems(2) e(2) by (intro Suc.IH [OF aligned_mask]) blast+
  qed
  then show ?case using Suc.prems(3) p by simp
qed

lemma clones_parent_cong:
  "aligned 12 t \<Longrightarrow> (\<And>x. unat x \<in> foot n m t \<Longrightarrow> m' x = m x) \<Longrightarrow> clones n m' t a b = clones n m t a b"
proof (induction n arbitrary: t b)
  case 0
  have "pte m' t i = pte m t i" if "i < 512" for i using pte_agree [OF 0(1) that, of 0 m m'] 0(2) by blast
  then show ?case by simp
next
  case (Suc n)
  have p: "pte m' t i = pte m t i" if "i < 512" for i
    using pte_agree [OF Suc.prems(1) that, of "Suc n" m m'] Suc.prems(2) by blast
  have "clones n m' (addr_of (pte m t i)) a b' = clones n m (addr_of (pte m t i)) a b'"
    if "i < 512" "present (pte m t i)" for i b'
    using that foot_sub [OF that] Suc.prems(2) by (intro Suc.IH aligned_mask) blast
  then show ?case using p by simp
qed

lemma branches_cong:
  assumes "\<And>i. i < N \<Longrightarrow> pte m' t' i = pte m t' i"
    "\<And>i. i < N \<Longrightarrow> present (pte m t' i) \<Longrightarrow> foot n m' (addr_of (pte m t' i)) = foot n m (addr_of (pte m t' i))"
  shows "branches n m' t' N = branches n m t' N"
  unfolding branches_def using assms by (simp cong: conj_cong)

lemma solid_cong:
  "aligned 12 t \<Longrightarrow> (\<And>x. unat x \<in> foot n m t \<Longrightarrow> m' x = m x) \<Longrightarrow> solid n m' t = solid n m t"
proof (induction n arbitrary: t)
  case (Suc n)
  have p: "pte m' t i = pte m t i" if "i < 512" for i
    using pte_agree [OF Suc.prems(1) that, of "Suc n" m m'] Suc.prems(2) by blast
  have sub: "solid n m' (addr_of (pte m t i)) = solid n m (addr_of (pte m t i)) \<and>
      foot n m' (addr_of (pte m t i)) = foot n m (addr_of (pte m t i))" if "i < 512" "present (pte m t i)" for i
    using that foot_sub [OF that] Suc.prems(2) by (intro conjI Suc.IH foot_cong aligned_mask) blast+
  have "branches n m' t 512 = branches n m t 512" using p sub by (intro branches_cong) auto
  then show ?case using p sub by simp
qed simp

lemma entry_join:
  assumes "aligned 12 c" "unat c < 2 ^ 52"
  shows "addr_of (c OR (e AND NOT PTE_ADDR_MASK)) = c"
    "(c OR (e AND NOT PTE_ADDR_MASK)) AND NOT PTE_ADDR_MASK = e AND NOT PTE_ADDR_MASK"
proof -
  have c: "c AND PTE_ADDR_MASK = c" by (rule frame_mask [OF assms])
  then have b: "bit c n \<Longrightarrow> bit PTE_ADDR_MASK n" for n by (metis bit_and_iff)
  show "addr_of (c OR (e AND NOT PTE_ADDR_MASK)) = c"
    "(c OR (e AND NOT PTE_ADDR_MASK)) AND NOT PTE_ADDR_MASK = e AND NOT PTE_ADDR_MASK"
    using b by (auto intro!: bit_word_eqI simp: bit_and_iff bit_or_iff bit_not_iff)
qed

section \<open>Copying one level\<close>

text \<open>Memory changes inside the free frames only, and fewer of them are left.\<close>

definition grows :: "kmem \<Rightarrow> nat set \<Rightarrow> kmem \<Rightarrow> nat set \<Rightarrow> bool" where
  "grows s F s' F' \<longleftrightarrow> F' \<subseteq> F \<and> free_space s' F' \<and> hhdm s' = hhdm s \<and> (\<forall>x. unat x \<notin> F \<longrightarrow> ram s' x = ram s x)"

definition clone_law :: "nat \<Rightarrow> (kmem \<Rightarrow> u64 \<Rightarrow> u64 option \<times> kmem) \<Rightarrow> bool" where
  "clone_law n clone \<longleftrightarrow> (\<forall>s F e r s'. free_space s F \<longrightarrow> F \<subseteq> {..<2 ^ 52} \<longrightarrow> e AND PTE_LARGE = 0 \<longrightarrow>
     small n (ram s) (addr_of e) \<longrightarrow> foot n (ram s) (addr_of e) \<inter> F = {} \<longrightarrow> clone s e = (r, s') \<longrightarrow>
     (\<exists>F'. grows s F s' F' \<and>
        (\<forall>e'. r = Some e' \<longrightarrow> copied n (ram s) e (ram s') e' \<and> foot n (ram s') (addr_of e') \<subseteq> F - F')))"

text \<open>The state of the loop at index \<open>j\<close>: what is before is copied, what is after still empty.\<close>

definition half_cloned ::
  "nat \<Rightarrow> ram \<Rightarrow> u64 \<Rightarrow> u64 \<Rightarrow> nat set \<Rightarrow> nat \<Rightarrow> kmem \<Rightarrow> nat set \<Rightarrow> bool" where
  "half_cloned n m0 p c F0 j s F \<longleftrightarrow> F \<subseteq> F0 \<and> free_space s F \<and>
     (\<forall>x. unat x \<notin> F0 \<union> span c 4096 \<longrightarrow> ram s x = m0 x) \<and>
     (\<forall>i<512. if i < j \<and> present (pte m0 p i)
        then copied n m0 (pte m0 p i) (ram s) (pte (ram s) c i) \<and>
             foot n (ram s) (addr_of (pte (ram s) c i)) \<subseteq> F0 - F
        else pte (ram s) c i = 0) \<and>
     (\<forall>i<j. \<forall>k<i. i < 512 \<and> present (pte m0 p i) \<and> present (pte m0 p k) \<longrightarrow>
        foot n (ram s) (addr_of (pte (ram s) c i)) \<inter> foot n (ram s) (addr_of (pte (ram s) c k)) = {})"

definition tree_apart :: "nat \<Rightarrow> ram \<Rightarrow> u64 \<Rightarrow> nat \<Rightarrow> nat set \<Rightarrow> bool" where
  "tree_apart n m p N U \<longleftrightarrow> aligned 12 p \<and> span p 4096 \<inter> U = {} \<and>
     (\<forall>i<N. pte m p i AND PTE_LARGE = 0 \<and>
        (present (pte m p i) \<longrightarrow> small n m (addr_of (pte m p i)) \<and> foot n m (addr_of (pte m p i)) \<inter> U = {}))"

lemma copied_child_cong:
  assumes "copied n m e m1 e'" "\<And>x. unat x \<in> foot n m1 (addr_of e') \<Longrightarrow> m2 x = m1 x"
  shows "copied n m e m2 e' \<and> foot n m2 (addr_of e') = foot n m1 (addr_of e')"
  using assms clones_child_cong [OF aligned_mask, of n m1 _ m2] foot_cong [OF aligned_mask, of n m1 _ m2]
    solid_cong [OF aligned_mask, of n m1 _ m2]
  unfolding copied_def by blast

lemma half_cloned_skip:
  assumes "half_cloned n m0 p c F0 j s F" "\<not> present (pte m0 p j)"
  shows "half_cloned n m0 p c F0 (Suc j) s F"
proof -
  have "i < Suc j \<and> present (pte m0 p i) \<longleftrightarrow> i < j \<and> present (pte m0 p i)" for i
    using assms(2) by (auto simp: less_Suc_eq)
  moreover have "i < j" if "i < Suc j" "present (pte m0 p i)" for i
    using assms(2) that by (auto simp: less_Suc_eq)
  ultimately show ?thesis using assms(1) unfolding half_cloned_def by simp
qed

lemma half_cloned_step:
  assumes h: "half_cloned n m0 p c F0 j s F" and j: "j < 512" "present (pte m0 p j)"
    and c: "aligned 12 c" "span c 4096 \<inter> F0 = {}"
    and g: "grows s F s1 F1" and e: "copied n m0 (pte m0 p j) (ram s1) e" "foot n (ram s1) (addr_of e) \<subseteq> F - F1"
    and s2: "s2 = s1\<lparr>ram := store64 (ram s1) (c + 8 * of_nat j) e\<rparr>"
  shows "half_cloned n m0 p c F0 (Suc j) s2 F1"
proof -
  have F: "F1 \<subseteq> F" "F \<subseteq> F0" "free_space s1 F1" using h g by (auto simp: half_cloned_def grows_def)
  have store: "ram s2 x = ram s1 x" if "unat x \<notin> span c 4096" for x
  proof -
    have "unat x \<notin> span (c + 8 * of_nat j) 8" using that cell_span [OF c(1) j(1)] by blast
    then show ?thesis unfolding s2 by (simp add: store64_other [OF cell_bound [OF c(1) j(1)]])
  qed
  have fs: "free_space s2 F1"
    unfolding s2 using F c(2) store unfolding s2 by (intro pmm_mem.set_mem_free) auto
  have keep: "ram s2 x = ram s x" if "unat x \<notin> F" "unat x \<notin> span c 4096" for x
    using that store g by (simp add: grows_def)
  have off: "ram s2 x = m0 x" if "unat x \<notin> F0 \<union> span c 4096" for x
  proof -
    have "unat x \<notin> F" using that F(2) by blast
    then show ?thesis using keep [of x] that h by (simp add: half_cloned_def)
  qed
  have same: "pte (ram s2) c i = pte (ram s) c i" if "i < 512" "i \<noteq> j" for i
  proof -
    have "pte (ram s2) c i = pte (ram s1) c i"
      unfolding s2 using that j(1) pte_store_other [OF c(1) c(1) j(1) that(1)] by simp
    also have "\<dots> = pte (ram s) c i"
      using that(1) g c F by (intro pte_cong [OF c(1)]) (auto simp: grows_def)
    finally show ?thesis .
  qed
  have own: "pte (ram s2) c j = e" unfolding s2 by (simp add: pte_store_same)
  have new: "copied n m0 (pte m0 p j) (ram s2) e" "foot n (ram s2) (addr_of e) \<subseteq> F - F1"
  proof -
    have "copied n m0 (pte m0 p j) (ram s2) e \<and> foot n (ram s2) (addr_of e) = foot n (ram s1) (addr_of e)"
      using e F(1,2) c(2) by (intro copied_child_cong store) blast+
    then show "copied n m0 (pte m0 p j) (ram s2) e" "foot n (ram s2) (addr_of e) \<subseteq> F - F1" using e(2) by auto
  qed
  have old: "copied n m0 (pte m0 p i) (ram s2) (pte (ram s2) c i)"
    "foot n (ram s2) (addr_of (pte (ram s2) c i)) = foot n (ram s) (addr_of (pte (ram s) c i))"
    "foot n (ram s) (addr_of (pte (ram s) c i)) \<subseteq> F0 - F" if i: "i < j" "present (pte m0 p i)" for i
  proof -
    have i': "i < 512" "i \<noteq> j" using i j by auto
    have o: "copied n m0 (pte m0 p i) (ram s) (pte (ram s) c i)"
      "foot n (ram s) (addr_of (pte (ram s) c i)) \<subseteq> F0 - F" using h i i'(1) by (auto simp: half_cloned_def)
    have "copied n m0 (pte m0 p i) (ram s2) (pte (ram s) c i) \<and>
        foot n (ram s2) (addr_of (pte (ram s) c i)) = foot n (ram s) (addr_of (pte (ram s) c i))"
      using o F(2) c(2) by (intro copied_child_cong keep) blast+
    then show "copied n m0 (pte m0 p i) (ram s2) (pte (ram s2) c i)"
      "foot n (ram s2) (addr_of (pte (ram s2) c i)) = foot n (ram s) (addr_of (pte (ram s) c i))"
      "foot n (ram s) (addr_of (pte (ram s) c i)) \<subseteq> F0 - F" using o(2) same [OF i'] by simp_all
  qed
  have cell: "if i < Suc j \<and> present (pte m0 p i)
        then copied n m0 (pte m0 p i) (ram s2) (pte (ram s2) c i) \<and>
             foot n (ram s2) (addr_of (pte (ram s2) c i)) \<subseteq> F0 - F1
        else pte (ram s2) c i = 0" if i: "i < 512" for i
  proof -
    consider "i = j" | "i < j" "present (pte m0 p i)" | "i \<noteq> j" "\<not> (i < j \<and> present (pte m0 p i))" by linarith
    then show ?thesis
    proof cases
      case 1
      then show ?thesis using new own j(2) F by auto
    next
      case 2
      then show ?thesis using old [OF 2] F by auto
    next
      case 3
      then have "pte (ram s) c i = 0" using h i by (auto simp: half_cloned_def)
      then show ?thesis using 3 same [OF i 3(1)] by (auto simp: less_Suc_eq)
    qed
  qed
  have apart: "foot n (ram s2) (addr_of (pte (ram s2) c i)) \<inter> foot n (ram s2) (addr_of (pte (ram s2) c k)) = {}"
    if i: "i < Suc j" "k < i" "present (pte m0 p i)" "present (pte m0 p k)" for i k
  proof (cases "i = j")
    case True
    then show ?thesis using new(2) own old(2,3) [of k] i F(2) by auto
  next
    case False
    then have ij: "i < j" "k < j" using i by auto
    then have "foot n (ram s) (addr_of (pte (ram s) c i)) \<inter> foot n (ram s) (addr_of (pte (ram s) c k)) = {}"
      using h i j(1) by (simp add: half_cloned_def)
    then show ?thesis using old(2) [OF ij(1) i(3)] old(2) [OF ij(2) i(4)] by simp
  qed
  show ?thesis unfolding half_cloned_def using F fs off cell apart by blast
qed

lemma clone_entries_law:
  assumes law: "clone_law n clone" and c: "aligned 12 c" "span c 4096 \<inter> F0 = {}" and F0: "F0 \<subseteq> {..<2 ^ 52}"
    and p: "tree_apart n m0 p N (F0 \<union> span c 4096)" and N: "N \<le> 512" "j \<le> N"
    and h: "half_cloned n m0 p c F0 j s F" and r: "clone_entries clone p c [j..<N] s = (good, s')"
  shows "\<exists>F'. F' \<subseteq> F0 \<and> free_space s' F' \<and> hhdm s' = hhdm s \<and>
    (\<forall>x. unat x \<notin> F0 \<union> span c 4096 \<longrightarrow> ram s' x = m0 x) \<and>
    (good \<longrightarrow> half_cloned n m0 p c F0 N s' F')"
  using N(2) h r
proof (induction "N - j" arbitrary: j s F)
  case 0
  then have "j = N" "s' = s" by auto
  then show ?case using 0(3) by (intro exI [of _ F]) (simp add: half_cloned_def)
next
  case (Suc k)
  then have j: "j < N" "j < 512" "k = N - Suc j" using N by auto
  have F: "F \<subseteq> F0" "free_space s F" using Suc.prems(2) by (auto simp: half_cloned_def)
  have agree: "ram s x = m0 x" if "unat x \<notin> F0 \<union> span c 4096" for x
    using Suc.prems(2) that by (simp add: half_cloned_def)
  have ap: "aligned 12 p" "span p 4096 \<inter> (F0 \<union> span c 4096) = {}" using p by (auto simp: tree_apart_def)
  have e: "pte (ram s) p j = pte m0 p j" using agree ap j(2) by (intro pte_cong) auto
  let ?e = "pte m0 p j"
  show ?case
  proof (cases "present ?e")
    case False
    then have "clone_entries clone p c [Suc j..<N] s = (good, s')"
      using Suc.prems(3) j(1) e by (simp add: upt_conv_Cons is_present_def get_entry_phys Let_def)
    then show ?thesis using Suc.hyps(1) [OF j(3) _ half_cloned_skip [OF Suc.prems(2) False]] j(1) by auto
  next
    case True
    have sub: "?e AND PTE_LARGE = 0" "small n m0 (addr_of ?e)" "foot n m0 (addr_of ?e) \<inter> (F0 \<union> span c 4096) = {}"
      using p j(1) True by (auto simp: tree_apart_def)
    have fc: "foot n (ram s) (addr_of ?e) = foot n m0 (addr_of ?e)" "small n (ram s) (addr_of ?e) = small n m0 (addr_of ?e)"
      using sub(3) agree by (intro foot_cong small_cong aligned_mask; blast)+
    obtain r1 s1 where r1: "clone s ?e = (r1, s1)" by (metis surj_pair)
    obtain F1 where F1: "grows s F s1 F1"
      "\<And>e'. r1 = Some e' \<Longrightarrow> copied n (ram s) ?e (ram s1) e' \<and> foot n (ram s1) (addr_of e') \<subseteq> F - F1"
    proof -
      have "F \<subseteq> {..<2 ^ 52}" "small n (ram s) (addr_of ?e)" "foot n (ram s) (addr_of ?e) \<inter> F = {}"
        using F F0 fc sub by auto
      from law [unfolded clone_law_def, rule_format, OF F(2) this(1) sub(1) this(2,3) r1] show ?thesis
        using that by blast
    qed
    show ?thesis
    proof (cases r1)
      case None
      then have "good = False" "s' = s1"
        using Suc.prems(3) j(1) e True r1 by (auto simp: upt_conv_Cons is_present_def get_entry_phys Let_def)
      then show ?thesis using F1(1) F agree by (intro exI [of _ F1]) (auto simp: grows_def)
    next
      case (Some e')
      let ?s2 = "s1\<lparr>ram := store64 (ram s1) (c + 8 * of_nat j) e'\<rparr>"
      have hh: "hhdm s1 = hhdm s" using F1(1) by (simp add: grows_def)
      have rest: "clone_entries clone p c [Suc j..<N] ?s2 = (good, s')"
        using Suc.prems(3) j(1) e True r1 Some
        by (simp add: upt_conv_Cons is_present_def get_entry_phys set_entry_phys Let_def)
      have "copied n (ram s) ?e (ram s1) e'" "foot n (ram s1) (addr_of e') \<subseteq> F - F1" using F1(2) Some by auto
      moreover have "clones n (ram s) (addr_of ?e) a b = clones n m0 (addr_of ?e) a b" for a b
        using sub(3) agree by (intro clones_parent_cong aligned_mask) blast
      ultimately have "copied n m0 ?e (ram s1) e'" "foot n (ram s1) (addr_of e') \<subseteq> F - F1"
        by (auto simp: copied_def)
      then have "half_cloned n m0 p c F0 (Suc j) ?s2 F1"
        using half_cloned_step [OF Suc.prems(2) j(2) True c F1(1)] by blast
      then show ?thesis using Suc.hyps(1) [OF j(3) _ _ rest] j(1) hh by auto
    qed
  qed
qed

text \<open>A new zeroed child table, before anything is copied into it.\<close>

lemma fresh_child:
  assumes "free_space s F" "F \<subseteq> {..<2 ^ 52}" "alloc_zeroed_frame s = Some (c, s1)"
  shows "half_cloned n (ram s1) p c (F - span c 4096) 0 s1 (F - span c 4096)"
    "span c 4096 \<inter> (F - span c 4096) = {}" "\<And>x. unat x \<notin> F \<Longrightarrow> ram s1 x = ram s x" "hhdm s1 = hhdm s"
    "span c 4096 \<subseteq> F" "aligned 12 c" "unat c < 2 ^ 52"
  using alloc_zeroed_frame_law [OF assms(1,3)] alloc_zeroed_facts [OF assms] pte_zero [of c _ "ram s1"]
  by (auto simp: half_cloned_def)

lemma tree_apart_cong:
  assumes p: "tree_apart n m p N U" and N: "N \<le> 512" and eq: "\<And>x. unat x \<notin> U \<Longrightarrow> m' x = m x"
  shows "tree_apart n m' p N U"
proof -
  have a: "aligned 12 p" "span p 4096 \<inter> U = {}" using p by (auto simp: tree_apart_def)
  have e: "pte m' p i = pte m p i" if "i < N" for i
    using that N a eq by (intro pte_cong) auto
  have "foot n m' (addr_of (pte m p i)) = foot n m (addr_of (pte m p i)) \<and>
      small n m' (addr_of (pte m p i)) = small n m (addr_of (pte m p i))" if "i < N" "present (pte m p i)" for i
  proof -
    have "foot n m (addr_of (pte m p i)) \<inter> U = {}" using p that by (simp add: tree_apart_def)
    then have ag: "m' x = m x" if "unat x \<in> foot n m (addr_of (pte m p i))" for x using that eq by blast
    show ?thesis by (intro conjI foot_cong small_cong aligned_mask ag)
  qed
  then show ?thesis using p e by (simp add: tree_apart_def)
qed

lemma tree_apart_small:
  assumes "aligned 12 t" "small (Suc n) m t" "foot (Suc n) m t \<inter> U = {}"
  shows "tree_apart n m t 512 U"
  using assms by (auto simp: tree_apart_def)

lemma half_cloned_cell:
  assumes "half_cloned n m p c F0 N s F" "i < N" "N \<le> 512" "present (pte (ram s) c i)"
  shows "present (pte m p i)" "copied n m (pte m p i) (ram s) (pte (ram s) c i)"
    "foot n (ram s) (addr_of (pte (ram s) c i)) \<subseteq> F0 - F"
proof -
  have "i < 512" using assms(2,3) by simp
  then have cell: "if i < N \<and> present (pte m p i)
      then copied n m (pte m p i) (ram s) (pte (ram s) c i) \<and> foot n (ram s) (addr_of (pte (ram s) c i)) \<subseteq> F0 - F
      else pte (ram s) c i = 0"
    using assms(1) by (simp add: half_cloned_def)
  then show "present (pte m p i)" "copied n m (pte m p i) (ram s) (pte (ram s) c i)"
    "foot n (ram s) (addr_of (pte (ram s) c i)) \<subseteq> F0 - F" using assms(2,4) by (auto split: if_splits)
qed

lemma half_cloned_branches:
  assumes h: "half_cloned n m p c F0 N s F" "N \<le> 512" and c: "span c 4096 \<inter> F0 = {}"
  shows "branches n (ram s) c N"
proof -
  have "foot n (ram s) (addr_of (pte (ram s) c i)) \<inter> foot n (ram s) (addr_of (pte (ram s) c k)) = {}"
    if "i < N" "k < i" "present (pte (ram s) c i)" "present (pte (ram s) c k)" for i k
  proof -
    have "present (pte m p i)" "present (pte m p k)" using half_cloned_cell(1) [OF h(1) _ h(2)] that by auto
    then show ?thesis using h that by (simp add: half_cloned_def)
  qed
  moreover have "span c 4096 \<inter> foot n (ram s) (addr_of (pte (ram s) c i)) = {}" if "i < N" "present (pte (ram s) c i)" for i
    using half_cloned_cell(3) [OF h(1) that(1) h(2) that(2)] c by blast
  ultimately show ?thesis unfolding branches_def by blast
qed

lemma half_cloned_clones:
  assumes h: "half_cloned n m p c F0 512 s F" and c: "span c 4096 \<inter> F0 = {}"
  shows "clones (Suc n) m p (ram s) c" "foot (Suc n) (ram s) c \<subseteq> (F0 - F) \<union> span c 4096" "solid (Suc n) (ram s) c"
proof -
  have cell: "if present (pte m p i)
      then copied n m (pte m p i) (ram s) (pte (ram s) c i) \<and> foot n (ram s) (addr_of (pte (ram s) c i)) \<subseteq> F0 - F
      else pte (ram s) c i = 0" if "i < 512" for i
    using h that by (simp add: half_cloned_def)
  show "clones (Suc n) m p (ram s) c"
    using cell by (fastforce simp: copied_def split: if_splits)
  show "foot (Suc n) (ram s) c \<subseteq> (F0 - F) \<union> span c 4096" using half_cloned_cell(3) [OF h] by auto
  show "solid (Suc n) (ram s) c"
    using half_cloned_branches [OF h order_refl c] half_cloned_cell(2) [OF h] by (simp add: copied_def)
qed

text \<open>From one level to the next: the code of \<open>clone_pd\<close> and \<open>clone_pdpt\<close>.\<close>

lemma clone_level:
  assumes law: "clone_law n clone"
    and code: "\<And>s e. e AND PTE_LARGE = 0 \<Longrightarrow> clone' s e =
      (case alloc_zeroed_frame s of None \<Rightarrow> (None, s)
       | Some (c, s1) \<Rightarrow>
           (case clone_entries clone (addr_of e) c [0..<512] s1 of
              (False, s2) \<Rightarrow> (None, s2) | (True, s2) \<Rightarrow> (Some (c OR (e AND NOT PTE_ADDR_MASK)), s2)))"
  shows "clone_law (Suc n) clone'"
  unfolding clone_law_def
proof (intro allI impI)
  fix s F e r s'
  assume fs: "free_space s F" "F \<subseteq> {..<2 ^ 52}" and lg: "e AND PTE_LARGE = 0"
    and sm: "small (Suc n) (ram s) (addr_of e)" "foot (Suc n) (ram s) (addr_of e) \<inter> F = {}"
    and r: "clone' s e = (r, s')"
  show "\<exists>F'. grows s F s' F' \<and> (\<forall>e'. r = Some e' \<longrightarrow>
      copied (Suc n) (ram s) e (ram s') e' \<and> foot (Suc n) (ram s') (addr_of e') \<subseteq> F - F')"
  proof (cases "alloc_zeroed_frame s")
    case None
    then show ?thesis using r code [OF lg] fs by (intro exI [of _ F]) (simp add: grows_def)
  next
    case (Some cs)
    then obtain c s1 where al: "alloc_zeroed_frame s = Some (c, s1)" by (cases cs) auto
    note f = fresh_child [OF fs al]
    let ?F = "F - span c 4096"
    obtain good s2 where g: "clone_entries clone (addr_of e) c [0..<512] s1 = (good, s2)" by (metis surj_pair)
    have u: "?F \<union> span c 4096 = F" using f(5) by blast
    have ta: "tree_apart n (ram s1) (addr_of e) 512 F"
      using tree_apart_cong [OF tree_apart_small [OF aligned_mask sm] order_refl] f(3) by blast
    have F52: "?F \<subseteq> {..<2 ^ 52}" using fs(2) by blast
    obtain F' where F': "F' \<subseteq> ?F" "free_space s2 F'" "hhdm s2 = hhdm s1"
      "\<forall>x. unat x \<notin> F \<longrightarrow> ram s2 x = ram s1 x" "good \<longrightarrow> half_cloned n (ram s1) (addr_of e) c ?F 512 s2 F'"
      using clone_entries_law [OF law f(6,2) F52 _ order_refl _ f(1) g] ta unfolding u by auto
    have gr: "grows s F s2 F'" using F' f(3,4) by (auto simp: grows_def)
    show ?thesis
    proof (cases good)
      case False
      then have "r = None" "s' = s2" using r code [OF lg] al g by auto
      then show ?thesis using gr by blast
    next
      case True
      have rs: "r = Some (c OR (e AND NOT PTE_ADDR_MASK))" "s' = s2" using True r code [OF lg] al g by auto
      have hc: "half_cloned n (ram s1) (addr_of e) c ?F 512 s2 F'" using F'(5) True by blast
      note j = entry_join [OF f(6,7)]
      have "clones (Suc n) (ram s) (addr_of e) (ram s2) c = clones (Suc n) (ram s1) (addr_of e) (ram s2) c"
        using sm(2) f(3) by (intro clones_parent_cong [symmetric] aligned_mask) blast
      then have "copied (Suc n) (ram s) e (ram s2) (c OR (e AND NOT PTE_ADDR_MASK))"
        unfolding copied_def j using half_cloned_clones(1,3) [OF hc f(2)] by simp
      moreover have "foot (Suc n) (ram s2) c \<subseteq> F - F'" using half_cloned_clones(2) [OF hc f(2)] F'(1) f(5) by blast
      ultimately show ?thesis using gr unfolding rs by (intro exI [of _ F']) (simp add: j)
    qed
  qed
qed

text \<open>The leaf tables.\<close>

lemma clone_pt_loop:
  assumes "aligned 12 p" "aligned 12 c" "p \<noteq> c" "n \<le> 512"
  defines "f \<equiv> \<lambda>i s. let tab = phys_to_virt (hhdm s) p
      in if \<not> is_present s tab i then s
         else set_entry s (phys_to_virt (hhdm s) c) i (cow_pte (get_entry s tab i))"
  shows "\<exists>m. fold f [0..<n] s = s\<lparr>ram := m\<rparr> \<and> (\<forall>x. unat x \<notin> span c 4096 \<longrightarrow> m x = ram s x) \<and>
    (\<forall>i<512. pte m c i = (if i < n \<and> present (pte (ram s) p i) then cow_pte (pte (ram s) p i) else pte (ram s) c i))"
  using assms(4)
proof (induction n)
  case 0
  show ?case by (intro exI [of _ "ram s"]) simp
next
  case (Suc n)
  obtain m where m: "fold f [0..<n] s = s\<lparr>ram := m\<rparr>" "\<forall>x. unat x \<notin> span c 4096 \<longrightarrow> m x = ram s x"
    "\<forall>i<512. pte m c i = (if i < n \<and> present (pte (ram s) p i) then cow_pte (pte (ram s) p i) else pte (ram s) c i)"
    using Suc by auto
  have n: "n < 512" using Suc.prems by simp
  have pn: "pte m p n = pte (ram s) p n"
    using m(2) frame_span_disjoint [OF assms(1-3)] by (intro pte_cong [OF assms(1) n]) blast
  have st: "fold f [0..<Suc n] s = f n (s\<lparr>ram := m\<rparr>)" using m(1) by simp
  show ?case
  proof (cases "present (pte (ram s) p n)")
    case False
    have "f n (s\<lparr>ram := m\<rparr>) = s\<lparr>ram := m\<rparr>"
      using False pn get_entry_phys [of "s\<lparr>ram := m\<rparr>" p n] by (simp add: f_def is_present_def)
    then show ?thesis unfolding st using m(2,3) False by (intro exI [of _ m]) (auto simp: less_Suc_eq)
  next
    case True
    let ?m = "store64 m (c + 8 * of_nat n) (cow_pte (pte (ram s) p n))"
    have "f n (s\<lparr>ram := m\<rparr>) = s\<lparr>ram := ?m\<rparr>"
      using True pn get_entry_phys [of "s\<lparr>ram := m\<rparr>" p n] by (simp add: f_def is_present_def set_entry_phys)
    moreover have "?m x = ram s x" if "unat x \<notin> span c 4096" for x
    proof -
      have "unat x \<notin> span (c + 8 * of_nat n) 8" using that cell_span [OF assms(2) n] by blast
      then show ?thesis using that m(2) store64_other [OF cell_bound [OF assms(2) n]] by simp
    qed
    moreover have "pte ?m c i = (if i < Suc n \<and> present (pte (ram s) p i) then cow_pte (pte (ram s) p i) else pte (ram s) c i)"
      if "i < 512" for i
      using that n m(3) True assms(2) pte_store_other [of c c n i] pte_store_same [of m c n]
      by (cases "i = n") auto
    ultimately show ?thesis unfolding st by blast
  qed
qed

lemma clone_pt_law: "clone_law 0 clone_pt"
  unfolding clone_law_def
proof (intro allI impI)
  fix s F e r s'
  assume fs: "free_space s F" "F \<subseteq> {..<2 ^ 52}" and sm: "foot 0 (ram s) (addr_of e) \<inter> F = {}"
    and r: "clone_pt s e = (r, s')"
  show "\<exists>F'. grows s F s' F' \<and> (\<forall>e'. r = Some e' \<longrightarrow>
      copied 0 (ram s) e (ram s') e' \<and> foot 0 (ram s') (addr_of e') \<subseteq> F - F')"
  proof (cases "alloc_zeroed_frame s")
    case None
    then show ?thesis using r fs by (intro exI [of _ F]) (simp add: clone_pt_def grows_def)
  next
    case (Some cs)
    then obtain c s1 where al: "alloc_zeroed_frame s = Some (c, s1)" by (cases cs) auto
    note f = fresh_child [OF fs al]
    let ?p = "addr_of e" and ?F = "F - span c 4096"
    have ne: "?p \<noteq> c" using sm f(5) by (metis disjoint_iff foot.simps(1) in_span_self subsetD zero_less_numeral)
    obtain m where m: "\<forall>x. unat x \<notin> span c 4096 \<longrightarrow> m x = ram s1 x"
      "\<forall>i<512. pte m c i = (if present (pte (ram s1) ?p i) then cow_pte (pte (ram s1) ?p i) else pte (ram s1) c i)"
      "clone_pt s e = (Some (c OR (e AND NOT PTE_ADDR_MASK)), s1\<lparr>ram := m\<rparr>)"
      using clone_pt_loop [OF aligned_mask f(6) ne order_refl, of s1] al by (auto simp: clone_pt_def Let_def)
    have "free_space (s1\<lparr>ram := m\<rparr>) ?F"
      using f(1) m(1) by (intro pmm_mem.set_mem_free) (auto simp: half_cloned_def)
    then have g: "grows s F (s1\<lparr>ram := m\<rparr>) ?F" using f(3-5) m(1) by (auto simp: grows_def)
    have pp: "pte (ram s1) ?p i = pte (ram s) ?p i" if "i < 512" for i
      using sm f(3) by (intro pte_cong [OF aligned_mask that]) auto
    have "pte (ram s1) c i = 0" if "i < 512" for i using f(1) [of 0] that by (simp add: half_cloned_def)
    then have "clones 0 (ram s) ?p m c" using m(2) pp by simp
    then show ?thesis using r m(3) g f(5) entry_join [OF f(6,7)]
      by (intro exI [of _ ?F]) (auto simp: copied_def)
  qed
qed

lemma clone_pd_law: "clone_law 1 clone_pd"
  using clone_level [OF clone_pt_law, of clone_pd] by (simp add: clone_pd_def Let_def)

lemma clone_pdpt_law: "clone_law 2 clone_pdpt"
  using clone_level [OF clone_pd_law, of clone_pdpt] by (simp add: clone_pdpt_def Let_def numeral_2_eq_2)

section \<open>Taking away write access\<close>

text \<open>The entries of \<open>m'\<close> are those of \<open>m\<close>, some with the writable bit cleared.\<close>

definition weaker :: "ram \<Rightarrow> ram \<Rightarrow> bool" where
  "weaker m m' \<longleftrightarrow> (\<forall>t i. aligned 12 t \<longrightarrow> i < 512 \<longrightarrow>
     pte m' t i = pte m t i \<or> pte m' t i = pte m t i AND NOT PTE_WRITABLE)"

lemma unwritable:
  "(e AND NOT PTE_WRITABLE) AND PTE_PRESENT = e AND PTE_PRESENT" "(e AND NOT PTE_WRITABLE) AND PTE_LARGE = e AND PTE_LARGE"
  "(e AND NOT PTE_WRITABLE) AND PTE_USER = e AND PTE_USER" "addr_of (e AND NOT PTE_WRITABLE) = addr_of e"
  "(e AND NOT PTE_WRITABLE) AND PTE_WRITABLE = 0"
  by (simp_all add: and.assoc pte_bits PTE_ADDR_MASK_def)

lemma weaker_refl: "weaker m m"
  by (simp add: weaker_def)

lemma weaker_trans: "weaker m m1 \<Longrightarrow> weaker m1 m2 \<Longrightarrow> weaker m m2"
proof -
  assume w: "weaker m m1" "weaker m1 m2"
  have "pte m2 t i = pte m t i \<or> pte m2 t i = pte m t i AND NOT PTE_WRITABLE" if "aligned 12 t" "i < 512" for t i
  proof -
    have "pte m1 t i = pte m t i \<or> pte m1 t i = pte m t i AND NOT PTE_WRITABLE"
      "pte m2 t i = pte m1 t i \<or> pte m2 t i = pte m1 t i AND NOT PTE_WRITABLE"
      using w that unfolding weaker_def by blast+
    then show ?thesis by (auto simp: and.assoc)
  qed
  then show ?thesis by (simp add: weaker_def)
qed

lemma weaker_bits:
  assumes "weaker m m'" "aligned 12 t" "i < 512"
  shows "pte m' t i AND PTE_PRESENT = pte m t i AND PTE_PRESENT" "pte m' t i AND PTE_LARGE = pte m t i AND PTE_LARGE"
    "pte m' t i AND PTE_USER = pte m t i AND PTE_USER" "addr_of (pte m' t i) = addr_of (pte m t i)"
    "pte m t i AND PTE_WRITABLE = 0 \<Longrightarrow> pte m' t i AND PTE_WRITABLE = 0"
proof -
  have "pte m' t i = pte m t i \<or> pte m' t i = pte m t i AND NOT PTE_WRITABLE"
    using assms unfolding weaker_def by blast
  then show "pte m' t i AND PTE_PRESENT = pte m t i AND PTE_PRESENT" "pte m' t i AND PTE_LARGE = pte m t i AND PTE_LARGE"
    "pte m' t i AND PTE_USER = pte m t i AND PTE_USER" "addr_of (pte m' t i) = addr_of (pte m t i)"
    "pte m t i AND PTE_WRITABLE = 0 \<Longrightarrow> pte m' t i AND PTE_WRITABLE = 0"
    by (auto simp: unwritable)
qed

lemma weaker_store:
  assumes "aligned 12 t" "i < 512"
  shows "weaker m (store64 m (t + 8 * of_nat i) (pte m t i AND NOT PTE_WRITABLE))"
proof -
  have "pte (store64 m (t + 8 * of_nat i) (pte m t i AND NOT PTE_WRITABLE)) t' j = pte m t' j \<or>
      pte (store64 m (t + 8 * of_nat i) (pte m t i AND NOT PTE_WRITABLE)) t' j = pte m t' j AND NOT PTE_WRITABLE"
    if "aligned 12 t'" "j < 512" for t' j
    using pte_store_other [OF assms(1) that(1) assms(2) that(2)] pte_store_same by (cases "(t, i) = (t', j)") auto
  then show ?thesis by (simp add: weaker_def)
qed

lemma weaker_foot: "weaker m m' \<Longrightarrow> aligned 12 t \<Longrightarrow> foot n m' t = foot n m t"
  by (induction n arbitrary: t) (simp_all add: weaker_bits aligned_mask cong: conj_cong)

lemma weaker_small: "weaker m m' \<Longrightarrow> aligned 12 t \<Longrightarrow> small n m' t = small n m t"
  by (induction n arbitrary: t) (simp_all add: weaker_bits aligned_mask)

text \<open>No leaf entry below a table lets user code write.\<close>

fun read_only :: "nat \<Rightarrow> ram \<Rightarrow> u64 \<Rightarrow> bool" where
  "read_only 0 m t \<longleftrightarrow> (\<forall>i<512. present (pte m t i) \<longrightarrow> pte m t i AND PTE_USER \<noteq> 0 \<longrightarrow> pte m t i AND PTE_WRITABLE = 0)"
| "read_only (Suc n) m t \<longleftrightarrow> (\<forall>i<512. present (pte m t i) \<longrightarrow> read_only n m (addr_of (pte m t i)))"

lemma weaker_read_only: "weaker m m' \<Longrightarrow> aligned 12 t \<Longrightarrow> read_only n m t \<Longrightarrow> read_only n m' t"
  by (induction n arbitrary: t) (simp_all add: weaker_bits aligned_mask)

text \<open>What one call for a table of level \<open>n\<close> does.\<close>

definition cow_law :: "nat \<Rightarrow> (u64 \<Rightarrow> kmem \<Rightarrow> kmem) \<Rightarrow> bool" where
  "cow_law n cow \<longleftrightarrow> (\<forall>t s. aligned 12 t \<longrightarrow> small n (ram s) t \<longrightarrow>
     (\<exists>m. cow t s = s\<lparr>ram := m\<rparr> \<and> weaker (ram s) m \<and>
        (\<forall>x. unat x \<notin> foot n (ram s) t \<longrightarrow> m x = ram s x) \<and> read_only n m t))"

lemma make_cow_pt_law: "cow_law 0 make_cow_pt"
  unfolding cow_law_def
proof (intro allI impI)
  fix t s
  assume t: "aligned 12 t"
  define f where "f = (\<lambda>i s. let pt = phys_to_virt (hhdm s) t
      in if \<not> is_present s pt i then s
         else if get_entry s pt i AND PTE_USER \<noteq> 0
              then set_entry s pt i (get_entry s pt i AND NOT PTE_WRITABLE) else s)"
  have "\<exists>m. fold f [0..<n] s = s\<lparr>ram := m\<rparr> \<and> weaker (ram s) m \<and> (\<forall>x. unat x \<notin> span t 4096 \<longrightarrow> m x = ram s x) \<and>
      (\<forall>i<n. present (pte m t i) \<longrightarrow> pte m t i AND PTE_USER \<noteq> 0 \<longrightarrow> pte m t i AND PTE_WRITABLE = 0)" if "n \<le> 512" for n
    using that
  proof (induction n)
    case 0
    show ?case by (intro exI [of _ "ram s"]) (simp add: weaker_refl)
  next
    case (Suc n)
    obtain m where m: "fold f [0..<n] s = s\<lparr>ram := m\<rparr>" "weaker (ram s) m" "\<forall>x. unat x \<notin> span t 4096 \<longrightarrow> m x = ram s x"
      "\<forall>i<n. present (pte m t i) \<longrightarrow> pte m t i AND PTE_USER \<noteq> 0 \<longrightarrow> pte m t i AND PTE_WRITABLE = 0"
      using Suc by auto
    have n: "n < 512" using Suc.prems by simp
    have st: "fold f [0..<Suc n] s = f n (s\<lparr>ram := m\<rparr>)" using m(1) by simp
    have ge: "get_entry (s\<lparr>ram := m\<rparr>) (phys_to_virt (hhdm s) t) n = pte m t n"
      using get_entry_phys [of "s\<lparr>ram := m\<rparr>" t n] by simp
    show ?case
    proof (cases "present (pte m t n) \<and> pte m t n AND PTE_USER \<noteq> 0")
      case False
      then have "f n (s\<lparr>ram := m\<rparr>) = s\<lparr>ram := m\<rparr>" by (auto simp: ge is_present_def f_def Let_def)
      then show ?thesis unfolding st using m(2-4) False by (intro exI [of _ m]) (auto simp: less_Suc_eq)
    next
      case True
      let ?m = "store64 m (t + 8 * of_nat n) (pte m t n AND NOT PTE_WRITABLE)"
      have w: "weaker m ?m" by (rule weaker_store [OF t n])
      have "f n (s\<lparr>ram := m\<rparr>) = s\<lparr>ram := ?m\<rparr>" using True by (simp add: ge is_present_def set_entry_phys f_def Let_def)
      moreover have "?m x = ram s x" if "unat x \<notin> span t 4096" for x
      proof -
        have "unat x \<notin> span (t + 8 * of_nat n) 8" using that cell_span [OF t n] by blast
        then show ?thesis using that m(3) store64_other [OF cell_bound [OF t n]] by simp
      qed
      moreover have "pte ?m t i AND PTE_WRITABLE = 0"
        if "i < Suc n" "present (pte ?m t i)" "pte ?m t i AND PTE_USER \<noteq> 0" for i
      proof (cases "i = n")
        case True
        then show ?thesis by (simp add: pte_store_same unwritable)
      next
        case False
        then have "pte ?m t i = pte m t i" using that n pte_store_other [OF t t n, of i] by simp
        then show ?thesis using that m(4) False by (simp add: less_Suc_eq)
      qed
      ultimately show ?thesis unfolding st using weaker_trans [OF m(2) w] by blast
    qed
  qed
  from this [of 512] show "\<exists>m. make_cow_pt t s = s\<lparr>ram := m\<rparr> \<and> weaker (ram s) m \<and>
      (\<forall>x. unat x \<notin> foot 0 (ram s) t \<longrightarrow> m x = ram s x) \<and> read_only 0 m t"
    unfolding make_cow_pt_def f_def by simp
qed

lemma cow_loop:
  assumes law: "cow_law n cow" and t: "aligned 12 t"
    and sm: "\<forall>i<N. pte (ram s) t i AND PTE_LARGE = 0 \<and> (present (pte (ram s) t i) \<longrightarrow> small n (ram s) (addr_of (pte (ram s) t i)))"
    and f: "\<And>i s. f i s = (if \<not> is_present s (phys_to_virt (hhdm s) t) i then s
      else if large \<and> get_entry s (phys_to_virt (hhdm s) t) i AND PTE_LARGE \<noteq> 0 then g i s
      else cow (get_entry s (phys_to_virt (hhdm s) t) i AND PTE_ADDR_MASK) s)"
    and N: "k \<le> N" "N \<le> 512"
  shows "\<exists>m. fold f [0..<k] s = s\<lparr>ram := m\<rparr> \<and> weaker (ram s) m \<and>
    (\<forall>x. unat x \<notin> (\<Union>i\<in>{i. i < N \<and> present (pte (ram s) t i)}. foot n (ram s) (addr_of (pte (ram s) t i))) \<longrightarrow> m x = ram s x) \<and>
    (\<forall>i<k. present (pte m t i) \<longrightarrow> read_only n m (addr_of (pte m t i)))"
  using N(1)
proof (induction k)
  case 0
  show ?case by (intro exI [of _ "ram s"]) (simp add: weaker_refl)
next
  case (Suc k)
  let ?U = "\<Union>i\<in>{i. i < N \<and> present (pte (ram s) t i)}. foot n (ram s) (addr_of (pte (ram s) t i))"
  obtain m where m: "fold f [0..<k] s = s\<lparr>ram := m\<rparr>" "weaker (ram s) m"
    "\<forall>x. unat x \<notin> ?U \<longrightarrow> m x = ram s x" "\<forall>i<k. present (pte m t i) \<longrightarrow> read_only n m (addr_of (pte m t i))"
    using Suc by auto
  have k: "k < N" "k < 512" using Suc.prems N by auto
  note w = weaker_bits [OF m(2) t k(2)]
  have ge: "get_entry (s\<lparr>ram := m\<rparr>) (phys_to_virt (hhdm s) t) k = pte m t k"
    using get_entry_phys [of "s\<lparr>ram := m\<rparr>" t k] by simp
  have st: "fold f [0..<Suc k] s = f k (s\<lparr>ram := m\<rparr>)" using m(1) by simp
  show ?case
  proof (cases "present (pte m t k)")
    case False
    then have "f k (s\<lparr>ram := m\<rparr>) = s\<lparr>ram := m\<rparr>" by (simp add: f ge is_present_def)
    then show ?thesis unfolding st using m(2-4) False by (intro exI [of _ m]) (auto simp: less_Suc_eq)
  next
    case True
    let ?a = "addr_of (pte (ram s) t k)"
    have p: "present (pte (ram s) t k)" using True w(1) by simp
    have sk: "pte m t k AND PTE_LARGE = 0" "small n m ?a"
      using sm k(1) p w(2) weaker_small [OF m(2) aligned_mask] by auto
    have fk: "f k (s\<lparr>ram := m\<rparr>) = cow ?a (s\<lparr>ram := m\<rparr>)" using True sk(1) w(4) by (simp add: f ge is_present_def)
    obtain m' where m': "cow ?a (s\<lparr>ram := m\<rparr>) = s\<lparr>ram := m'\<rparr>" "weaker m m'"
      "\<forall>x. unat x \<notin> foot n m ?a \<longrightarrow> m' x = m x" "read_only n m' ?a"
      using law [unfolded cow_law_def, rule_format, OF aligned_mask, of "s\<lparr>ram := m\<rparr>" "pte (ram s) t k"] sk(2) by auto
    have "foot n m ?a = foot n (ram s) ?a" by (rule weaker_foot [OF m(2) aligned_mask])
    then have sub: "foot n m ?a \<subseteq> ?U" using k(1) p by blast
    have "m' x = ram s x" if "unat x \<notin> ?U" for x
    proof -
      have "unat x \<notin> foot n m ?a" using that sub by blast
      then show ?thesis using m(3) m'(3) that by simp
    qed
    moreover have "read_only n m' (addr_of (pte m' t i))" if "i < Suc k" "present (pte m' t i)" for i
    proof (cases "i = k")
      case True
      then show ?thesis using m'(4) weaker_bits(4) [OF weaker_trans [OF m(2) m'(2)] t k(2)] by simp
    next
      case False
      then have "i < k" "i < 512" using that k by auto
      then show ?thesis
        using m(4) that(2) weaker_read_only [OF m'(2) aligned_mask] weaker_bits(1,4) [OF m'(2) t] by simp
    qed
    ultimately show ?thesis
      unfolding st fk m'(1) using weaker_trans [OF m(2) m'(2)] by (intro exI [of _ m'] conjI) simp_all
  qed
qed

lemma cow_level:
  assumes "cow_law n cow"
    and "\<And>t s. cow' t s = fold (f t) [0..<512] s"
    and "\<And>t i s. f t i s = (if \<not> is_present s (phys_to_virt (hhdm s) t) i then s
      else if large \<and> get_entry s (phys_to_virt (hhdm s) t) i AND PTE_LARGE \<noteq> 0 then g t i s
      else cow (get_entry s (phys_to_virt (hhdm s) t) i AND PTE_ADDR_MASK) s)"
  shows "cow_law (Suc n) cow'"
  unfolding cow_law_def
proof (intro allI impI)
  fix t and s :: kmem
  assume t: "aligned 12 t" and sm: "small (Suc n) (ram s) t"
  have sm': "\<forall>i<512. pte (ram s) t i AND PTE_LARGE = 0 \<and> (present (pte (ram s) t i) \<longrightarrow> small n (ram s) (addr_of (pte (ram s) t i)))"
    using sm by simp
  have "\<exists>m. fold (f t) [0..<512] s = s\<lparr>ram := m\<rparr> \<and> weaker (ram s) m \<and>
    (\<forall>x. unat x \<notin> (\<Union>i\<in>{i. i < 512 \<and> present (pte (ram s) t i)}. foot n (ram s) (addr_of (pte (ram s) t i))) \<longrightarrow> m x = ram s x) \<and>
    (\<forall>i<512. present (pte m t i) \<longrightarrow> read_only n m (addr_of (pte m t i)))"
    by (rule cow_loop [where g = "g t" and large = large, OF assms(1) t sm' assms(3)]) simp_all
  then show "\<exists>m. cow' t s = s\<lparr>ram := m\<rparr> \<and> weaker (ram s) m \<and>
      (\<forall>x. unat x \<notin> foot (Suc n) (ram s) t \<longrightarrow> m x = ram s x) \<and> read_only (Suc n) m t"
    unfolding assms(2) by (elim exE conjE, intro exI conjI) (assumption, assumption, simp, simp)
qed

lemma make_cow_pd_law: "cow_law 1 make_cow_pd"
  using cow_level [OF make_cow_pt_law, of make_cow_pd
      "\<lambda>t i s. let pd = phys_to_virt (hhdm s) t
         in if \<not> is_present s pd i then s
            else if get_entry s pd i AND PTE_LARGE \<noteq> 0
                 then set_entry s pd i (get_entry s pd i AND NOT PTE_WRITABLE)
                 else make_cow_pt (get_entry s pd i AND PTE_ADDR_MASK) s" True
      "\<lambda>t i s. set_entry s (phys_to_virt (hhdm s) t) i (get_entry s (phys_to_virt (hhdm s) t) i AND NOT PTE_WRITABLE)"]
  by (simp add: make_cow_pd_def Let_def)

lemma make_cow_pdpt_law: "cow_law 2 make_cow_pdpt"
  using cow_level [OF make_cow_pd_law, of make_cow_pdpt
      "\<lambda>t i s. let pdpt = phys_to_virt (hhdm s) t
         in if \<not> is_present s pdpt i then s else make_cow_pd (get_entry s pdpt i AND PTE_ADDR_MASK) s" False]
  by (simp add: make_cow_pdpt_def Let_def numeral_2_eq_2)

section \<open>The whole user half\<close>

definition user_small :: "ram \<Rightarrow> u64 \<Rightarrow> bool" where
  "user_small m root \<longleftrightarrow>
     (\<forall>i<256. pte m root i AND PTE_LARGE = 0 \<and> (present (pte m root i) \<longrightarrow> small 2 m (addr_of (pte m root i))))"

definition user_subs :: "ram \<Rightarrow> u64 \<Rightarrow> nat set" where
  "user_subs m root = (\<Union>i\<in>{i. i < 256 \<and> present (pte m root i)}. foot 2 m (addr_of (pte m root i)))"

definition user_foot :: "ram \<Rightarrow> u64 \<Rightarrow> nat set" where
  "user_foot m root = span root 4096 \<union> user_subs m root"

text \<open>The leaf entry a walk from a table along some indices ends in.\<close>

fun walk :: "ram \<Rightarrow> u64 \<Rightarrow> nat list \<Rightarrow> u64 option" where
  "walk m t [] = None"
| "walk m t [i] = Some (pte m t i)"
| "walk m t (i # j # is) = (if present (pte m t i) then walk m (addr_of (pte m t i)) (j # is) else None)"

definition page_entry :: "ram \<Rightarrow> u64 \<Rightarrow> u64 \<Rightarrow> u64 option" where
  "page_entry m root v = walk m root [pml4_idx v, pdpt_idx v, pd_idx v, pt_idx v]"

definition user_writable :: "kmem \<Rightarrow> address_space \<Rightarrow> u64 \<Rightarrow> bool" where
  "user_writable s sp v \<longleftrightarrow> (\<exists>e. page_entry (ram s) (pml4_phys sp) v = Some e \<and> present e \<and>
     e AND PTE_USER \<noteq> 0 \<and> e AND PTE_WRITABLE \<noteq> 0)"

lemma small_two: "small 2 m t \<longleftrightarrow> (\<forall>i<512. pte m t i AND PTE_LARGE = 0 \<and>
    (present (pte m t i) \<longrightarrow> (\<forall>j<512. pte m (addr_of (pte m t i)) j AND PTE_LARGE = 0)))"
  by (simp add: numeral_2_eq_2)

lemma translate_page_entry:
  assumes "user_small (ram s) (pml4_phys sp)" "user_addr v"
  shows "translate s sp v = (case page_entry (ram s) (pml4_phys sp) v of
    None \<Rightarrow> None | Some e \<Rightarrow> if present e then Some (addr_of e OR (v AND 0xFFF)) else None)"
  using assms
  by (simp add: translate_def page_entry_def pml4_def get_table_phys get_entry_phys Let_def user_small_def
      small_two user_addr_def)

text \<open>
  In a tree of small pages the tables of the invariant of the page tables are those of the footprint,
  and the invariant says that the tree is apart from the free frames and shares no table.
\<close>

lemma user_small_large:
  assumes "user_small m root" "upath is" "length is = 2" "tbl m root is = Some t" "i < 512"
  shows "pte m t i AND PTE_LARGE = 0"
proof -
  obtain j k where "is": "is = [j, k]" using assms(3) by (metis length_0_conv length_Suc_conv numeral_2_eq_2)
  then have "j < 512" "k < 256" using assms(2) by (simp_all add: upath_def)
  then show ?thesis using assms(1,4,5) "is" by (auto simp: user_small_def small_two split: if_splits)
qed

fun fwd :: "ram \<Rightarrow> u64 \<Rightarrow> nat list \<Rightarrow> u64 option" where
  "fwd m t [] = Some t"
| "fwd m t (i # p) = (if present (pte m t i) then fwd m (addr_of (pte m t i)) p else None)"

lemma fwd_snoc: "fwd m t (p @ [i]) = (case fwd m t p of None \<Rightarrow> None
    | Some t' \<Rightarrow> if present (pte m t' i) then Some (addr_of (pte m t' i)) else None)"
  by (induction m t p rule: fwd.induct) auto

lemma tbl_fwd: "user_small m root \<Longrightarrow> upath is \<Longrightarrow> tbl m root is = fwd m root (rev is)"
proof (induction "is")
  case (Cons i "is")
  note up = upath_ConsD [OF Cons.prems(2)]
  have "pte m t i AND PTE_LARGE = 0" if "length is = 2" "tbl m root is = Some t" for t
    using user_small_large [OF Cons.prems(1) up(1) that up(2)] .
  then show ?case using Cons.IH [OF Cons.prems(1) up(1)] by (auto simp: fwd_snoc split: option.splits)
qed simp

lemma fwd_foot: "fwd m t p = Some t' \<Longrightarrow> length p \<le> n \<Longrightarrow> \<forall>i\<in>set p. i < 512 \<Longrightarrow> span t' 4096 \<subseteq> foot n m t"
proof (induction p arbitrary: t n)
  case Nil
  then show ?case using foot_self by simp
next
  case (Cons i p)
  then obtain n' where n: "n = Suc n'" by (cases n) auto
  have p: "present (pte m t i)" "fwd m (addr_of (pte m t i)) p = Some t'" using Cons.prems(1) by (auto split: if_splits)
  have "span t' 4096 \<subseteq> foot n' m (addr_of (pte m t i))" using Cons.IH [OF p(2)] Cons.prems n by simp
  also have "\<dots> \<subseteq> foot n m t" using foot_sub p(1) Cons.prems(3) n by simp
  finally show ?case .
qed

lemma foot_fwd: "x \<in> foot n m t \<Longrightarrow> \<exists>p t'. fwd m t p = Some t' \<and> length p \<le> n \<and> (\<forall>i\<in>set p. i < 512) \<and> x \<in> span t' 4096"
proof (induction n arbitrary: t)
  case 0
  then show ?case by (intro exI [of _ "[]"]) simp
next
  case (Suc n)
  show ?case
  proof (cases "x \<in> span t 4096")
    case True
    then show ?thesis by (intro exI [of _ "[]"]) simp
  next
    case False
    then obtain i where i: "i < 512" "present (pte m t i)" "x \<in> foot n m (addr_of (pte m t i))" using Suc.prems by auto
    from Suc.IH [OF i(3)] obtain p t' where "fwd m (addr_of (pte m t i)) p = Some t'" "length p \<le> n" "\<forall>i\<in>set p. i < 512"
      "x \<in> span t' 4096" by blast
    then show ?thesis using i by (intro exI [of _ "i # p"]) simp
  qed
qed

lemma user_tables:
  assumes "user_small m root"
  shows "tables m root = user_foot m root"
proof (intro equalityI subsetI)
  fix x assume "x \<in> tables m root"
  then obtain "is" t where t: "upath is" "tbl m root is = Some t" "x \<in> span t 4096" by (auto simp: tables_iff)
  show "x \<in> user_foot m root"
  proof (cases "rev is")
    case Nil
    then show ?thesis using t by (simp add: user_foot_def)
  next
    case (Cons i p)
    then have "is": "is = rev p @ [i]" by (metis rev.simps(2) rev_rev_ident)
    have p: "i < 256" "length p \<le> 2" "\<forall>i\<in>set p. i < 512" using t(1) unfolding "is" by (auto simp: upath_def)
    have "fwd m root (i # p) = Some t" using tbl_fwd [OF assms t(1)] t(2) Cons by simp
    then have i: "present (pte m root i)" "fwd m (addr_of (pte m root i)) p = Some t" by (auto split: if_splits)
    show ?thesis using fwd_foot [OF i(2) p(2,3)] t(3) p(1) i(1) unfolding user_foot_def user_subs_def by blast
  qed
next
  fix x assume "x \<in> user_foot m root"
  then consider "x \<in> span root 4096" | i where "i < 256" "present (pte m root i)" "x \<in> foot 2 m (addr_of (pte m root i))"
    by (auto simp: user_foot_def user_subs_def)
  then show "x \<in> tables m root"
  proof cases
    case 1
    then show ?thesis unfolding tables_iff by (intro exI [of _ "[]"]) simp
  next
    case 2
    obtain p t where p: "fwd m (addr_of (pte m root i)) p = Some t" "length p \<le> 2" "\<forall>i\<in>set p. i < 512" "x \<in> span t 4096"
      using foot_fwd [OF 2(3)] by blast
    have "upath (rev p @ [i])" using p(2,3) 2(1) by (auto simp: upath_def)
    then show ?thesis
      unfolding tables_iff using tbl_fwd [OF assms, of "rev p @ [i]"] p 2(2) by (intro exI [of _ "rev p @ [i]"]) simp
  qed
qed

lemma branches_inj:
  assumes b: "branches n m t N" "N \<le> 512" and p: "fwd m t p = Some u" "length p \<le> Suc n" "\<forall>i\<in>set p. i < 512" "p \<noteq> [] \<longrightarrow> hd p < N"
    and q: "fwd m t q = Some u" "length q \<le> Suc n" "\<forall>i\<in>set q. i < 512" "q \<noteq> [] \<longrightarrow> hd q < N"
    and below: "\<And>i p q. i < N \<Longrightarrow> present (pte m t i) \<Longrightarrow> fwd m (addr_of (pte m t i)) p = Some u \<Longrightarrow>
      fwd m (addr_of (pte m t i)) q = Some u \<Longrightarrow> length p \<le> n \<Longrightarrow> length q \<le> n \<Longrightarrow> \<forall>i\<in>set p \<union> set q. i < 512 \<Longrightarrow> p = q"
  shows "p = q"
proof -
  have u: "unat u \<in> span u 4096" by simp
  have sub: "r = [] \<and> u = t \<or> (\<exists>i r'. r = i # r' \<and> i < N \<and> present (pte m t i) \<and> fwd m (addr_of (pte m t i)) r' = Some u \<and>
      span u 4096 \<subseteq> foot n m (addr_of (pte m t i)))"
    if r: "fwd m t r = Some u" "length r \<le> Suc n" "\<forall>i\<in>set r. i < 512" "r \<noteq> [] \<longrightarrow> hd r < N" for r
  proof (cases r)
    case (Cons i r')
    then show ?thesis using r fwd_foot [of m "addr_of (pte m t i)" r' u n] by (auto split: if_splits)
  qed (use r in simp)
  have apart: "span t 4096 \<inter> foot n m (addr_of (pte m t i)) = {}" if "i < N" "present (pte m t i)" for i
    using b(1) that by (simp add: branches_def)
  have pair: "foot n m (addr_of (pte m t i)) \<inter> foot n m (addr_of (pte m t j)) = {}"
    if "i < N" "j < N" "present (pte m t i)" "present (pte m t j)" "i \<noteq> j" for i j
    using b(1) that unfolding branches_def by (metis inf_commute linorder_neqE_nat)
  show ?thesis
    using sub [OF p]
  proof (elim disjE conjE exE)
    assume "p = []" "u = t"
    then show ?thesis using sub [OF q] apart u by blast
  next
    fix i p' assume i: "p = i # p'" "i < N" "present (pte m t i)" "fwd m (addr_of (pte m t i)) p' = Some u"
      "span u 4096 \<subseteq> foot n m (addr_of (pte m t i))"
    show ?thesis
      using sub [OF q]
    proof (elim disjE conjE exE)
      assume "q = []" "u = t"
      then show ?thesis using apart i u by blast
    next
      fix j q' assume j: "q = j # q'" "j < N" "present (pte m t j)" "fwd m (addr_of (pte m t j)) q' = Some u"
        "span u 4096 \<subseteq> foot n m (addr_of (pte m t j))"
      have ij: "i = j" using pair i j u by blast
      then show ?thesis using below [of j p' q'] i j p q by auto
    qed
  qed
qed

lemma solid_inj:
  "solid n m t \<Longrightarrow> fwd m t p = Some u \<Longrightarrow> fwd m t q = Some u \<Longrightarrow> length p \<le> n \<Longrightarrow> length q \<le> n \<Longrightarrow>
     \<forall>i\<in>set p \<union> set q. i < 512 \<Longrightarrow> p = q"
proof (induction n arbitrary: t p q)
  case (Suc n)
  have b: "branches n m t 512" "\<And>i. i < 512 \<Longrightarrow> present (pte m t i) \<Longrightarrow> solid n m (addr_of (pte m t i))"
    using Suc.prems(1) by simp_all
  show ?case
  proof (rule branches_inj [OF b(1) order_refl Suc.prems(2,4) _ _ Suc.prems(3,5)])
    show "p' = q'" if "i < 512" "present (pte m t i)" "fwd m (addr_of (pte m t i)) p' = Some u"
      "fwd m (addr_of (pte m t i)) q' = Some u" "length p' \<le> n" "length q' \<le> n" "\<forall>i\<in>set p' \<union> set q'. i < 512" for i p' q'
      by (rule Suc.IH [OF b(2) [OF that(1,2)] that(3-)])
  qed (use Suc.prems(6) in auto)
qed simp

lemma pt_inv_solid:
  assumes t: "tree_apart 2 m root 256 F" and F: "F \<subseteq> {..<2 ^ 52}"
    and b: "branches 2 m root 256" "\<And>i. i < 256 \<Longrightarrow> present (pte m root i) \<Longrightarrow> solid 2 m (addr_of (pte m root i))"
  shows "pt_inv m root F"
proof -
  have us: "user_small m root" using t by (simp add: tree_apart_def user_small_def)
  have "tables m root \<inter> F = {}"
    using t unfolding user_tables [OF us] user_foot_def user_subs_def tree_apart_def by blast
  moreover have "is = js" if "upath is" "upath js" "tbl m root is = Some u" "tbl m root js = Some u" for "is" js u
  proof -
    have "fwd m root (rev is) = Some u" "fwd m root (rev js) = Some u"
      using tbl_fwd [OF us that(1)] tbl_fwd [OF us that(2)] that(3,4) by simp_all
    moreover have "length (rev is) \<le> Suc 2" "\<forall>i\<in>set (rev is). i < 512" "rev is \<noteq> [] \<longrightarrow> hd (rev is) < 256"
      "length (rev js) \<le> Suc 2" "\<forall>i\<in>set (rev js). i < 512" "rev js \<noteq> [] \<longrightarrow> hd (rev js) < 256"
      using that(1,2) by (auto simp: upath_def hd_rev)
    ultimately have "rev is = rev js"
    proof (intro branches_inj [OF b(1), where p = "rev is" and q = "rev js" and u = u])
      show "p = q" if "i < 256" "present (pte m root i)" "fwd m (addr_of (pte m root i)) p = Some u"
        "fwd m (addr_of (pte m root i)) q = Some u" "length p \<le> 2" "length q \<le> 2" "\<forall>i\<in>set p \<union> set q. i < 512" for i p q
        by (rule solid_inj [OF b(2) [OF that(1,2)] that(3-)])
    qed simp_all
    then show ?thesis by simp
  qed
  moreover have "pte m t i AND PTE_LARGE = 0" if "upath is" "length is = 2" "i < 512" "tbl m root is = Some t" for "is" t i
    using user_small_large [OF us that(1,2,4,3)] .
  ultimately show ?thesis using t F unfolding pt_inv_def tree_apart_def by blast
qed

text \<open>Conversely, and when the tables do not change.\<close>

lemma pt_inv_tree:
  assumes "pt_inv m root F" "user_small m root"
  shows "tree_apart 2 m root 256 F"
proof -
  have "user_foot m root \<inter> F = {}" using pt_invD(3) [OF assms(1)] user_tables [OF assms(2)] by simp
  then show ?thesis
    using pt_invD(1) [OF assms(1)] assms(2) unfolding tree_apart_def user_foot_def user_subs_def user_small_def by blast
qed

lemma pt_inv_small_same:
  assumes "pt_inv m root F" "F' \<subseteq> F" "user_small m' root" "\<And>is. upath is \<Longrightarrow> tbl m' root is = tbl m root is"
  shows "pt_inv m' root F'"
proof -
  have "tables m' root = tables m root" using assms(4) by (simp add: set_eq_iff tables_iff cong: conj_cong)
  moreover have "pte m' t i AND PTE_LARGE = 0" if "upath is" "length is = 2" "i < 512" "tbl m root is = Some t" for "is" t i
    using user_small_large [OF assms(3) that(1,2) _ that(3)] assms(4) that(1,4) by simp
  ultimately show ?thesis
    using assms(1,2,4) unfolding pt_inv_def by simp blast
qed

text \<open>A copied tree has the same leaf entries, with write access to user pages taken away.\<close>

lemma same_flags:
  assumes "e' AND NOT PTE_ADDR_MASK = e AND NOT PTE_ADDR_MASK"
  shows "e' AND PTE_PRESENT = e AND PTE_PRESENT" "e' AND PTE_LARGE = e AND PTE_LARGE"
proof -
  have m: "NOT PTE_ADDR_MASK AND PTE_PRESENT = PTE_PRESENT" "NOT PTE_ADDR_MASK AND PTE_LARGE = PTE_LARGE"
    by (simp_all add: PTE_PRESENT_def PTE_LARGE_def PTE_ADDR_MASK_def)
  show "e' AND PTE_PRESENT = e AND PTE_PRESENT" "e' AND PTE_LARGE = e AND PTE_LARGE"
    by (subst (1 2) m [symmetric], simp only: and.assoc [symmetric] assms)+
qed

lemma clones_small: "clones n m t m' t' \<Longrightarrow> small n m t \<Longrightarrow> small n m' t'"
proof (induction n arbitrary: t t')
  case (Suc n)
  have "pte m' t' i AND PTE_LARGE = 0 \<and> (present (pte m' t' i) \<longrightarrow> small n m' (addr_of (pte m' t' i)))" if i: "i < 512" for i
  proof (cases "present (pte m t i)")
    case True
    then have e: "pte m' t' i AND NOT PTE_ADDR_MASK = pte m t i AND NOT PTE_ADDR_MASK"
      "clones n m (addr_of (pte m t i)) m' (addr_of (pte m' t' i))" using Suc.prems(1) i by simp_all
    show ?thesis using same_flags(2) [OF e(1)] Suc.IH [OF e(2)] Suc.prems(2) i True by simp
  next
    case False
    then show ?thesis using Suc.prems(1) i by simp
  qed
  then show ?case by simp
qed simp

definition cloned_root :: "ram \<Rightarrow> u64 \<Rightarrow> ram \<Rightarrow> u64 \<Rightarrow> bool" where
  "cloned_root m r m' r' \<longleftrightarrow> (\<forall>i<256. if present (pte m r i) then copied 2 m (pte m r i) m' (pte m' r' i)
     else pte m' r' i = 0)"

lemma cloned_rootD:
  assumes "cloned_root m r m' r'" "i < 256" "present (pte m r i)"
  shows "pte m' r' i AND NOT PTE_ADDR_MASK = pte m r i AND NOT PTE_ADDR_MASK"
    "clones 2 m (addr_of (pte m r i)) m' (addr_of (pte m' r' i))" "solid 2 m' (addr_of (pte m' r' i))"
proof -
  have "if present (pte m r i) then copied 2 m (pte m r i) m' (pte m' r' i) else pte m' r' i = 0"
    using assms(1,2) unfolding cloned_root_def by blast
  then show "pte m' r' i AND NOT PTE_ADDR_MASK = pte m r i AND NOT PTE_ADDR_MASK"
    "clones 2 m (addr_of (pte m r i)) m' (addr_of (pte m' r' i))" "solid 2 m' (addr_of (pte m' r' i))"
    unfolding copied_def using assms(3) by simp_all
qed

lemma cloned_root_empty: "cloned_root m r m' r' \<Longrightarrow> i < 256 \<Longrightarrow> \<not> present (pte m r i) \<Longrightarrow> pte m' r' i = 0"
  unfolding cloned_root_def by metis

lemma cloned_root_small:
  assumes "cloned_root m r m' r'" "user_small m r"
  shows "user_small m' r'"
proof -
  have "pte m' r' i AND PTE_LARGE = 0 \<and> (present (pte m' r' i) \<longrightarrow> small 2 m' (addr_of (pte m' r' i)))" if i: "i < 256" for i
  proof (cases "present (pte m r i)")
    case True
    note e = cloned_rootD [OF assms(1) i True]
    show ?thesis using same_flags(2) [OF e(1)] clones_small [OF e(2)] assms(2) i True by (simp add: user_small_def)
  next
    case False
    then show ?thesis using cloned_root_empty [OF assms(1) i] by simp
  qed
  then show ?thesis by (simp add: user_small_def)
qed

lemma clones_walk:
  "clones n m t m' t' \<Longrightarrow> length is = Suc n \<Longrightarrow> (\<forall>i\<in>set is. i < 512) \<Longrightarrow>
     walk m' t' is = map_option (\<lambda>e. if present e then cow_pte e else 0) (walk m t is)"
proof (induction n arbitrary: t t' "is")
  case 0
  then obtain i where "is = [i]" by (metis length_0_conv length_Suc_conv)
  then show ?case using 0 by simp
next
  case (Suc n)
  obtain i j js where "is": "is = i # j # js" using Suc.prems(2) by (metis length_Suc_conv)
  have i: "i < 512" using Suc.prems(3) "is" by simp
  show ?case
  proof (cases "present (pte m t i)")
    case True
    then have e: "pte m' t' i AND NOT PTE_ADDR_MASK = pte m t i AND NOT PTE_ADDR_MASK"
      "clones n m (addr_of (pte m t i)) m' (addr_of (pte m' t' i))" using Suc.prems(1) i by simp_all
    show ?thesis using same_flags(1) [OF e(1)] Suc.IH [OF e(2), of "j # js"] Suc.prems(2,3) True "is" by simp
  next
    case False
    then show ?thesis using Suc.prems(1) i "is" by simp
  qed
qed

lemma cloned_page_entry:
  assumes "cloned_root m r m' r'" "user_addr v"
  shows "page_entry m' r' v = map_option (\<lambda>e. if present e then cow_pte e else 0) (page_entry m r v)"
proof -
  let ?i = "pml4_idx v"
  have i: "?i < 256" using assms(2) by (simp add: user_addr_def)
  show ?thesis
  proof (cases "present (pte m r ?i)")
    case True
    note e = cloned_rootD [OF assms(1) i True]
    show ?thesis using same_flags(1) [OF e(1)] clones_walk [OF e(2), of "[pdpt_idx v, pd_idx v, pt_idx v]"] True
      by (simp add: page_entry_def)
  next
    case False
    then show ?thesis using cloned_root_empty [OF assms(1) i] by (simp add: page_entry_def)
  qed
qed

lemma cow_pte_facts:
  "present (cow_pte e) = present e" "addr_of (cow_pte e) = addr_of e"
  "cow_pte e AND PTE_USER \<noteq> 0 \<Longrightarrow> cow_pte e AND PTE_WRITABLE = 0"
  by (auto simp: cow_pte_def unwritable)

lemma cloned_translate:
  assumes "cloned_root m r (ram s') r'" "user_small m r" "user_addr v" "m = ram s"
  shows "translate s' \<lparr>pml4_phys = r'\<rparr> v = translate s \<lparr>pml4_phys = r\<rparr> v" "\<not> user_writable s' \<lparr>pml4_phys = r'\<rparr> v"
proof -
  note p = cloned_page_entry [OF assms(1,3)]
  have "user_small (ram s') r'" using cloned_root_small [OF assms(1,2)] .
  then have t: "translate s' \<lparr>pml4_phys = r'\<rparr> v = (case page_entry (ram s') r' v of
      None \<Rightarrow> None | Some e \<Rightarrow> if present e then Some (addr_of e OR (v AND 0xFFF)) else None)"
    using translate_page_entry [of s' "\<lparr>pml4_phys = r'\<rparr>"] assms(3) by simp
  moreover have "translate s \<lparr>pml4_phys = r\<rparr> v = (case page_entry m r v of
      None \<Rightarrow> None | Some e \<Rightarrow> if present e then Some (addr_of e OR (v AND 0xFFF)) else None)"
    using translate_page_entry [of s "\<lparr>pml4_phys = r\<rparr>"] assms(2-4) by simp
  ultimately show "translate s' \<lparr>pml4_phys = r'\<rparr> v = translate s \<lparr>pml4_phys = r\<rparr> v"
    unfolding p by (simp add: cow_pte_facts split: option.splits)
  show "\<not> user_writable s' \<lparr>pml4_phys = r'\<rparr> v"
    unfolding user_writable_def using p cow_pte_facts(3) by (auto split: if_splits)
qed

text \<open>And a tree with less write access translates as before.\<close>

lemma weaker_walk:
  "weaker m m' \<Longrightarrow> aligned 12 t \<Longrightarrow> (\<forall>i\<in>set is. i < 512) \<Longrightarrow>
     rel_option (\<lambda>e e'. present e' = present e \<and> addr_of e' = addr_of e) (walk m t is) (walk m' t is)"
  by (induction m t "is" rule: walk.induct) (simp_all add: weaker_bits aligned_mask)

lemma read_only_walk:
  "read_only n m t \<Longrightarrow> length is = Suc n \<Longrightarrow> (\<forall>i\<in>set is. i < 512) \<Longrightarrow> walk m t is = Some e \<Longrightarrow> present e \<Longrightarrow>
     e AND PTE_USER \<noteq> 0 \<Longrightarrow> e AND PTE_WRITABLE = 0"
proof (induction n arbitrary: t "is")
  case 0
  then obtain i where "is = [i]" by (metis length_0_conv length_Suc_conv)
  then show ?case using 0 by auto
next
  case (Suc n)
  obtain i j js where "is": "is = i # j # js" using Suc.prems(2) by (metis length_Suc_conv)
  then show ?case using Suc.IH [of "addr_of (pte m t i)" "j # js"] Suc.prems by (simp split: if_splits)
qed

lemma cow_translate:
  assumes w: "weaker (ram s) (ram s')" and r: "aligned 12 r" "user_small (ram s) r" and v: "user_addr v"
    and ro: "\<forall>i<256. present (pte (ram s') r i) \<longrightarrow> read_only 2 (ram s') (addr_of (pte (ram s') r i))"
  shows "translate s' \<lparr>pml4_phys = r\<rparr> v = translate s \<lparr>pml4_phys = r\<rparr> v" "\<not> user_writable s' \<lparr>pml4_phys = r\<rparr> v"
proof -
  have "user_small (ram s') r"
    using r by (simp add: user_small_def weaker_bits [OF w] weaker_small [OF w aligned_mask])
  moreover have "rel_option (\<lambda>e e'. present e' = present e \<and> addr_of e' = addr_of e) (page_entry (ram s) r v) (page_entry (ram s') r v)"
    unfolding page_entry_def by (rule weaker_walk [OF w r(1)]) simp
  ultimately show "translate s' \<lparr>pml4_phys = r\<rparr> v = translate s \<lparr>pml4_phys = r\<rparr> v"
    using translate_page_entry [of s "\<lparr>pml4_phys = r\<rparr>", OF _ v] translate_page_entry [of s' "\<lparr>pml4_phys = r\<rparr>", OF _ v] r(2)
    by (auto elim: option.rel_cases)
  show "\<not> user_writable s' \<lparr>pml4_phys = r\<rparr> v"
  proof
    assume "user_writable s' \<lparr>pml4_phys = r\<rparr> v"
    then obtain e where e: "page_entry (ram s') r v = Some e" "present e" "e AND PTE_USER \<noteq> 0" "e AND PTE_WRITABLE \<noteq> 0"
      by (auto simp: user_writable_def)
    have "present (pte (ram s') r (pml4_idx v))"
      "walk (ram s') (addr_of (pte (ram s') r (pml4_idx v))) [pdpt_idx v, pd_idx v, pt_idx v] = Some e"
      using e(1) by (auto simp: page_entry_def split: if_splits)
    then show False
      using ro v e(2-4) read_only_walk [of 2 "ram s'" _ "[pdpt_idx v, pd_idx v, pt_idx v]" e] by (auto simp: user_addr_def)
  qed
qed

lemma make_cow_pml4_law:
  assumes "aligned 12 r" "user_small (ram s) r"
  shows "\<exists>m. make_cow_pml4 r s = s\<lparr>ram := m\<rparr> \<and> weaker (ram s) m \<and>
    (\<forall>x. unat x \<notin> user_subs (ram s) r \<longrightarrow> m x = ram s x) \<and>
    (\<forall>i<256. present (pte m r i) \<longrightarrow> read_only 2 m (addr_of (pte m r i)))"
  unfolding make_cow_pml4_def user_subs_def
  using assms(2)
  by (intro cow_loop [where large = False, OF make_cow_pdpt_law assms(1)]) (simp_all add: user_small_def Let_def)

lemma cloned_root_cong:
  assumes h: "half_cloned 2 m r c F0 256 s F'"
    and out: "\<And>x. unat x \<in> F0 - F' \<Longrightarrow> m' x = ram s x" and ent: "\<And>i. i < 256 \<Longrightarrow> pte m' c i = pte (ram s) c i"
  shows "cloned_root m r m' c" "i < 256 \<Longrightarrow> present (pte m r i) \<Longrightarrow> foot 2 m' (addr_of (pte m' c i)) \<subseteq> F0 - F'"
proof -
  have e: "if i < 256 \<and> present (pte m r i) then copied 2 m (pte m r i) (ram s) (pte (ram s) c i) \<and>
      foot 2 (ram s) (addr_of (pte (ram s) c i)) \<subseteq> F0 - F' else pte (ram s) c i = 0" if "i < 512" for i
    using h that unfolding half_cloned_def by blast
  have k: "copied 2 m (pte m r i) m' (pte m' c i) \<and> foot 2 m' (addr_of (pte m' c i)) \<subseteq> F0 - F'"
    if i: "i < 256" "present (pte m r i)" for i
  proof -
    have k: "copied 2 m (pte m r i) (ram s) (pte (ram s) c i)"
      "foot 2 (ram s) (addr_of (pte (ram s) c i)) \<subseteq> F0 - F'" using e [of i] i by simp_all
    have "copied 2 m (pte m r i) m' (pte (ram s) c i) \<and>
        foot 2 m' (addr_of (pte (ram s) c i)) = foot 2 (ram s) (addr_of (pte (ram s) c i))"
      using copied_child_cong [OF k(1), of m'] out k(2) by blast
    then show ?thesis using k(2) ent [OF i(1)] by simp
  qed
  then show "i < 256 \<Longrightarrow> present (pte m r i) \<Longrightarrow> foot 2 m' (addr_of (pte m' c i)) \<subseteq> F0 - F'" by blast
  have "pte m' c i = 0" if "i < 256" "\<not> present (pte m r i)" for i using e [of i] ent [OF that(1)] that by simp
  then show "cloned_root m r m' c" unfolding cloned_root_def using k by simp
qed

text \<open>What a successful clone leaves behind.\<close>

definition cow_shared :: "kmem \<Rightarrow> address_space \<Rightarrow> kmem \<Rightarrow> address_space \<Rightarrow> bool" where
  "cow_shared s sp s' sp' \<longleftrightarrow>
     (\<forall>v. user_addr v \<longrightarrow> translate s' sp' v = translate s sp v \<and> translate s' sp v = translate s sp v \<and>
        \<not> user_writable s' sp' v \<and> \<not> user_writable s' sp v) \<and>
     (\<forall>i. 256 \<le> i \<and> i < 512 \<longrightarrow> pte (ram s') (pml4_phys sp') i = pte (ram s) (pml4_phys sp) i)"

text \<open>The user half of an address space, made of small pages only, in tables away from the set \<open>F\<close>.\<close>

abbreviation user_tree :: "ram \<Rightarrow> u64 \<Rightarrow> nat set \<Rightarrow> bool" where
  "user_tree m r F \<equiv> tree_apart 2 m r 256 F"

lemma user_treeD:
  assumes "user_tree m r F"
  shows "aligned 12 r" "user_small m r" "span r 4096 \<inter> F = {}" "user_subs m r \<inter> F = {}"
  using assms unfolding tree_apart_def user_small_def user_subs_def by blast+

lemma user_tree_subset: "user_tree m r F \<Longrightarrow> F' \<subseteq> F \<Longrightarrow> user_tree m r F'"
  unfolding tree_apart_def by blast

lemma weaker_user_tree:
  assumes "weaker m m'" "user_tree m r F"
  shows "user_tree m' r F"
  using user_treeD(1) [OF assms(2)] assms(2)
  by (simp add: tree_apart_def weaker_bits [OF assms(1)] weaker_foot [OF assms(1) aligned_mask]
      weaker_small [OF assms(1) aligned_mask])

lemma cloned_user_tree:
  assumes c: "cloned_root m r m' c" "user_small m r" "aligned 12 c" "span c 4096 \<inter> F = {}"
    and f: "\<And>i. i < 256 \<Longrightarrow> present (pte m r i) \<Longrightarrow> foot 2 m' (addr_of (pte m' c i)) \<inter> F = {}"
  shows "user_tree m' c F"
proof -
  have "foot 2 m' (addr_of (pte m' c i)) \<inter> F = {}" if "i < 256" "present (pte m' c i)" for i
    using f [OF that(1)] cloned_root_empty [OF c(1) that(1)] that(2) by (cases "present (pte m r i)") simp_all
  then show ?thesis using cloned_root_small [OF c(1,2)] c(3,4) by (simp add: tree_apart_def user_small_def)
qed

lemma user_small_cong:
  assumes "tree_apart 2 m r 256 F" "\<And>x. unat x \<notin> F \<Longrightarrow> m' x = m x"
  shows "user_small m' r" "user_subs m' r = user_subs m r" "\<And>i. i < 512 \<Longrightarrow> pte m' r i = pte m r i"
proof -
  have a: "aligned 12 r" using assms(1) by (simp add: tree_apart_def)
  show p: "pte m' r i = pte m r i" if "i < 512" for i
    using assms that by (intro pte_cong) (auto simp: tree_apart_def)
  have "foot 2 m' (addr_of (pte m r i)) = foot 2 m (addr_of (pte m r i))" if "i < 256" "present (pte m r i)" for i
    using assms that by (intro foot_cong [OF aligned_mask]) (auto simp: tree_apart_def)
  then show "user_subs m' r = user_subs m r" using p by (auto simp: user_subs_def)
  show "user_small m' r"
    using tree_apart_cong [OF assms(1) _ assms(2)] by (simp add: tree_apart_def user_small_def)
qed

lemma walk_cong:
  "aligned 12 t \<Longrightarrow> length is = Suc n \<Longrightarrow> (\<forall>i\<in>set is. i < 512) \<Longrightarrow> (\<And>x. unat x \<in> foot n m t \<Longrightarrow> m' x = m x) \<Longrightarrow>
     walk m' t is = walk m t is"
proof (induction n arbitrary: t "is")
  case 0
  then obtain i where i: "is = [i]" by (metis length_0_conv length_Suc_conv)
  have "pte m' t i = pte m t i" using 0 i by (intro pte_cong) auto
  then show ?case using i by simp
next
  case (Suc n)
  obtain i j js where "is": "is = i # j # js" using Suc.prems(2) by (metis length_Suc_conv)
  have p: "pte m' t i = pte m t i" using Suc.prems "is" by (intro pte_cong) auto
  have "walk m' (addr_of (pte m t i)) (j # js) = walk m (addr_of (pte m t i)) (j # js)" if "present (pte m t i)"
    using Suc.prems "is" that by (intro Suc.IH aligned_mask) auto
  then show ?case using p "is" by simp
qed

lemma tree_apart_page_entry:
  assumes "tree_apart 2 m r 256 F" "\<And>x. unat x \<notin> F \<Longrightarrow> m' x = m x" "user_addr v"
  shows "page_entry m' r v = page_entry m r v"
proof -
  let ?i = "pml4_idx v"
  have i: "?i < 256" using assms(3) by (simp add: user_addr_def)
  have "walk m' (addr_of (pte m r ?i)) [pdpt_idx v, pd_idx v, pt_idx v] =
      walk m (addr_of (pte m r ?i)) [pdpt_idx v, pd_idx v, pt_idx v]" if "present (pte m r ?i)"
    using assms(1,2) i that by (intro walk_cong [where n = 2] aligned_mask) (auto simp: tree_apart_def)
  then show ?thesis using user_small_cong(3) [OF assms(1,2), of ?i] i by (simp add: page_entry_def)
qed

text \<open>
  The user half of an address space: the invariant of the page tables, with small pages only.  It
  depends on memory outside the free frames only.
\<close>

definition user_space :: "ram \<Rightarrow> u64 \<Rightarrow> nat set \<Rightarrow> bool" where
  "user_space m r F \<longleftrightarrow> pt_inv m r F \<and> user_small m r"

lemma user_spaceD:
  assumes "user_space m r F"
  shows "user_tree m r F" "user_small m r" "pt_inv m r F" "aligned 12 r" "F \<subseteq> {..<2 ^ 52}" "span r 4096 \<inter> F = {}"
    "user_subs m r \<inter> F = {}"
proof -
  show t: "user_tree m r F" "user_small m r" "pt_inv m r F"
    using assms pt_inv_tree by (auto simp: user_space_def)
  show "aligned 12 r" "F \<subseteq> {..<2 ^ 52}" using pt_invD(1,2) [OF t(3)] .
  show "span r 4096 \<inter> F = {}" "user_subs m r \<inter> F = {}" using user_treeD(3,4) [OF t(1)] .
qed

lemma tbl_weaker: "weaker m m' \<Longrightarrow> aligned 12 r \<Longrightarrow> upath is \<Longrightarrow> tbl m' r is = tbl m r is"
proof (induction "is")
  case (Cons i "is")
  note up = upath_ConsD [OF Cons.prems(3)]
  have "pte m' t i AND PTE_PRESENT = pte m t i AND PTE_PRESENT" "pte m' t i AND PTE_LARGE = pte m t i AND PTE_LARGE"
    "addr_of (pte m' t i) = addr_of (pte m t i)" if "tbl m r is = Some t" for t
    using weaker_bits [OF Cons.prems(1) tbl_aligned [OF Cons.prems(2) that] up(2)] by simp_all
  then show ?case using Cons.IH [OF Cons.prems(1,2) up(1)] by (auto split: option.splits)
qed simp

lemma tbl_outside:
  assumes "pt_inv m r F" "\<And>x. unat x \<notin> F \<Longrightarrow> m' x = m x"
  shows "upath is \<Longrightarrow> tbl m' r is = tbl m r is"
proof (induction "is")
  case (Cons i "is")
  note up = upath_ConsD [OF Cons.prems]
  have "pte m' t i = pte m t i" if "tbl m r is = Some t" for t
    using pt_invD(4) [OF assms(1) up(1) that] up(2) table_span [OF up(1) that] pt_invD(3) [OF assms(1)] assms(2)
    by (intro pte_cong) blast+
  then show ?case using Cons.IH [OF up(1)] by (auto split: option.splits)
qed simp

lemma user_space_frame:
  assumes "user_space m r F" "F' \<subseteq> F" "\<And>x. unat x \<notin> F \<Longrightarrow> m' x = m x"
  shows "user_space m' r F'"
  using pt_inv_small_same [OF user_spaceD(3) [OF assms(1)] assms(2)] tbl_outside [OF user_spaceD(3) [OF assms(1)] assms(3)]
    user_small_cong(1) [OF user_spaceD(1) [OF assms(1)] assms(3)] unfolding user_space_def by blast

lemma user_space_weaker:
  assumes "user_space m r F" "weaker m m'"
  shows "user_space m' r F"
  using pt_inv_small_same [OF user_spaceD(3) [OF assms(1)] order_refl _ tbl_weaker [OF assms(2) user_spaceD(4) [OF assms(1)]]]
    user_treeD(2) [OF weaker_user_tree [OF assms(2) user_spaceD(1) [OF assms(1)]]] unfolding user_space_def by blast

lemma translate_frame:
  assumes "user_space (ram s) (pml4_phys sp) F" "\<And>x. unat x \<notin> F \<Longrightarrow> ram s' x = ram s x" "user_addr v"
  shows "translate s' sp v = translate s sp v" "user_writable s' sp v = user_writable s sp v"
proof -
  note t = user_spaceD(1) [OF assms(1)]
  have p: "page_entry (ram s') (pml4_phys sp) v = page_entry (ram s) (pml4_phys sp) v"
    by (rule tree_apart_page_entry [OF t assms(2,3)])
  have "user_small (ram s') (pml4_phys sp)" "user_small (ram s) (pml4_phys sp)"
    using user_small_cong(1) [OF t assms(2)] user_treeD(2) [OF t] by blast+
  then show "translate s' sp v = translate s sp v" using translate_page_entry [OF _ assms(3)] p by simp
  show "user_writable s' sp v = user_writable s sp v" using p by (simp add: user_writable_def)
qed

text \<open>The child's tables and the parent's, once everything is written.\<close>

lemma clone_child:
  assumes h: "half_cloned 2 (ram s) r c F0 256 s2 F'" and us: "user_small (ram s) r" and F: "F \<subseteq> {..<2 ^ 52}"
    and c: "aligned 12 c" "span c 4096 \<subseteq> F" and F0: "F0 = F - span c 4096"
    and agree: "\<And>x. unat x \<in> F0 \<Longrightarrow> m x = ram s2 x" and ent: "\<And>i. i < 256 \<Longrightarrow> pte m c i = pte (ram s2) c i"
  shows "cloned_root (ram s) r m c" "user_space m c F'" "user_foot m c \<subseteq> F - F'"
proof -
  have ag: "m x = ram s2 x" if "unat x \<in> F0 - F'" for x using that agree by blast
  have F': "F' \<subseteq> F0" using h by (simp add: half_cloned_def)
  note cl = cloned_root_cong [OF h ag ent]
  show "cloned_root (ram s) r m c" by (rule cl(1))
  have pr: "present (pte (ram s) r i)" if "i < 256" "present (pte m c i)" for i
    using cloned_root_empty [OF cl(1) that(1)] that(2) by auto
  show "user_foot m c \<subseteq> F - F'"
    using cl(2) pr c(2) F' F0 unfolding user_foot_def user_subs_def by blast
  have tree: "user_tree m c F'" using cl(2) F' F0 by (intro cloned_user_tree [OF cl(1) us c(1)]) blast+
  have sub: "foot 2 (ram s2) (addr_of (pte (ram s2) c i)) \<subseteq> F0 - F'" if "i < 256" "present (pte (ram s2) c i)" for i
    using half_cloned_cell(3) [OF h that(1) _ that(2)] by simp
  have "branches 2 m c 256 = branches 2 (ram s2) c 256"
  proof (rule branches_cong [OF ent])
    show "foot 2 m (addr_of (pte (ram s2) c i)) = foot 2 (ram s2) (addr_of (pte (ram s2) c i))"
      if "i < 256" "present (pte (ram s2) c i)" for i
      using sub [OF that] ag by (intro foot_cong aligned_mask) blast
  qed
  then have "branches 2 m c 256" using half_cloned_branches [OF h] F0 by auto
  then have "pt_inv m c F'"
    using F F' F0 cloned_rootD(3) [OF cl(1)] pr by (intro pt_inv_solid [OF tree]) auto
  then show "user_space m c F'" using user_treeD(2) [OF tree] by (simp add: user_space_def)
qed

lemma clone_parent:
  assumes u: "user_space (ram s) r F" and m3: "\<And>x. unat x \<notin> F \<Longrightarrow> m3 x = ram s x" and w: "weaker m3 (ram s4)"
    and ro: "\<forall>i<256. present (pte (ram s4) r i) \<longrightarrow> read_only 2 (ram s4) (addr_of (pte (ram s4) r i))"
  shows "user_space (ram s4) r F"
    "user_addr v \<Longrightarrow> translate s4 \<lparr>pml4_phys = r\<rparr> v = translate s \<lparr>pml4_phys = r\<rparr> v \<and> \<not> user_writable s4 \<lparr>pml4_phys = r\<rparr> v"
proof -
  have u3: "user_space m3 r F" by (rule user_space_frame [OF u order_refl m3])
  show "user_space (ram s4) r F" by (rule user_space_weaker [OF u3 w])
  assume v: "user_addr v"
  let ?s3 = "s\<lparr>ram := m3\<rparr>"
  have "translate ?s3 \<lparr>pml4_phys = r\<rparr> v = translate s \<lparr>pml4_phys = r\<rparr> v"
    by (rule translate_frame(1)) (use u m3 v in auto)
  then show "translate s4 \<lparr>pml4_phys = r\<rparr> v = translate s \<lparr>pml4_phys = r\<rparr> v \<and> \<not> user_writable s4 \<lparr>pml4_phys = r\<rparr> v"
    using cow_translate [of ?s3 s4 r v] v w ro user_spaceD(2,4) [OF u3] by simp
qed

lemma clone_finish:
  fixes s s2 :: kmem
  assumes u: "user_space (ram s) r F"
    and c: "aligned 12 c" "span c 4096 \<subseteq> F" and F0: "F0 = F - span c 4096"
    and out: "\<forall>x. unat x \<notin> F \<longrightarrow> ram s2 x = ram s x"
    and h: "half_cloned 2 (ram s) r c F0 256 s2 F'"
    and s4: "s4 = make_cow_pml4 r (fold (\<lambda>i s. set_entry s (pml4 s \<lparr>pml4_phys = c\<rparr>) i
        (get_entry s (phys_to_virt (hhdm s2) r) i)) [256..<512] s2)"
  shows "free_space s4 F' \<and> hhdm s4 = hhdm s2 \<and> (\<forall>x. unat x \<notin> F \<union> user_subs (ram s) r \<longrightarrow> ram s4 x = ram s x) \<and>
    cow_shared s \<lparr>pml4_phys = r\<rparr> s4 \<lparr>pml4_phys = c\<rparr> \<and> user_space (ram s4) r F \<and> user_space (ram s4) c F' \<and>
    user_foot (ram s4) c \<subseteq> F - F'"
proof -
  note r = user_spaceD [OF u]
  have rc: "c \<noteq> r" using r(6) c(2) by (metis disjoint_iff in_span_self subsetD zero_less_numeral)
  have F': "F' \<subseteq> F0" "free_space s2 F'" using h by (simp_all add: half_cloned_def)
  obtain m3 where m3: "fold (\<lambda>i s. set_entry s (pml4 s \<lparr>pml4_phys = c\<rparr>) i
        (get_entry s (phys_to_virt (hhdm s2) r) i)) [256..<512] s2 = s2\<lparr>ram := m3\<rparr>"
      "\<forall>i<512. pte m3 c i = (if 256 \<le> i \<and> i < 512 then pte (ram s2) r i else pte (ram s2) c i)"
      "\<forall>x. unat x \<notin> span c 4096 \<longrightarrow> m3 x = ram s2 x"
    using copy_entries [OF c(1) r(4) rc le_refl refl, of s2] by blast
  have m3s: "m3 x = ram s x" if "unat x \<notin> F" for x using m3(3) out c(2) that by (metis subsetD)
  note u3 = user_small_cong [OF r(1) m3s]
  obtain m4 where m4: "s4 = s2\<lparr>ram := m4\<rparr>" "weaker m3 m4" "\<forall>x. unat x \<notin> user_subs (ram s) r \<longrightarrow> m4 x = m3 x"
      "\<forall>i<256. present (pte m4 r i) \<longrightarrow> read_only 2 m4 (addr_of (pte m4 r i))"
    using make_cow_pml4_law [of r "s2\<lparr>ram := m3\<rparr>", OF r(4)] u3(1,2) s4 [unfolded m3(1)] by auto
  have m4F: "m4 x = m3 x" if "unat x \<in> F" for x using m4(3) r(7) that by blast
  have pc: "pte m4 c i = pte m3 c i" if "i < 512" for i
    using c that m4F by (intro pte_cong) auto
  have agree: "m4 x = ram s2 x" if "unat x \<in> F0" for x using that m4F m3(3) F0 by auto
  have ent: "pte m4 c i = pte (ram s2) c i" if "i < 256" for i using that pc m3(2) by simp
  note cl = clone_child [OF h r(2,5) c F0 agree ent]
  have child: "translate s4 \<lparr>pml4_phys = c\<rparr> v = translate s \<lparr>pml4_phys = r\<rparr> v \<and> \<not> user_writable s4 \<lparr>pml4_phys = c\<rparr> v"
    if "user_addr v" for v
    using cloned_translate [of "ram s" r s4 c v s] cl(1) r(2) that m4(1) by simp
  note parent = clone_parent [of s r F m3 s4, OF u m3s, simplified m4(1), simplified, OF m4(2,4), folded m4(1)]
  have "pte m4 c i = pte (ram s) r i" if "256 \<le> i" "i < 512" for i
  proof -
    have "pte (ram s2) r i = pte (ram s) r i" using that r(4,6) out by (intro pte_cong) auto
    then show ?thesis using that pc m3(2) by simp
  qed
  then have "cow_shared s \<lparr>pml4_phys = r\<rparr> s4 \<lparr>pml4_phys = c\<rparr>"
    unfolding cow_shared_def using child parent(2) m4(1) by simp
  moreover have "free_space s4 F'" unfolding m4(1) using F' agree by (intro pmm_mem.set_mem_free) auto
  moreover have "\<forall>x. unat x \<notin> F \<union> user_subs (ram s) r \<longrightarrow> m4 x = ram s x" using m4(3) m3s by auto
  ultimately show ?thesis using m4(1) cl parent(1) by simp
qed

lemma clone_address_space_law:
  assumes fs0: "free_space s F" and us: "user_space (ram s) (pml4_phys sp) F"
    and r: "clone_address_space s sp vm = (r, s')"
  shows "user_space (ram s') (pml4_phys sp) F \<and> (\<forall>v. user_addr v \<longrightarrow> translate s' sp v = translate s sp v) \<and>
    (\<exists>F'\<subseteq>F. free_space s' F' \<and> hhdm s' = hhdm s \<and>
      (\<forall>x. unat x \<notin> F \<union> user_subs (ram s) (pml4_phys sp) \<longrightarrow> ram s' x = ram s x) \<and>
      (case r of None \<Rightarrow> (\<forall>x. unat x \<notin> F \<longrightarrow> ram s' x = ram s x)
       | Some (csp, cvm) \<Rightarrow> cow_shared s sp s' csp \<and> user_space (ram s') (pml4_phys csp) F' \<and>
           user_foot (ram s') (pml4_phys csp) \<subseteq> F - F' \<and> cvm = clone_vmspace vm))"
proof (cases "alloc_zeroed_frame s")
  case None
  then have "r = None" "s' = s" using r by (auto simp: clone_address_space_def)
  then show ?thesis using us fs0 by auto
next
  case (Some cs)
  note fs = fs0 user_spaceD(5) [OF us] and t = user_spaceD(1) [OF us]
  obtain c s1 where al: "alloc_zeroed_frame s = Some (c, s1)" using Some by (cases cs) auto
  let ?r = "pml4_phys sp" and ?F = "F - span c 4096"
  note f = fresh_child [OF fs al]
  have u: "?F \<union> span c 4096 = F" using f(5) by blast
  have us1: "user_space (ram s1) ?r F" by (rule user_space_frame [OF us order_refl f(3)])
  have t1': "user_tree (ram s1) ?r (?F \<union> span c 4096)" unfolding u by (rule user_spaceD(1) [OF us1])
  have F52: "?F \<subseteq> {..<2 ^ 52}" using fs(2) by blast
  obtain good s2 where g: "clone_entries clone_pdpt ?r c [0..<256] s1 = (good, s2)" by (metis surj_pair)
  obtain F' where F': "F' \<subseteq> ?F" "free_space s2 F'" "hhdm s2 = hhdm s1"
      "\<forall>x. unat x \<notin> F \<longrightarrow> ram s2 x = ram s1 x" "good \<longrightarrow> half_cloned 2 (ram s1) ?r c ?F 256 s2 F'"
    using clone_entries_law [OF clone_pdpt_law f(6) f(2) F52 t1' _ _ f(1) g] unfolding u by auto
  have s2: "\<forall>x. unat x \<notin> F \<longrightarrow> ram s2 x = ram s x" using F'(4) f(3) by simp
  show ?thesis
  proof (cases good)
    case False
    then have "r = None" "s' = s2" using r al g by (simp_all add: clone_address_space_def Let_def del: upt_rec_numeral)
    moreover have "\<And>x. unat x \<notin> F \<Longrightarrow> ram s2 x = ram s x" using s2 by blast
    note user_space_frame [OF us order_refl this] translate_frame(1) [OF us this]
    ultimately show ?thesis using F' s2 f(4) by auto
  next
    case True
    let ?s3 = "fold (\<lambda>i s. set_entry s (pml4 s \<lparr>pml4_phys = c\<rparr>) i (get_entry s (phys_to_virt (hhdm s2) ?r) i)) [256..<512] s2"
    define s4 where "s4 = make_cow_pml4 ?r ?s3"
    have r': "r = Some (\<lparr>pml4_phys = c\<rparr>, clone_vmspace vm)" "s' = s4"
      using r al g True F'(3) by (simp_all add: clone_address_space_def Let_def s4_def del: upt_rec_numeral)
    have sub: "user_subs (ram s1) ?r = user_subs (ram s) ?r" using user_small_cong(2) [OF t f(3)] .
    have tr: "translate s1 sp v = translate s sp v" if "user_addr v" for v
      using translate_frame(1) [OF us f(3) that] .
    have pt: "pte (ram s1) ?r i = pte (ram s) ?r i" if "i < 512" for i using user_small_cong(3) [OF t f(3) that] .
    have sp: "\<lparr>pml4_phys = ?r\<rparr> = sp" by simp
    note k = clone_finish [OF us1 f(6,5) refl _ F'(5) [rule_format, OF True] s4_def, unfolded sp]
    have "cow_shared s sp s4 \<lparr>pml4_phys = c\<rparr>"
      using k F'(4) tr pt unfolding cow_shared_def user_writable_def by simp
    then show ?thesis
      using k F' f(3,4) sub r' by (auto simp: cow_shared_def)
  qed
qed

text \<open>Cloning fails only when there is no frame left.\<close>

lemma clone_entries_None:
  assumes "\<forall>s e s'. clone s e = (None, s') \<longrightarrow> alloc_zeroed_frame s' = None"
  shows "clone_entries clone p c is s = (False, s') \<Longrightarrow> alloc_zeroed_frame s' = None"
  by (induction "is" arbitrary: s) (auto simp: Let_def assms [rule_format] split: if_splits prod.splits option.splits)

lemma clone_pt_None: "clone_pt s e = (None, s') \<Longrightarrow> alloc_zeroed_frame s' = None"
  by (auto simp: clone_pt_def Let_def split: option.splits)

lemma clone_pd_None: "clone_pd s e = (None, s') \<Longrightarrow> alloc_zeroed_frame s' = None"
  by (auto simp: clone_pd_def Let_def simp del: upt_rec_numeral split: option.splits if_splits prod.splits bool.splits dest: clone_entries_None [rotated] clone_pt_None)

lemma clone_pdpt_None: "clone_pdpt s e = (None, s') \<Longrightarrow> alloc_zeroed_frame s' = None"
  by (auto simp: clone_pdpt_def Let_def simp del: upt_rec_numeral split: option.splits prod.splits bool.splits dest: clone_entries_None [rotated] clone_pd_None)

lemma clone_address_space_None: "clone_address_space s sp vm = (None, s') \<Longrightarrow> alloc_zeroed_frame s' = None"
  by (auto simp: clone_address_space_def Let_def simp del: upt_rec_numeral split: option.splits prod.splits bool.splits dest: clone_entries_None [rotated] clone_pdpt_None)

section \<open>Fork and the scheduler\<close>

lemma alloc_frames_law:
  assumes "free_space s F" "alloc_frames s n = Some (p, s')"
  shows "\<exists>F'\<subseteq>F. free_space s' F' \<and> hhdm s' = hhdm s \<and> (\<forall>x. unat x \<notin> F \<longrightarrow> ram s' x = ram s x)"
proof -
  obtain ls where ls: "pmm_inv s ls" "space ls = F" using assms(1) by (auto simp: free_space_def)
  obtain ls' where "pmm_inv s' ls'" "space ls = space ls' \<union> bspan (n, p)" "hhdm s' = hhdm s"
    "\<forall>x. unat x \<notin> space ls \<longrightarrow> ram s' x = ram s x"
    using alloc_contract [OF ls(1) assms(2) [unfolded alloc_frames_def]] by blast
  then show ?thesis using ls(2) unfolding free_space_def by (intro exI [of _ "space ls'"]) auto
qed

lemma cow_shared_frame:
  assumes "cow_shared s sp s1 csp" and t: "user_space (ram s1) (pml4_phys sp) F" "user_space (ram s1) (pml4_phys csp) F"
    and eq: "\<And>x. unat x \<notin> F \<Longrightarrow> ram s2 x = ram s1 x"
  shows "cow_shared s sp s2 csp"
  using assms(1) translate_frame [OF t(1) eq] translate_frame [OF t(2) eq] user_small_cong(3) [OF user_spaceD(1) [OF t(2)] eq]
  unfolding cow_shared_def by simp

text \<open>
  What the caller keeps in every case: a sound address space in which everything translates as before.
\<close>

definition keeps :: "kmem \<Rightarrow> address_space \<Rightarrow> kmem \<Rightarrow> nat set \<Rightarrow> bool" where
  "keeps s sp s' F' \<longleftrightarrow> free_space s' F' \<and> user_space (ram s') (pml4_phys sp) F' \<and>
     (\<forall>v. user_addr v \<longrightarrow> translate s' sp v = translate s sp v)"

definition out_of_memory :: "kmem \<Rightarrow> process \<Rightarrow> bool" where
  "out_of_memory s p \<longleftrightarrow> (case clone_address_space s (p_space p) (p_vm p) of
     (None, s1) \<Rightarrow> alloc_zeroed_frame s1 = None | (Some _, s1) \<Rightarrow> alloc_frames s1 2 = None)"

text \<open>The clone is dropped again: its tables are free frames once more.\<close>

lemma drop_clone:
  assumes us: "user_space (ram s1) (pml4_phys sp) F" and tr: "\<forall>v. user_addr v \<longrightarrow> translate s1 sp v = translate s sp v"
    and cl: "user_space (ram s1) (pml4_phys csp) F1" "user_foot (ram s1) (pml4_phys csp) \<subseteq> F - F1"
    and fs: "free_space s1 F1" "F1 \<subseteq> F" and null: "unat (- hhdm s1) \<notin> F"
  shows "\<exists>s2 F2. drop_space s1 csp = Some s2 \<and> F2 \<subseteq> F \<and> keeps s sp s2 F2"
proof -
  let ?T = "tables (ram s1) (pml4_phys csp)"
  have T: "?T \<subseteq> F - F1" using user_tables [OF user_spaceD(2) [OF cl(1)]] cl(2) by simp
  have "unat (- hhdm s1) \<notin> ?T" using null T by blast
  then obtain s2 where s2: "drop_space s1 csp = Some s2" "free_space s2 (F1 \<union> ?T)" "\<forall>x. unat x \<notin> F1 \<union> ?T \<longrightarrow> ram s2 x = ram s1 x"
    using free_user_page_tables_law [OF fs(1) user_spaceD(3) [OF cl(1)]] unfolding drop_space_def by blast
  have sub: "F1 \<union> ?T \<subseteq> F" using fs(2) T by blast
  have out: "ram s2 x = ram s1 x" if "unat x \<notin> F" for x using s2(3) sub that by blast
  have "keeps s sp s2 (F1 \<union> ?T)"
    unfolding keeps_def using s2(2) user_space_frame [OF us sub out] translate_frame(1) [OF us out] tr by simp
  then show ?thesis using s2(1) sub by blast
qed

lemma fork_with_law:
  assumes fs: "free_space s F" "unat (- hhdm s) \<notin> F" and q: "rq_inv q" "current q = Some p" and par: "par = procs q ! p"
    and t: "user_space (ram s) (pml4_phys (p_space par)) F"
  shows "\<exists>ret q' s' F'. fork_with sm fcr q s = Some (ret, q', s') \<and> F' \<subseteq> F \<and> keeps s (p_space par) s' F' \<and> rq_inv q' \<and>
    (ret = - ENOMEM \<and> q' = q\<lparr>NEXT_PID := NEXT_PID q + 1\<rparr> \<and> out_of_memory s par \<or>
     ret = ucast (NEXT_PID q) \<and> (\<exists>child. procs q' = procs q @ [child] \<and> queue q' = queue q @ [length (procs q)] \<and>
       current q' = current q \<and> p_pid child = NEXT_PID q \<and> p_ppid child = p_pid par \<and>
       p_state child = Runnable \<and> cow_shared s (p_space par) s' (p_space child) \<and>
       user_space (ram s') (pml4_phys (p_space child)) F'))"
proof -
  let ?q1 = "q\<lparr>NEXT_PID := NEXT_PID q + 1\<rparr>"
  have q1: "rq_inv ?q1" using alloc_pid_inv [OF q(1)] by (simp add: alloc_pid_def)
  obtain c s1 where c: "clone_address_space s (p_space par) (p_vm par) = (c, s1)" by (metis surj_pair)
  obtain F1 where F1: "user_space (ram s1) (pml4_phys (p_space par)) F"
    "\<forall>v. user_addr v \<longrightarrow> translate s1 (p_space par) v = translate s (p_space par) v" "F1 \<subseteq> F" "free_space s1 F1" "hhdm s1 = hhdm s"
    "case c of None \<Rightarrow> (\<forall>x. unat x \<notin> F \<longrightarrow> ram s1 x = ram s x)
     | Some (csp, cvm) \<Rightarrow> cow_shared s (p_space par) s1 csp \<and> user_space (ram s1) (pml4_phys csp) F1 \<and>
         user_foot (ram s1) (pml4_phys csp) \<subseteq> F - F1 \<and> cvm = clone_vmspace (p_vm par)"
    using clone_address_space_law [OF fs(1) t c] by blast
  have F1par: "user_space (ram s1) (pml4_phys (p_space par)) F1" using user_space_frame [OF F1(1,3)] by simp
  note u = fork_with_def current_process_def alloc_pid_def Let_def
  show ?thesis
  proof (cases c)
    case None
    have "fork_with sm fcr q s = Some (- ENOMEM, ?q1, s1)" using q(2) c None par by (simp add: u)
    moreover have "out_of_memory s par" using c clone_address_space_None [OF c [unfolded None]] None by (simp add: out_of_memory_def)
    moreover have "keeps s (p_space par) s1 F1" unfolding keeps_def using F1(2,4) F1par by blast
    ultimately show ?thesis using F1(3) q1 by blast
  next
    case (Some sv)
    obtain csp cvm where sv: "c = Some (csp, cvm)" using Some by (cases sv) auto
    have k: "cow_shared s (p_space par) s1 csp" "user_space (ram s1) (pml4_phys csp) F1"
      "user_foot (ram s1) (pml4_phys csp) \<subseteq> F - F1"
      using F1(6) sv by simp_all
    show ?thesis
    proof (cases "alloc_frames s1 2")
      case None
      then have "fork_with sm fcr q s = map_option (\<lambda>s2. (- ENOMEM, ?q1, s2)) (drop_space s1 csp)"
        using q(2) c sv par by (simp add: u)
      moreover have "out_of_memory s par" using c sv None by (simp add: out_of_memory_def)
      moreover obtain s2 F2 where "drop_space s1 csp = Some s2" "F2 \<subseteq> F" "keeps s (p_space par) s2 F2"
        using drop_clone [OF F1(1,2) k(2,3) F1(4,3)] F1(5) fs(2) by auto
      ultimately show ?thesis using q1 by auto
    next
      case (Some ks)
      obtain k' s2 where ks: "alloc_frames s1 2 = Some (k', s2)" using Some by (cases ks) auto
      define child where "child = fork_child par (NEXT_PID q) csp cvm (phys_to_virt (hhdm s2) k') fcr (sm par)"
      define q' where "q' = spawn (?q1\<lparr>procs := procs ?q1 @ [child]\<rparr>) (length (procs ?q1))"
      have r': "fork_with sm fcr q s = Some (ucast (NEXT_PID q), q', s2)"
        using q(2) c sv ks par by (simp add: u child_def q'_def arc_new_def)
      have ch: "p_pid child = NEXT_PID q" "p_ppid child = p_pid par" "p_state child = Runnable" "p_space child = csp"
        by (simp_all add: child_def fork_child_def Let_def)
      obtain F2 where F2: "F2 \<subseteq> F1" "free_space s2 F2" "\<forall>x. unat x \<notin> F1 \<longrightarrow> ram s2 x = ram s1 x"
        using alloc_frames_law [OF F1(4) ks] by blast
      then have eq: "ram s2 x = ram s1 x" if "unat x \<notin> F1" for x using that by blast
      have cs: "cow_shared s (p_space par) s2 csp" using cow_shared_frame [OF k(1) F1par k(2) eq] .
      then have "keeps s (p_space par) s2 F2"
        unfolding keeps_def using user_space_frame [OF F1par F2(1) eq] F2(2) by (simp add: cow_shared_def)
      moreover have "user_space (ram s2) (pml4_phys csp) F2" by (rule user_space_frame [OF k(2) F2(1) eq])
      moreover have "rq_inv q'" using spawn_inv [OF q1 ch(3)] by (simp add: q'_def)
      moreover have "procs q' = procs q @ [child]" "queue q' = queue q @ [length (procs q)]" "current q' = current q"
        by (simp_all add: q'_def spawn_def)
      ultimately show ?thesis using r' ch cs F1(3) F2(1)
        by (intro exI [of _ "ucast (NEXT_PID q)"] exI [of _ q'] exI [of _ s2] exI [of _ F2]) auto
    qed
  qed
qed

lemma no_zombie_child:
  assumes "rq_inv q"
  shows "find_zombie_child q pid = None"
  using assms by (auto simp: find_zombie_child_def rq_inv_def rq_wf_def Let_def find_None_iff split: option.splits)

section \<open>An example\<close>

text \<open>A process with one writable user page: address four MiB, at frame three MiB.\<close>

definition put_pte :: "ram \<Rightarrow> u64 \<Rightarrow> nat \<Rightarrow> u64 \<Rightarrow> ram" where
  "put_pte m t i v = store64 m (t + 8 * of_nat i) v"

definition example_user_ram :: ram where
  "example_user_ram = put_pte (put_pte (put_pte (put_pte (\<lambda>_. 0) 0x100000 0 0x101007) 0x101000 0 0x102007)
     0x102000 2 0x103007) 0x103000 0 0x300007"

definition example_forking :: kmem where
  "example_forking = example_mem8\<lparr>ram := example_user_ram\<rparr>"

definition example_fork_rq :: run_queue where
  "example_fork_rq = \<lparr>procs = [(example_proc 1 5 10 Running)\<lparr>p_space := example_sp\<rparr>], queue = [], current = Some 0, NEXT_PID = 2\<rparr>"

lemma pte_put:
  assumes "aligned 12 t" "aligned 12 t'" "i < 512" "j < 512"
  shows "pte (put_pte m t i v) t' j = (if t = t' \<and> i = j then v else pte m t' j)"
  using assms pte_store_same pte_store_other [OF assms] by (auto simp: put_pte_def)

lemma example_user_pte:
  assumes "i < 512"
  shows "pte example_user_ram 0x100000 i = (if i = 0 then 0x101007 else 0)"
    "pte example_user_ram 0x101000 i = (if i = 0 then 0x102007 else 0)"
    "pte example_user_ram 0x102000 i = (if i = 2 then 0x103007 else 0)"
    "pte example_user_ram 0x103000 i = (if i = 0 then 0x300007 else 0)"
proof -
  have z: "pte (\<lambda>_. 0) t i = 0" for t i by (simp add: pte_def load64_zero)
  show "pte example_user_ram 0x100000 i = (if i = 0 then 0x101007 else 0)"
    "pte example_user_ram 0x101000 i = (if i = 0 then 0x102007 else 0)"
    "pte example_user_ram 0x102000 i = (if i = 2 then 0x103007 else 0)"
    "pte example_user_ram 0x103000 i = (if i = 0 then 0x300007 else 0)"
    using assms by (auto simp: example_user_ram_def pte_put z aligned_def)
qed

lemma foot_two: "foot 2 m t = span t 4096 \<union> (\<Union>i\<in>{i. i < 512 \<and> present (pte m t i)}. span (addr_of (pte m t i)) 4096 \<union>
    (\<Union>j\<in>{j. j < 512 \<and> present (pte m (addr_of (pte m t i)) j)}. span (addr_of (pte m (addr_of (pte m t i)) j)) 4096))"
  by (simp add: numeral_2_eq_2)

lemma example_entries:
  "addr_of 0x101007 = 0x101000" "addr_of 0x102007 = 0x102000" "addr_of 0x103007 = 0x103000" "addr_of 0x300007 = 0x300000"
  "present 0x101007" "present 0x102007" "present 0x103007" "present 0x300007"
  "(0x101007 :: u64) AND PTE_LARGE = 0" "(0x102007 :: u64) AND PTE_LARGE = 0" "(0x103007 :: u64) AND PTE_LARGE = 0"
  by (simp_all add: PTE_ADDR_MASK_def PTE_PRESENT_def PTE_LARGE_def)

lemma example_foot:
  "foot 1 example_user_ram 0x102000 = span 0x102000 4096 \<union> span 0x103000 4096"
  "foot 2 example_user_ram 0x101000 = span 0x101000 4096 \<union> (span 0x102000 4096 \<union> span 0x103000 4096)"
proof -
  have i: "{i. i < 512 \<and> present (pte example_user_ram 0x101000 i)} = {0}"
    "{i. i < 512 \<and> present (pte example_user_ram 0x102000 i)} = {2}"
    by (auto simp: example_user_pte example_entries split: if_splits)
  show "foot 1 example_user_ram 0x102000 = span 0x102000 4096 \<union> span 0x103000 4096"
    unfolding One_nat_def foot.simps i by (simp add: example_user_pte example_entries)
  show "foot 2 example_user_ram 0x101000 = span 0x101000 4096 \<union> (span 0x102000 4096 \<union> span 0x103000 4096)"
    unfolding foot_two i by (simp add: example_user_pte example_entries i)
qed

lemma example_spans:
  "span 0x100000 4096 \<inter> (span 0x101000 4096 \<union> (span 0x102000 4096 \<union> span 0x103000 4096)) = {}"
  "span 0x101000 4096 \<inter> (span 0x102000 4096 \<union> span 0x103000 4096) = {}" "span 0x102000 4096 \<inter> span 0x103000 4096 = {}"
  "span 0x100000 4096 \<inter> example_free = {}" "span 0x101000 4096 \<inter> example_free = {}"
  "span 0x102000 4096 \<inter> example_free = {}" "span 0x103000 4096 \<inter> example_free = {}"
  by (auto simp: span_def)

lemma example_user_tree: "user_tree example_user_ram 0x100000 example_free"
proof -
  have "small 2 example_user_ram 0x101000" by (simp add: small_two example_user_pte example_entries)
  then show ?thesis
    by (simp add: tree_apart_def example_user_pte example_entries example_foot aligned_def example_spans Int_Un_distrib2)
qed

lemma example_user_space: "user_space example_user_ram 0x100000 example_free"
proof -
  have b: "branches 2 example_user_ram 0x100000 256"
    by (simp add: branches_def example_user_pte example_entries example_foot example_spans)
  have "branches 1 example_user_ram 0x101000 512"
    by (simp add: branches_def example_user_pte example_entries example_foot example_spans del: One_nat_def foot.simps)
  moreover have "branches 0 example_user_ram 0x102000 512"
    by (simp add: branches_def example_user_pte example_entries example_spans)
  ultimately have "solid 2 example_user_ram 0x101000"
    by (simp add: numeral_2_eq_2 example_user_pte example_entries)
  then have "pt_inv example_user_ram 0x100000 example_free"
    using b by (intro pt_inv_solid example_user_tree) (auto simp: example_user_pte example_entries split: if_splits)
  then show ?thesis using user_treeD(2) [OF example_user_tree] by (simp add: user_space_def)
qed

lemma example_forking_free: "free_space example_forking example_free"
proof -
  have "\<forall>x. unat x \<in> example_free \<longrightarrow> example_user_ram x = ram example_mem8 x"
  proof (intro allI impI)
    fix x :: u64 assume x: "unat x \<in> example_free"
    have "store64 m a v x = m x" if "unat a < 0x200000 - 8" for m v and a :: u64
      using that x by (intro store64_other) (auto simp: span_def)
    then show "example_user_ram x = ram example_mem8 x"
      by (simp add: example_user_ram_def put_pte_def example_mem8_def)
  qed
  then show ?thesis unfolding example_forking_def by (intro pmm_mem.set_mem_free example_free_space) blast
qed

section \<open>Properties\<close>

text \<open>C8: \<open>clone_address_space\<close>, of an address space made of small pages.  When it succeeds, the child
  translates every user address as the parent did, and so does the parent; in neither of them may
  user code write to any page, so that the first write faults; the kernel half of the root table is
  copied; and both satisfy the invariant of the page tables, so that the properties of \<open>map\<close>, \<open>unmap\<close>
  and the fault handlers hold of them.  When it fails the parent is untouched and there is no frame left.\<close>

theorem clone_address_space_correct:
  assumes "free_space s F" "pt_inv (ram s) (pml4_phys sp) F" "user_small (ram s) (pml4_phys sp)"
    and "clone_address_space s sp vm = (r, s')"
  shows "\<exists>F'\<subseteq>F. free_space s' F' \<and>
    (\<forall>x. unat x \<notin> F \<union> user_subs (ram s) (pml4_phys sp) \<longrightarrow> ram s' x = ram s x) \<and>
    (case r of
       None \<Rightarrow> alloc_zeroed_frame s' = None \<and> (\<forall>x. unat x \<notin> F \<longrightarrow> ram s' x = ram s x)
     | Some (csp, cvm) \<Rightarrow>
         (\<forall>v. user_addr v \<longrightarrow> translate s' csp v = translate s sp v \<and> translate s' sp v = translate s sp v \<and>
            \<not> user_writable s' csp v \<and> \<not> user_writable s' sp v) \<and>
         (\<forall>i. 256 \<le> i \<and> i < 512 \<longrightarrow> pte (ram s') (pml4_phys csp) i = pte (ram s) (pml4_phys sp) i) \<and>
         pt_inv (ram s') (pml4_phys sp) F' \<and> user_small (ram s') (pml4_phys sp) \<and>
         pt_inv (ram s') (pml4_phys csp) F' \<and> user_small (ram s') (pml4_phys csp))"
proof -
  have u: "user_space (ram s) (pml4_phys sp) F" using assms(2,3) by (simp add: user_space_def)
  obtain F' where F': "user_space (ram s') (pml4_phys sp) F" "F' \<subseteq> F" "free_space s' F'"
    "\<forall>x. unat x \<notin> F \<union> user_subs (ram s) (pml4_phys sp) \<longrightarrow> ram s' x = ram s x"
    "case r of None \<Rightarrow> (\<forall>x. unat x \<notin> F \<longrightarrow> ram s' x = ram s x)
     | Some (csp, cvm) \<Rightarrow> cow_shared s sp s' csp \<and> user_space (ram s') (pml4_phys csp) F' \<and>
         user_foot (ram s') (pml4_phys csp) \<subseteq> F - F' \<and> cvm = clone_vmspace vm"
    using clone_address_space_law [OF assms(1) u assms(4)] by blast
  then show ?thesis
    using clone_address_space_None [of s sp vm s'] assms(4) user_space_frame [OF F'(1,2), of "ram s'"]
    by (intro exI [of _ F']) (auto simp: cow_shared_def user_space_def split: option.splits)
qed

theorem clone_address_space_correct_witness:
  "\<exists>r s'. clone_address_space example_forking example_sp vm_new = (r, s') \<and>
     (case r of None \<Rightarrow> alloc_zeroed_frame s' = None
      | Some (csp, cvm) \<Rightarrow> translate s' csp 0x400000 = Some 0x300000 \<and> translate s' example_sp 0x400000 = Some 0x300000 \<and>
          \<not> user_writable s' csp 0x400000)"
proof -
  obtain r s' where r: "clone_address_space example_forking example_sp vm_new = (r, s')" by (metis surj_pair)
  have "page_entry example_user_ram 0x100000 0x400000 = Some 0x300007"
    by (simp add: page_entry_def pml4_idx_def pdpt_idx_def pd_idx_def pt_idx_def example_user_pte example_entries)
  then have tr: "translate example_forking example_sp 0x400000 = Some 0x300000"
    using translate_page_entry [of example_forking example_sp, OF _ example_user] user_treeD(2) [OF example_user_tree]
    by (simp add: example_forking_def example_sp_def example_entries)
  have "pt_inv (ram example_forking) (pml4_phys example_sp) example_free" "user_small (ram example_forking) (pml4_phys example_sp)"
    using example_user_space by (simp_all add: example_forking_def example_sp_def user_space_def)
  note k = clone_address_space_correct [OF example_forking_free this r]
  have "alloc_zeroed_frame s' = None" if "r = None" using k that by (simp del: split_paired_Ex) blast
  moreover have "translate s' csp 0x400000 = Some 0x300000 \<and> translate s' example_sp 0x400000 = Some 0x300000 \<and>
      \<not> user_writable s' csp 0x400000" if "r = Some (csp, cvm)" for csp cvm
    using k example_user tr unfolding that by (simp only: option.case prod.case) metis
  ultimately show ?thesis using r by (auto split: option.splits)
qed

text \<open>C14: \<open>sys_fork\<close>, by a process whose user pages are all small, returns.  The caller's memory
  translates as before in every case.  Either the call fails with \<open>ENOMEM\<close>, no frame or no kernel stack
  being left, and has used up a process number; or it adds one runnable process at the end of the
  queue, with the next number and the caller as its parent, whose user memory is that of the caller
  with no page writable in either of them.  The scheduler's invariant is kept.\<close>

theorem fork_correct:
  assumes "free_space s F" "unat (- hhdm s) \<notin> F" "rq_inv q" "current q = Some p" "par = procs q ! p"
    and "user_space (ram s) (pml4_phys (p_space par)) F"
  shows "\<exists>ret q' s' F'. sys_fork fcr q s = Some (ret, q', s') \<and> F' \<subseteq> F \<and> free_space s' F' \<and>
    user_space (ram s') (pml4_phys (p_space par)) F' \<and>
    (\<forall>v. user_addr v \<longrightarrow> translate s' (p_space par) v = translate s (p_space par) v) \<and> rq_inv q' \<and>
    (ret = - ENOMEM \<and> q' = q\<lparr>NEXT_PID := NEXT_PID q + 1\<rparr> \<and> out_of_memory s par \<or>
     ret = ucast (NEXT_PID q) \<and> (\<exists>child. procs q' = procs q @ [child] \<and> queue q' = queue q @ [length (procs q)] \<and>
       current q' = current q \<and> p_pid child = NEXT_PID q \<and> p_ppid child = p_pid par \<and>
       p_state child = Runnable \<and> cow_shared s (p_space par) s' (p_space child) \<and>
       user_space (ram s') (pml4_phys (p_space child)) F'))"
  using fork_with_law [OF assms, of "\<lambda>_. 0" fcr] unfolding sys_fork_def keeps_def by (simp only: conj_assoc)

theorem fork_correct_witness:
  "\<exists>ret q' s'. sys_fork 0xFFFFFFFF80001000 example_fork_rq example_forking = Some (ret, q', s') \<and> rq_inv q' \<and>
     (ret = - ENOMEM \<or> ret = 2 \<and> queue q' = [1])"
proof -
  have q: "rq_inv example_fork_rq" by (simp add: rq_inv_def rq_wf_def example_fork_rq_def example_proc_def)
  have t: "user_space (ram example_forking) (pml4_phys (p_space (procs example_fork_rq ! 0))) example_free"
    using example_user_space by (simp add: example_fork_rq_def example_forking_def example_sp_def)
  have n: "unat (- hhdm example_forking) \<notin> example_free" by (simp add: example_forking_def example_mem8_def)
  have c: "current example_fork_rq = Some 0" by (simp add: example_fork_rq_def)
  obtain ret q' s' where r: "sys_fork 0xFFFFFFFF80001000 example_fork_rq example_forking = Some (ret, q', s')" "rq_inv q'"
    "ret = - ENOMEM \<or> ret = ucast (NEXT_PID example_fork_rq) \<and> queue q' = queue example_fork_rq @ [length (procs example_fork_rq)]"
    using fork_correct [OF example_forking_free n q c refl t, of "0xFFFFFFFF80001000"] by blast
  then show ?thesis by (auto simp: example_fork_rq_def)
qed

text \<open>C36: \<open>sys_waitpid\<close> never reaps a child.  In every state the scheduler reaches no queued process is
  a zombie, so a call returns zero at once when asked not to wait, and otherwise goes to sleep again.\<close>

theorem waitpid_never_reaps:
  assumes "reach (\<lambda>s. s = rq_new) sched_step q"
  shows "waitpid_round pid wstatus_ptr options q s =
    (if options AND 1 \<noteq> 0 then (Inl 0, q, s) else (Inr (snd (sleep_current q)), fst (sleep_current q), s))"
  using no_zombie_child [OF sched.reach_inv [OF assms]] by (simp add: waitpid_round_def split: prod.splits)

theorem waitpid_never_reaps_witness:
  "waitpid_round (-1) 0 1 example_boot example_mem8 = (Inl 0, example_boot, example_mem8)"
  using waitpid_never_reaps [OF example_boot_reach, of "-1" 0 1 example_mem8] by simp

end
