(* ===== verification/Ports.thy ===== *)
theory Ports
  imports Prelude "HOL-Library.State_Monad"
begin

text \<open>
  Port input and output (\<open>arch/x86_64/io.rs\<close>).  What is behind the ports is hardware: a \<open>bus\<close> gives, for
  a device state of any type, what each access reads and how it changes that state.  Driver code is a
  program over the state monad of the device; a loop that may spin forever is a partial function.
  \<open>logged\<close> puts a recorder before any bus, so that what a driver sends is stated for all devices.
\<close>

unbundle bit_operations_syntax

record 'd bus =
  b_inb :: "u16 \<Rightarrow> 'd \<Rightarrow> u8 \<times> 'd"
  b_outb :: "u16 \<Rightarrow> u8 \<Rightarrow> 'd \<Rightarrow> 'd"
  b_inw :: "u16 \<Rightarrow> 'd \<Rightarrow> u16 \<times> 'd"
  b_outw :: "u16 \<Rightarrow> u16 \<Rightarrow> 'd \<Rightarrow> 'd"
  b_inl :: "u16 \<Rightarrow> 'd \<Rightarrow> u32 \<times> 'd"
  b_outl :: "u16 \<Rightarrow> u32 \<Rightarrow> 'd \<Rightarrow> 'd"

type_synonym ('d, 'a) io = "('d, 'a) state"

abbreviation return :: "'a \<Rightarrow> ('d, 'a) io" where "return \<equiv> State_Monad.return"

definition outb :: "'d bus \<Rightarrow> u16 \<Rightarrow> u8 \<Rightarrow> ('d, unit) io" where
  "outb B port val = State (\<lambda>d. ((), b_outb B port val d))"

definition inb :: "'d bus \<Rightarrow> u16 \<Rightarrow> ('d, u8) io" where
  "inb B port = State (b_inb B port)"

definition outw :: "'d bus \<Rightarrow> u16 \<Rightarrow> u16 \<Rightarrow> ('d, unit) io" where
  "outw B port val = State (\<lambda>d. ((), b_outw B port val d))"

definition inw :: "'d bus \<Rightarrow> u16 \<Rightarrow> ('d, u16) io" where
  "inw B port = State (b_inw B port)"

definition outl :: "'d bus \<Rightarrow> u16 \<Rightarrow> u32 \<Rightarrow> ('d, unit) io" where
  "outl B port val = State (\<lambda>d. ((), b_outl B port val d))"

definition inl :: "'d bus \<Rightarrow> u16 \<Rightarrow> ('d, u32) io" where
  "inl B port = State (b_inl B port)"

definition io_wait :: "'d bus \<Rightarrow> ('d, unit) io" where
  "io_wait B = outb B 0x80 0x00"

lemma run_io [simp]:
  "run_state (outb B port v8) d = ((), b_outb B port v8 d)" "run_state (inb B port) d = b_inb B port d"
  "run_state (outw B port v16) d = ((), b_outw B port v16 d)" "run_state (inw B port) d = b_inw B port d"
  "run_state (outl B port v32) d = ((), b_outl B port v32 d)" "run_state (inl B port) d = b_inl B port d"
  by (simp_all add: outb_def inb_def outw_def inw_def outl_def inl_def)

text \<open>A loop over a list, and one that collects the values of its body.\<close>

fun io_for :: "'a list \<Rightarrow> ('a \<Rightarrow> ('d, unit) io) \<Rightarrow> ('d, unit) io" where
  "io_for [] f = return ()"
| "io_for (x # xs) f = do { f x; io_for xs f }"

fun io_map :: "('a \<Rightarrow> ('d, 'b) io) \<Rightarrow> 'a list \<Rightarrow> ('d, 'b list) io" where
  "io_map f [] = return []"
| "io_map f (x # xs) = do { y \<leftarrow> f x; ys \<leftarrow> io_map f xs; return (y # ys) }"

section \<open>Recording what is sent and received\<close>

datatype port_op = In8 u16 u8 | Out8 u16 u8 | In16 u16 u16 | Out16 u16 u16 | In32 u16 u32 | Out32 u16 u32

definition logged :: "'d bus \<Rightarrow> ('d \<times> port_op list) bus" where
  "logged B = \<lparr>
     b_inb = (\<lambda>p (d, l). case b_inb B p d of (v, d') \<Rightarrow> (v, (d', l @ [In8 p v]))),
     b_outb = (\<lambda>p v (d, l). (b_outb B p v d, l @ [Out8 p v])),
     b_inw = (\<lambda>p (d, l). case b_inw B p d of (v, d') \<Rightarrow> (v, (d', l @ [In16 p v]))),
     b_outw = (\<lambda>p v (d, l). (b_outw B p v d, l @ [Out16 p v])),
     b_inl = (\<lambda>p (d, l). case b_inl B p d of (v, d') \<Rightarrow> (v, (d', l @ [In32 p v]))),
     b_outl = (\<lambda>p v (d, l). (b_outl B p v d, l @ [Out32 p v]))\<rparr>"

lemma logged_simps [simp]:
  "b_inb (logged B) p (d, l) = (case b_inb B p d of (v, d') \<Rightarrow> (v, (d', l @ [In8 p v])))"
  "b_outb (logged B) p v8 (d, l) = (b_outb B p v8 d, l @ [Out8 p v8])"
  "b_inw (logged B) p (d, l) = (case b_inw B p d of (v, d') \<Rightarrow> (v, (d', l @ [In16 p v])))"
  "b_outw (logged B) p v16 (d, l) = (b_outw B p v16 d, l @ [Out16 p v16])"
  "b_inl (logged B) p (d, l) = (case b_inl B p d of (v, d') \<Rightarrow> (v, (d', l @ [In32 p v])))"
  "b_outl (logged B) p v32 (d, l) = (b_outl B p v32 d, l @ [Out32 p v32])"
  by (simp_all add: logged_def)

end
