(* ===== verification/Keyboard.thy ===== *)
theory Keyboard
  imports Sched Ports
begin

text \<open>
  The keyboard driver of \<open>drivers/keyboard.rs\<close>: the set-up of the i8042 controller, the translation of
  scan codes with the modifier keys, the ring buffer the characters wait in, and the blocking read of
  a character, which the shell's \<open>read_char_blocking\<close> repeats (\<open>shell/readline.rs\<close>).
\<close>

unbundle bit_operations_syntax

section \<open>The controller\<close>

definition KB_DATA :: u16 where "KB_DATA = 0x60"
definition KB_STATUS :: u16 where "KB_STATUS = 0x64"

partial_function (option) i8042_wait_write :: "'d bus \<Rightarrow> 'd \<Rightarrow> 'd option" where
  "i8042_wait_write B d =
     (case b_inb B KB_STATUS d of (v, d') \<Rightarrow> if v AND 0x02 \<noteq> 0 then i8042_wait_write B d' else Some d')"

partial_function (option) i8042_wait_read :: "'d bus \<Rightarrow> 'd \<Rightarrow> 'd option" where
  "i8042_wait_read B d =
     (case b_inb B KB_STATUS d of (v, d') \<Rightarrow> if v AND 0x01 = 0 then i8042_wait_read B d' else Some d')"

partial_function (option) i8042_flush :: "'d bus \<Rightarrow> 'd \<Rightarrow> 'd option" where
  "i8042_flush B d =
     (case b_inb B KB_STATUS d of
        (v, d') \<Rightarrow> if v AND 0x01 \<noteq> 0 then i8042_flush B (snd (b_inb B KB_DATA d')) else Some d')"

definition kb_init :: "'d bus \<Rightarrow> 'd \<Rightarrow> 'd option" where
  "kb_init B d = do {
     d \<leftarrow> i8042_wait_write B d;
     d \<leftarrow> i8042_flush B (b_outb B KB_STATUS 0xAD d);
     d \<leftarrow> i8042_wait_write B d;
     d \<leftarrow> i8042_wait_read B (b_outb B KB_STATUS 0x20 d);
     let (ccb, d) = b_inb B KB_DATA d;
     let new_ccb = (ccb OR 0x01) AND NOT 0x10;
     d \<leftarrow> i8042_wait_write B d;
     d \<leftarrow> i8042_wait_write B (b_outb B KB_STATUS 0x60 d);
     d \<leftarrow> i8042_wait_write B (b_outb B KB_DATA new_ccb d);
     i8042_flush B (b_outb B KB_STATUS 0xAE d)
   }"

section \<open>The ring buffer\<close>

definition KB_BUF_SIZE :: nat where "KB_BUF_SIZE = 256"

record kb_buffer =
  kb_buf :: "u8 list"
  kb_head :: nat
  kb_tail :: nat

definition kb_new :: kb_buffer where
  "kb_new = \<lparr>kb_buf = replicate KB_BUF_SIZE 0, kb_head = 0, kb_tail = 0\<rparr>"

definition kb_push :: "kb_buffer \<Rightarrow> u8 \<Rightarrow> kb_buffer" where
  "kb_push b c =
     (let nxt = (kb_head b + 1) mod KB_BUF_SIZE
      in if nxt \<noteq> kb_tail b then b\<lparr>kb_buf := (kb_buf b)[kb_head b := c], kb_head := nxt\<rparr> else b)"

definition kb_pop :: "kb_buffer \<Rightarrow> u8 option \<times> kb_buffer" where
  "kb_pop b =
     (if kb_head b = kb_tail b then (None, b)
      else (Some (kb_buf b ! kb_tail b), b\<lparr>kb_tail := (kb_tail b + 1) mod KB_BUF_SIZE\<rparr>))"

definition kb_is_empty :: "kb_buffer \<Rightarrow> bool" where
  "kb_is_empty b \<longleftrightarrow> kb_head b = kb_tail b"

section \<open>Scan codes\<close>

definition SCANCODE_MAP :: "u8 list" where
  "SCANCODE_MAP =
     [0, 27, 49, 50, 51, 52, 53, 54, 55, 56, 57, 48, 45, 61, 8, 9, 113, 119, 101, 114, 116, 121, 117, 105, 111, 112, 91, 93, 10,
      0, 97, 115, 100, 102, 103, 104, 106, 107, 108, 59, 39, 96, 0, 92, 122, 120, 99, 118, 98, 110, 109, 44, 46, 47, 0, 42, 0, 32] @
     replicate 64 0"

record modifiers =
  m_shift :: bool
  m_ctrl :: bool
  m_alt :: bool
  m_caps :: bool

definition SC_LSHIFT :: u8 where "SC_LSHIFT = 0x2A"
definition SC_RSHIFT :: u8 where "SC_RSHIFT = 0x36"
definition SC_LCTRL :: u8 where "SC_LCTRL = 0x1D"
definition SC_LALT :: u8 where "SC_LALT = 0x38"
definition SC_CAPS :: u8 where "SC_CAPS = 0x3A"
definition SC_BREAK :: u8 where "SC_BREAK = 0x80"

definition is_ascii_lower :: "u8 \<Rightarrow> bool" where
  "is_ascii_lower c \<longleftrightarrow> 97 \<le> c \<and> c \<le> 122"

definition is_ascii_alphabetic :: "u8 \<Rightarrow> bool" where
  "is_ascii_alphabetic c \<longleftrightarrow> (65 \<le> c \<and> c \<le> 90) \<or> is_ascii_lower c"

definition to_ascii_uppercase :: "u8 \<Rightarrow> u8" where
  "to_ascii_uppercase c = (if is_ascii_lower c then c - 32 else c)"

definition shifted_char :: "u8 \<Rightarrow> u8" where
  "shifted_char c =
     (if c = 49 then 33
      else if c = 50 then 64
      else if c = 51 then 35
      else if c = 52 then 36
      else if c = 53 then 37
      else if c = 54 then 94
      else if c = 55 then 38
      else if c = 56 then 42
      else if c = 57 then 40
      else if c = 48 then 41
      else if c = 45 then 95
      else if c = 61 then 43
      else if c = 91 then 123
      else if c = 93 then 125
      else if c = 92 then 124
      else if c = 59 then 58
      else if c = 39 then 34
      else if c = 96 then 126
      else if c = 44 then 60
      else if c = 46 then 62
      else if c = 47 then 63
      else c)"

text \<open>The effect of shift, caps lock and control on a character.\<close>

definition with_shift :: "modifiers \<Rightarrow> u8 \<Rightarrow> u8" where
  "with_shift mods c =
     (if is_ascii_alphabetic c
      then (let upper = (m_shift mods \<noteq> m_caps mods) in if upper then to_ascii_uppercase c else c)
      else if m_shift mods then shifted_char c else c)"

definition with_ctrl :: "modifiers \<Rightarrow> u8 \<Rightarrow> u8" where
  "with_ctrl mods c = (if m_ctrl mods \<and> is_ascii_alphabetic c then to_ascii_uppercase c - 64 else c)"

text \<open>The state the driver changes: the buffer, the modifier keys and, through the wake-up, the run queue.\<close>

record console =
  KB_BUF :: kb_buffer
  MODS :: modifiers
  RUN_QUEUE :: run_queue

definition push_char :: "console \<Rightarrow> u8 \<Rightarrow> console" where
  "push_char k c =
     k\<lparr>KB_BUF := kb_push (KB_BUF k) c, RUN_QUEUE := wake_up_all_sleeping (RUN_QUEUE k)\<rparr>"

definition process_scancode :: "console \<Rightarrow> u8 \<Rightarrow> console" where
  "process_scancode k sc =
     (let released = (sc AND SC_BREAK \<noteq> 0);
          sc_clean = sc AND NOT SC_BREAK;
          mods = MODS k
      in if sc_clean = SC_LSHIFT \<or> sc_clean = SC_RSHIFT then k\<lparr>MODS := mods\<lparr>m_shift := \<not> released\<rparr>\<rparr>
         else if sc_clean = SC_LCTRL then k\<lparr>MODS := mods\<lparr>m_ctrl := \<not> released\<rparr>\<rparr>
         else if sc_clean = SC_LALT then k\<lparr>MODS := mods\<lparr>m_alt := \<not> released\<rparr>\<rparr>
         else if sc_clean = SC_CAPS \<and> \<not> released then k\<lparr>MODS := mods\<lparr>m_caps := \<not> m_caps mods\<rparr>\<rparr>
         else if released then k
         else if unat sc_clean < length SCANCODE_MAP then
           (let c = SCANCODE_MAP ! unat sc_clean
            in if c = 0 then k
               else let c1 = with_shift mods c; c2 = with_ctrl mods c1
                    in k\<lparr>KB_BUF := kb_push (KB_BUF k) c2,
                         RUN_QUEUE := wake_up_all_sleeping (RUN_QUEUE k)\<rparr>)
         else k)"

definition irq_keyboard :: "'d bus \<Rightarrow> console \<times> 'd \<Rightarrow> console \<times> 'd" where
  "irq_keyboard B kd =
     (case b_inb B KB_DATA (snd kd) of (sc, d) \<Rightarrow> (process_scancode (fst kd) sc, d))"

definition read_char :: "console \<Rightarrow> u8 option \<times> console" where
  "read_char k = (case kb_pop (KB_BUF k) of (r, b) \<Rightarrow> (r, k\<lparr>KB_BUF := b\<rparr>))"

text \<open>
  One round of the loop of \<open>wait_key\<close>, and of the same loop in \<open>read_char_blocking\<close>: the character it
  returns with, or the switch away after which the loop starts again.  Interrupts are off from the
  \<open>cli\<close> on, so that no other step of the system comes in between.
\<close>

definition wait_key_round :: "cpu \<Rightarrow> console \<Rightarrow> (u8 + cpu_action) \<times> cpu \<times> console" where
  "wait_key_round c k =
     (case cli c of (r, c1) \<Rightarrow>
        (case read_char k of
           (Some ch, k1) \<Rightarrow> (Inl ch, restore_if r c1, k1)
         | (None, k1) \<Rightarrow>
             (case sleep_current (RUN_QUEUE k1) of (q, act) \<Rightarrow> (Inr act, c1, k1\<lparr>RUN_QUEUE := q\<rparr>))))"

section \<open>A bounded queue\<close>

text \<open>What the users of the buffer rely on: first in, first out, and what does not fit is dropped.\<close>

fun drain :: "('q \<Rightarrow> 'a option \<times> 'q) \<Rightarrow> nat \<Rightarrow> 'q \<Rightarrow> 'a list \<times> 'q" where
  "drain pop 0 q = ([], q)"
| "drain pop (Suc n) q =
     (case pop q of (None, q') \<Rightarrow> ([], q')
      | (Some x, q') \<Rightarrow> (case drain pop n q' of (xs, q'') \<Rightarrow> (x # xs, q'')))"

locale bounded_queue =
  fixes push :: "'q \<Rightarrow> 'a \<Rightarrow> 'q" and pop :: "'q \<Rightarrow> 'a option \<times> 'q"
    and wf :: "'q \<Rightarrow> bool" and items :: "'q \<Rightarrow> 'a list" and cap :: nat
  assumes wf_push: "wf q \<Longrightarrow> wf (push q x)"
    and items_push: "wf q \<Longrightarrow> items (push q x) = take cap (items q @ [x])"
    and items_bound: "wf q \<Longrightarrow> length (items q) \<le> cap"
    and pop_Nil: "wf q \<Longrightarrow> items q = [] \<Longrightarrow> pop q = (None, q)"
    and pop_Cons: "wf q \<Longrightarrow> items q = x # xs \<Longrightarrow> \<exists>q'. pop q = (Some x, q') \<and> wf q' \<and> items q' = xs"
begin

lemma push_all:
  "wf q \<Longrightarrow> wf (fold (\<lambda>x q. push q x) xs q) \<and> items (fold (\<lambda>x q. push q x) xs q) = take cap (items q @ xs)"
proof (induction xs arbitrary: q)
  case Nil
  then show ?case using items_bound by simp
next
  case (Cons x xs)
  have "take cap (take cap (items q @ [x]) @ xs) = take cap ((items q @ [x]) @ xs)"
    by (cases "length (items q) < cap") simp_all
  then show ?case using Cons.IH [OF wf_push [OF Cons.prems]] Cons.prems by (simp add: items_push)
qed

lemma drain_all: "wf q \<Longrightarrow> \<exists>q'. drain pop (length (items q)) q = (items q, q') \<and> wf q' \<and> items q' = []"
proof (induction "items q" arbitrary: q)
  case Nil
  then show ?case using Nil by (metis drain.simps(1) list.size(3))
next
  case (Cons x xs)
  obtain q' where q': "pop q = (Some x, q')" "wf q'" "items q' = xs"
    using pop_Cons [OF Cons.prems Cons.hyps(2) [symmetric]] by blast
  then obtain q'' where "drain pop (length xs) q' = (xs, q'')" "wf q''" "items q'' = []"
    using Cons.hyps(1) [OF q'(3) [symmetric] q'(2)] by auto
  then show ?case using q'(1) Cons.hyps(2) [symmetric] by simp
qed

lemma fifo:
  assumes "wf q"
  shows "\<exists>q'. drain pop (length (take cap (items q @ xs))) (fold (\<lambda>x q. push q x) xs q)
    = (take cap (items q @ xs), q') \<and> items q' = []"
  using drain_all [of "fold (\<lambda>x q. push q x) xs q"] push_all [OF assms] by auto

end

definition kb_wf :: "kb_buffer \<Rightarrow> bool" where
  "kb_wf b \<longleftrightarrow> length (kb_buf b) = KB_BUF_SIZE \<and> kb_head b < KB_BUF_SIZE \<and> kb_tail b < KB_BUF_SIZE"

definition kb_count :: "kb_buffer \<Rightarrow> nat" where
  "kb_count b = (kb_head b + KB_BUF_SIZE - kb_tail b) mod KB_BUF_SIZE"

definition kb_items :: "kb_buffer \<Rightarrow> u8 list" where
  "kb_items b = map (\<lambda>i. kb_buf b ! ((kb_tail b + i) mod KB_BUF_SIZE)) [0..<kb_count b]"

lemma kb_count_wf:
  "kb_wf b \<Longrightarrow> kb_count b = (if kb_tail b \<le> kb_head b then kb_head b - kb_tail b else kb_head b + 256 - kb_tail b)"
  by (auto simp: kb_count_def kb_wf_def KB_BUF_SIZE_def mod_if)

lemma slot_add: "n < 256 \<Longrightarrow> i < 256 \<Longrightarrow> (n + i) mod KB_BUF_SIZE = (if n + i < 256 then n + i else n + i - 256)"
  by (simp add: KB_BUF_SIZE_def mod_if)

lemma kb_wf_iff: "kb_wf b \<longleftrightarrow> length (kb_buf b) = 256 \<and> kb_head b < 256 \<and> kb_tail b < 256"
  by (simp add: kb_wf_def KB_BUF_SIZE_def)

lemma kb_count_less: "kb_count b < 256"
  by (simp add: kb_count_def KB_BUF_SIZE_def)

lemma kb_items_Nil: "kb_wf b \<Longrightarrow> kb_items b = [] \<longleftrightarrow> kb_head b = kb_tail b"
  by (auto simp: kb_items_def kb_count_wf kb_wf_iff)

lemma kb_push_next:
  assumes "kb_wf b" "(kb_head b + 1) mod KB_BUF_SIZE \<noteq> kb_tail b"
  shows "kb_count (kb_push b c) = Suc (kb_count b)" "(kb_tail b + kb_count b) mod KB_BUF_SIZE = kb_head b"
    "kb_count b < 255"
proof -
  have b: "kb_head b < 256" "kb_tail b < 256" using assms(1) by (simp_all add: kb_wf_iff)
  have n: "Suc (kb_head b) mod KB_BUF_SIZE = (if kb_head b = 255 then 0 else Suc (kb_head b))"
    using b slot_add [of "kb_head b" 1] by auto
  have w: "kb_wf (kb_push b c)" using assms(1) by (simp add: kb_wf_def kb_push_def KB_BUF_SIZE_def Let_def)
  show "kb_count (kb_push b c) = Suc (kb_count b)"
    using assms(2) b unfolding kb_count_wf [OF w] kb_count_wf [OF assms(1)]
    by (auto simp: kb_push_def n split: if_splits)
  show "kb_count b < 255"
    using assms(2) b n unfolding kb_count_wf [OF assms(1)] by (auto split: if_splits)
  then show "(kb_tail b + kb_count b) mod KB_BUF_SIZE = kb_head b"
    using b by (subst slot_add) (auto simp: kb_count_wf [OF assms(1)])
qed

lemma kb_slot:
  assumes "kb_wf b" "i < kb_count b"
  shows "kb_head b \<noteq> (kb_tail b + i) mod KB_BUF_SIZE"
proof -
  have b: "kb_head b < 256" "kb_tail b < 256" "i < 256"
    using assms kb_count_less [of b] by (simp_all add: kb_wf_iff)
  then show ?thesis using assms(2) by (subst slot_add) (auto simp: kb_count_wf [OF assms(1)] split: if_splits)
qed

lemma kb_items_push: "kb_wf b \<Longrightarrow> kb_items (kb_push b c) = take 255 (kb_items b @ [c])"
proof -
  assume wf: "kb_wf b"
  show ?thesis
  proof (cases "(kb_head b + 1) mod KB_BUF_SIZE = kb_tail b")
    case True
    then have "kb_count b = 255" using wf slot_add [of "kb_head b" 1]
      by (auto simp: kb_count_wf kb_wf_iff split: if_splits)
    then have "length (kb_items b) = 255" by (simp add: kb_items_def)
    then show ?thesis using True by (simp add: kb_push_def)
  next
    case False
    note p = kb_push_next [OF wf False]
    have h: "kb_head b < length (kb_buf b)" using wf by (simp add: kb_wf_def)
    have f: "kb_buf (kb_push b c) = (kb_buf b)[kb_head b := c]" "kb_tail (kb_push b c) = kb_tail b"
      using False by (simp_all add: kb_push_def Let_def)
    have "kb_items (kb_push b c) = map (\<lambda>i. kb_buf b ! ((kb_tail b + i) mod KB_BUF_SIZE)) [0..<kb_count b] @ [c]"
      unfolding kb_items_def p(1) f using h p(2) kb_slot [OF wf] by simp
    then have "kb_items (kb_push b c) = kb_items b @ [c]" by (simp add: kb_items_def)
    then show ?thesis using p(3) by (simp add: kb_items_def)
  qed
qed

lemma kb_wf_push: "kb_wf b \<Longrightarrow> kb_wf (kb_push b c)"
  by (simp add: kb_wf_def kb_push_def KB_BUF_SIZE_def Let_def)

lemma kb_pop_Cons:
  assumes "kb_wf b" "kb_items b = x # xs"
  shows "\<exists>b'. kb_pop b = (Some x, b') \<and> kb_wf b' \<and> kb_items b' = xs"
proof -
  let ?b = "b\<lparr>kb_tail := (kb_tail b + 1) mod KB_BUF_SIZE\<rparr>"
  have ne: "kb_head b \<noteq> kb_tail b" using assms kb_items_Nil [OF assms(1)] by auto
  have c: "kb_count b = Suc (kb_count ?b)"
  proof -
    have b: "kb_head b < 256" "kb_tail b < 256" using assms(1) by (simp_all add: kb_wf_iff)
    have n: "Suc (kb_tail b) mod KB_BUF_SIZE = (if kb_tail b = 255 then 0 else Suc (kb_tail b))"
      using b slot_add [of "kb_tail b" 1] by auto
    have "kb_wf ?b" using assms(1) by (simp add: kb_wf_def KB_BUF_SIZE_def)
    then show ?thesis using b ne unfolding kb_count_wf [OF \<open>kb_wf ?b\<close>] kb_count_wf [OF assms(1)]
      by (auto simp: n)
  qed
  have "kb_items b = kb_buf b ! kb_tail b # kb_items ?b"
    using assms(1) unfolding kb_items_def c upt_conv_Cons [OF zero_less_Suc] map_Suc_upt [symmetric]
    by (simp add: o_def kb_wf_def mod_simps)
  then show ?thesis using assms ne by (auto simp: kb_pop_def kb_wf_def KB_BUF_SIZE_def)
qed

interpretation kb: bounded_queue kb_push kb_pop kb_wf kb_items 255
proof
  show "length (kb_items q) \<le> 255" if "kb_wf q" for q
    using kb_count_less [of q] by (simp add: kb_items_def)
  show "kb_pop q = (None, q)" if "kb_wf q" "kb_items q = []" for q
    using that by (simp add: kb_pop_def kb_items_Nil)
qed (simp_all add: kb_wf_push kb_items_push kb_pop_Cons)

section \<open>Scan codes\<close>

lemma scancode_ascii: "c \<in> set SCANCODE_MAP \<Longrightarrow> c < 128"
  by (auto simp: SCANCODE_MAP_def)

lemma shifted_ascii: "c < 128 \<Longrightarrow> c \<noteq> 0 \<Longrightarrow> shifted_char c < 128 \<and> shifted_char c \<noteq> 0"
  by (simp add: shifted_char_def)

lemma upper_ascii:
  assumes "is_ascii_alphabetic c"
  shows "0 < to_ascii_uppercase c - 64" "to_ascii_uppercase c - 64 < 128"
    "to_ascii_uppercase c < 128" "to_ascii_uppercase c \<noteq> 0"
proof -
  have "65 \<le> to_ascii_uppercase c \<and> to_ascii_uppercase c \<le> 90"
    using assms by (simp add: is_ascii_alphabetic_def to_ascii_uppercase_def is_ascii_lower_def) unat_arith
  then show "0 < to_ascii_uppercase c - 64" "to_ascii_uppercase c - 64 < 128"
    "to_ascii_uppercase c < 128" "to_ascii_uppercase c \<noteq> 0"
    by (auto simp: word_le_nat_alt word_less_nat_alt unat_sub_if')
qed

lemma with_shift_ascii: "c < 128 \<Longrightarrow> c \<noteq> 0 \<Longrightarrow> with_shift m c < 128 \<and> with_shift m c \<noteq> 0"
  using shifted_ascii [of c] upper_ascii [of c] by (simp add: with_shift_def)

lemma with_ctrl_ascii: "c < 128 \<Longrightarrow> c \<noteq> 0 \<Longrightarrow> 0 < with_ctrl m c \<and> with_ctrl m c < 128"
  using upper_ascii [of c] by (auto simp: with_ctrl_def word_neq_0_conv)

text \<open>The character a scan code puts into the buffer, if any.\<close>

lemma process_scancode_items:
  assumes "kb_wf (KB_BUF k)"
  shows "kb_wf (KB_BUF (process_scancode k sc)) \<and>
    (kb_items (KB_BUF (process_scancode k sc)) = kb_items (KB_BUF k) \<and>
       RUN_QUEUE (process_scancode k sc) = RUN_QUEUE k \<or>
     (\<exists>c. 0 < c \<and> c < 128 \<and> kb_items (KB_BUF (process_scancode k sc)) = take 255 (kb_items (KB_BUF k) @ [c]) \<and>
       RUN_QUEUE (process_scancode k sc) = wake_up_all_sleeping (RUN_QUEUE k)))"
proof -
  let ?sc = "sc AND NOT SC_BREAK" and ?m = "MODS k"
  let ?c = "SCANCODE_MAP ! unat ?sc"
  let ?c2 = "with_ctrl ?m (with_shift ?m ?c)"
  have c2: "0 < ?c2 \<and> ?c2 < 128" if "unat ?sc < length SCANCODE_MAP" "?c \<noteq> 0"
    using that scancode_ascii [OF nth_mem [OF that(1)]] by (simp add: with_shift_ascii with_ctrl_ascii)
  have push: "process_scancode k sc = k\<lparr>KB_BUF := kb_push (KB_BUF k) ?c2,
      RUN_QUEUE := wake_up_all_sleeping (RUN_QUEUE k)\<rparr> \<and> unat ?sc < length SCANCODE_MAP \<and> ?c \<noteq> 0 \<or>
      KB_BUF (process_scancode k sc) = KB_BUF k \<and> RUN_QUEUE (process_scancode k sc) = RUN_QUEUE k"
    unfolding process_scancode_def Let_def by (simp split: if_split)
  then show ?thesis
  proof
    assume "process_scancode k sc = k\<lparr>KB_BUF := kb_push (KB_BUF k) ?c2,
      RUN_QUEUE := wake_up_all_sleeping (RUN_QUEUE k)\<rparr> \<and> unat ?sc < length SCANCODE_MAP \<and> ?c \<noteq> 0"
    then obtain c where "process_scancode k sc = k\<lparr>KB_BUF := kb_push (KB_BUF k) c,
      RUN_QUEUE := wake_up_all_sleeping (RUN_QUEUE k)\<rparr>" "0 < c" "c < 128" using c2 by blast
    then show ?thesis using kb_wf_push [OF assms] kb_items_push [OF assms] by auto
  qed (use assms in simp)
qed

section \<open>No lost wake-up\<close>

text \<open>
  The system of the keyboard and its readers: key interrupts, rounds of \<open>wait_key\<close> by the current
  process, characters from the serial line, and every scheduler operation but a sleep for another reason.
\<close>

inductive console_step :: "console \<Rightarrow> console \<Rightarrow> bool" where
  c_irq: "console_step k (process_scancode k sc)"
| c_serial: "console_step k (push_char k ch)"
| c_wait: "wait_key_round c k = (r, c', k') \<Longrightarrow> console_step k k'"
| c_spawn: "p_state p = Runnable \<Longrightarrow> arc_new (RUN_QUEUE k) p = (i, q) \<Longrightarrow> console_step k (k\<lparr>RUN_QUEUE := spawn q i\<rparr>)"
| c_schedule: "console_step k (k\<lparr>RUN_QUEUE := fst (schedule (RUN_QUEUE k))\<rparr>)"
| c_tick: "console_step k (k\<lparr>RUN_QUEUE := fst (tick (RUN_QUEUE k))\<rparr>)"
| c_exit: "console_step k (k\<lparr>RUN_QUEUE := fst (sys_exit (RUN_QUEUE k) code)\<rparr>)"

definition awake :: "run_queue \<Rightarrow> bool" where
  "awake s \<longleftrightarrow> (\<forall>p\<in>members s. st s p \<noteq> Sleeping)"

definition console_inv :: "console \<Rightarrow> bool" where
  "console_inv k \<longleftrightarrow> kb_wf (KB_BUF k) \<and> rq_inv (RUN_QUEUE k) \<and> (kb_items (KB_BUF k) \<noteq> [] \<longrightarrow> awake (RUN_QUEUE k))"

definition console_start :: "console \<Rightarrow> bool" where
  "console_start k \<longleftrightarrow> KB_BUF k = kb_new \<and> RUN_QUEUE k = rq_new"

lemma schedule_awake:
  assumes "rq_wf s" "awake s"
  shows "awake (fst (schedule s))"
proof -
  have st1: "st (requeued s) q \<noteq> Sleeping" if "q \<in> members s" for q
    using assms that
    by (auto simp: awake_def requeued_def requeue_old_def Let_def rq_wf_def nth_list_update split: option.splits)
  have st2: "st (fst (schedule s)) q \<noteq> Sleeping" if "st (requeued s) q \<noteq> Sleeping" for q
  proof (cases "pick_next (requeued s)")
    case (Pair o' t)
    show ?thesis
    proof (cases o')
      case None
      then have "t = requeued s" using Pair by (simp add: pick_next_None)
      then show ?thesis using None Pair that by (simp add: fst_schedule)
    next
      case (Some p)
      then have "procs t = procs (requeued s)" using Pair pick_next_Some [of "requeued s" p t] by auto
      then show ?thesis using Some Pair that
        by (cases "p < length (procs t)")
          (auto simp: fst_schedule dispatched_def set_pstate_def nth_list_update list_update_beyond)
    qed
  qed
  show ?thesis using st1 st2 schedule_law(2) [OF assms(1)] by (auto simp: awake_def)
qed

lemma wake_up_all_awake: "rq_wf s \<Longrightarrow> awake (wake_up_all_sleeping s)"
  by (auto simp: awake_def members_def wake_up_all_same wake_up_all_procs)

lemma awake_set_current:
  "awake s \<Longrightarrow> rq_wf s \<Longrightarrow> current s = Some c \<Longrightarrow> p_state p \<noteq> Sleeping \<Longrightarrow> awake (s\<lparr>procs := (procs s)[c := p]\<rparr>)"
  by (auto simp: awake_def members_def rq_wf_def nth_list_update)

lemma tick_awake:
  assumes "rq_inv s" "awake s"
  shows "awake (fst (tick s))"
proof (cases "current s")
  case None
  then show ?thesis using assms by (simp add: tick_def)
next
  case (Some c)
  have st: "st s c = Running" using assms(1) Some by (simp add: rq_inv_def)
  have "rq_wf (s\<lparr>procs := (procs s)[c := p]\<rparr>) \<and> awake (s\<lparr>procs := (procs s)[c := p]\<rparr>)"
    if "p_state p = Running" for p
    using assms Some that by (simp add: rq_wf_current awake_set_current)
  then show ?thesis using Some st by (simp add: tick_def Let_def schedule_awake)
qed

lemma exit_awake: "rq_inv s \<Longrightarrow> awake s \<Longrightarrow> awake (fst (sys_exit s code))"
  unfolding sys_exit_def current_process_def
  by (rule schedule_awake) (auto simp: rq_wf_current awake_set_current split: option.splits)

lemma spawn_awake:
  "rq_wf s \<Longrightarrow> awake s \<Longrightarrow> p_state p = Runnable \<Longrightarrow> awake (spawn (s\<lparr>procs := procs s @ [p]\<rparr>) (length (procs s)))"
  by (fastforce simp: awake_def members_def spawn_def nth_append rq_wf_def)

lemma wait_key_round_inv:
  assumes "console_inv k" "wait_key_round c k = (r, c', k')"
  shows "console_inv k'"
proof (cases "kb_items (KB_BUF k)")
  case Nil
  then have "kb_pop (KB_BUF k) = (None, KB_BUF k)" using assms(1) kb.pop_Nil by (simp add: console_inv_def)
  then have "k' = k\<lparr>RUN_QUEUE := fst (sleep_current (RUN_QUEUE k))\<rparr>"
    using assms(2) by (auto simp: wait_key_round_def read_char_def split: prod.splits)
  then show ?thesis using assms(1) Nil by (simp add: console_inv_def sleep_current_inv)
next
  case (Cons x xs)
  then obtain b where "kb_pop (KB_BUF k) = (Some x, b)" "kb_wf b"
    using assms(1) kb.pop_Cons by (metis console_inv_def)
  then show ?thesis using assms Cons
    by (auto simp: wait_key_round_def read_char_def console_inv_def split: prod.splits)
qed

interpretation console: transition_invariant console_start console_step console_inv
proof
  show "console_inv k" if "console_start k" for k
    using that sched.start_inv
    by (simp add: console_start_def console_inv_def kb_new_def kb_wf_def KB_BUF_SIZE_def kb_items_def kb_count_def)
  show "console_inv t" if s: "console_step k t" and i: "console_inv k" for k t
    using s
  proof cases
    case (c_irq sc)
    then show ?thesis using i process_scancode_items [of k sc]
      by (auto simp: console_inv_def wake_up_all_sleeping_inv wake_up_all_awake)
  next
    case (c_wait c r c')
    then show ?thesis using i wait_key_round_inv by blast
  qed (use i in \<open>auto simp: console_inv_def push_char_def kb_wf_push wake_up_all_sleeping_inv wake_up_all_awake
        schedule_law(1) schedule_awake tick_inv tick_awake sys_exit_inv exit_awake arc_new_def spawn_inv spawn_awake\<close>)
qed

section \<open>An example\<close>

text \<open>A console whose only process waits for a key and goes to sleep; then a key is pressed.\<close>

definition example_console :: console where
  "example_console = \<lparr>KB_BUF = kb_new, MODS = \<lparr>m_shift = False, m_ctrl = False, m_alt = False, m_caps = False\<rparr>,
     RUN_QUEUE = rq_new\<rparr>"

definition example_waiting :: console where
  "example_waiting = example_console\<lparr>RUN_QUEUE := example_boot\<rparr>"

definition example_asleep :: console where
  "example_asleep = snd (snd (wait_key_round \<lparr>rflags = 0x202\<rparr> example_waiting))"

definition example_typed :: console where
  "example_typed = process_scancode example_asleep 0x1E"

lemma example_asleep_reach: "reach console_start console_step example_asleep"
proof -
  let ?p = "example_proc 1 5 10 Runnable"
  let ?q = "spawn (snd (arc_new rq_new ?p)) 0"
  have "reach console_start console_step example_console"
    by (rule reach_start) (simp add: console_start_def example_console_def)
  moreover have "console_step example_console (example_console\<lparr>RUN_QUEUE := ?q\<rparr>)"
    by (rule c_spawn [of ?p]) (simp_all add: example_proc_def arc_new_def example_console_def rq_new_def)
  ultimately have "reach console_start console_step (example_console\<lparr>RUN_QUEUE := ?q\<rparr>)" by (rule reach_step)
  moreover have "console_step (example_console\<lparr>RUN_QUEUE := ?q\<rparr>) example_waiting"
    using c_schedule [of "example_console\<lparr>RUN_QUEUE := ?q\<rparr>"]
    by (simp add: example_waiting_def example_boot_def)
  ultimately have w: "reach console_start console_step example_waiting" by (rule reach_step)
  show ?thesis unfolding example_asleep_def by (rule reach_step [OF w]) (metis c_wait prod.collapse)
qed

section \<open>Properties\<close>

text \<open>C34: The keyboard buffer is a first-in first-out queue of 255 characters: whatever it holds and
  whatever is typed next, reading until it is empty yields the held characters, then the typed ones in
  order, and only what exceeds 255 characters is lost.\<close>

theorem kb_fifo:
  assumes "kb_wf b"
  shows "\<exists>b'. drain kb_pop (length (take 255 (kb_items b @ cs))) (fold (\<lambda>c b. kb_push b c) cs b) =
    (take 255 (kb_items b @ cs), b') \<and> kb_items b' = []"
  using kb.fifo [OF assms] by simp

theorem kb_fifo_witness:
  "kb_wf kb_new \<and> fst (drain kb_pop 2 (kb_push (kb_push kb_new 104) 105)) = [104, 105]"
proof -
  have w: "kb_wf kb_new" by (simp add: kb_wf_def kb_new_def KB_BUF_SIZE_def)
  have "kb_items kb_new = []" by (simp add: kb_items_def kb_count_def kb_new_def KB_BUF_SIZE_def)
  then show ?thesis using kb_fifo [OF w, of "[104, 105]"] w by (auto simp: numeral_eq_Suc)
qed



end
