(* ===== verification/Irq.thy ===== *)
theory Irq
  imports Keyboard
begin

text \<open>
  The interrupt controllers (\<open>arch/x86_64/pic.rs\<close>), the timer (\<open>arch/x86_64/timer.rs\<close>) and the serial
  line (\<open>drivers/serial.rs\<close>), as programs over the port bus.
\<close>

unbundle bit_operations_syntax

section \<open>The interrupt controllers\<close>

definition PIC1_CMD :: u16 where "PIC1_CMD = 0x20"
definition PIC1_DATA :: u16 where "PIC1_DATA = 0x21"
definition PIC2_CMD :: u16 where "PIC2_CMD = 0xA0"
definition PIC2_DATA :: u16 where "PIC2_DATA = 0xA1"

definition ICW1_ICW4 :: u8 where "ICW1_ICW4 = 0x01"
definition ICW1_INIT :: u8 where "ICW1_INIT = 0x10"
definition ICW4_8086 :: u8 where "ICW4_8086 = 0x01"
definition PIC_EOI :: u8 where "PIC_EOI = 0x20"
definition PIC_READ_ISR :: u8 where "PIC_READ_ISR = 0x0B"

definition IRQ_BASE_MASTER :: u8 where "IRQ_BASE_MASTER = 32"
definition IRQ_BASE_SLAVE :: u8 where "IRQ_BASE_SLAVE = 40"

definition pic_init :: "'d bus \<Rightarrow> ('d, unit) io" where
  "pic_init B = do {
     mask1 \<leftarrow> inb B PIC1_DATA;
     mask2 \<leftarrow> inb B PIC2_DATA;
     outb B PIC1_CMD (ICW1_INIT OR ICW1_ICW4);
     io_wait B;
     outb B PIC2_CMD (ICW1_INIT OR ICW1_ICW4);
     io_wait B;
     outb B PIC1_DATA IRQ_BASE_MASTER;
     io_wait B;
     outb B PIC2_DATA IRQ_BASE_SLAVE;
     io_wait B;
     outb B PIC1_DATA 0b00000100;
     io_wait B;
     outb B PIC2_DATA 0b00000010;
     io_wait B;
     outb B PIC1_DATA ICW4_8086;
     io_wait B;
     outb B PIC2_DATA ICW4_8086;
     io_wait B;
     outb B PIC1_DATA 0b11101100;
     outb B PIC2_DATA 0b11111111
   }"

definition send_eoi :: "'d bus \<Rightarrow> u8 \<Rightarrow> ('d, unit) io" where
  "send_eoi B irq = do {
     (if irq \<ge> 8 then outb B PIC2_CMD PIC_EOI else return ());
     outb B PIC1_CMD PIC_EOI
   }"

definition send_eoi_master :: "'d bus \<Rightarrow> ('d, unit) io" where
  "send_eoi_master B = outb B PIC1_CMD PIC_EOI"

definition irq_to_port_bit :: "u8 \<Rightarrow> u16 \<times> u8" where
  "irq_to_port_bit irq = (if irq < 8 then (PIC1_DATA, irq) else (PIC2_DATA, irq - 8))"

text \<open>A shift of a byte by eight or more places wraps the distance, as in release builds.\<close>

definition shl8 :: "u8 \<Rightarrow> u8 \<Rightarrow> u8" where
  "shl8 x n = push_bit (unat n mod 8) x"

definition mask_irq :: "'d bus \<Rightarrow> u8 \<Rightarrow> ('d, unit) io" where
  "mask_irq B irq = (case irq_to_port_bit irq of (port, n) \<Rightarrow> do {
     val \<leftarrow> inb B port;
     outb B port (val OR shl8 1 n)
   })"

definition unmask_irq :: "'d bus \<Rightarrow> u8 \<Rightarrow> ('d, unit) io" where
  "unmask_irq B irq = (case irq_to_port_bit irq of (port, n) \<Rightarrow> do {
     val \<leftarrow> inb B port;
     outb B port (val AND NOT (shl8 1 n))
   })"

definition is_spurious_irq7 :: "'d bus \<Rightarrow> ('d, bool) io" where
  "is_spurious_irq7 B = do {
     outb B PIC1_CMD PIC_READ_ISR;
     v \<leftarrow> inb B PIC1_CMD;
     return (v AND 0x80 = 0)
   }"

definition is_spurious_irq15 :: "'d bus \<Rightarrow> ('d, bool) io" where
  "is_spurious_irq15 B = do {
     outb B PIC2_CMD PIC_READ_ISR;
     v \<leftarrow> inb B PIC2_CMD;
     return (v AND 0x80 = 0)
   }"

definition pic_disable :: "'d bus \<Rightarrow> ('d, unit) io" where
  "pic_disable B = do {
     outb B PIC1_DATA 0xFF;
     outb B PIC2_DATA 0xFF
   }"

section \<open>The timer\<close>

definition PIT_CHANNEL0 :: u16 where "PIT_CHANNEL0 = 0x40"
definition PIT_CMD :: u16 where "PIT_CMD = 0x43"
definition PIT_FREQ :: u64 where "PIT_FREQ = 1193182"
definition TIMER_HZ :: u64 where "TIMER_HZ = 1000"

record timer =
  TICK_COUNT :: u64
  UPTIME_MS :: u64
  TSC_FREQ_HZ :: u64

text \<open>\<open>None\<close>: the division by zero or the assertion panics.\<close>

definition init_pit :: "'d bus \<Rightarrow> u64 \<Rightarrow> ('d, unit) io option" where
  "init_pit B hz =
     (if hz = 0 then None
      else let divisor = PIT_FREQ div hz
      in if \<not> divisor < 65536 then None
         else Some (do {
           outb B PIT_CMD 0b00110110;
           outb B PIT_CHANNEL0 (ucast (divisor AND 0xFF));
           outb B PIT_CHANNEL0 (ucast (drop_bit 8 divisor AND 0xFF))
         }))"

definition irq_timer :: "timer \<times> run_queue \<Rightarrow> (timer \<times> run_queue) \<times> cpu_action" where
  "irq_timer ts =
     (case ts of (t, s) \<Rightarrow>
       (let t1 = t\<lparr>TICK_COUNT := TICK_COUNT t + 1\<rparr>;
            t2 = t1\<lparr>UPTIME_MS := UPTIME_MS t1 + 1000 div TIMER_HZ\<rparr>
        in case tick s of (s1, act) \<Rightarrow> ((t2, s1), act)))"

definition uptime_ms :: "timer \<Rightarrow> u64" where "uptime_ms t = UPTIME_MS t"
definition ticks :: "timer \<Rightarrow> u64" where "ticks t = TICK_COUNT t"
definition tsc_freq_hz :: "timer \<Rightarrow> u64" where "tsc_freq_hz t = TSC_FREQ_HZ t"

text \<open>\<open>rdtsc\<close> joins the two halves the processor delivers.\<close>

definition rdtsc :: "u32 \<Rightarrow> u32 \<Rightarrow> u64" where
  "rdtsc lo hi = push_bit 32 (ucast hi) OR ucast lo"

definition nanos :: "timer \<Rightarrow> u64 \<Rightarrow> u64" where
  "nanos t tsc =
     (let freq = tsc_freq_hz t
      in if freq = 0 then uptime_ms t * 1000000 else tsc * 1000000000 div freq)"

text \<open>The arithmetic of \<open>calibrate_tsc\<close> on the counter before and after its ten milliseconds.\<close>

definition calibrated :: "timer \<Rightarrow> u64 \<Rightarrow> u64 \<Rightarrow> timer" where
  "calibrated t t0 t1 =
     (let ms = 10; elapsed = t1 - t0; freq = elapsed * 1000 div ms in t\<lparr>TSC_FREQ_HZ := freq\<rparr>)"

definition timer_init :: "'d bus \<Rightarrow> ('d, unit) io option" where
  "timer_init B = init_pit B TIMER_HZ"

section \<open>The serial line\<close>

definition COM1 :: u16 where "COM1 = 0x3F8"

definition serial_init :: "'d bus \<Rightarrow> ('d, unit) io" where
  "serial_init B = do {
     outb B (COM1 + 1) 0x00;
     outb B (COM1 + 3) 0x80;
     outb B (COM1 + 0) 0x01;
     outb B (COM1 + 1) 0x00;
     outb B (COM1 + 3) 0x03;
     outb B (COM1 + 2) 0xC7;
     outb B (COM1 + 4) 0x0B;
     outb B (COM1 + 1) 0x01
   }"

partial_function (option) irq_serial :: "'d bus \<Rightarrow> console \<Rightarrow> 'd \<Rightarrow> (console \<times> 'd) option" where
  "irq_serial B k d =
     (case b_inb B (COM1 + 5) d of (s, d1) \<Rightarrow>
        if s AND 0x01 \<noteq> 0 then (case b_inb B COM1 d1 of (b, d2) \<Rightarrow> irq_serial B (push_char k b) d2)
        else Some (k, d1))"

partial_function (option) write_byte :: "'d bus \<Rightarrow> u8 \<Rightarrow> 'd \<Rightarrow> 'd option" where
  "write_byte B b d =
     (case b_inb B (COM1 + 5) d of (s, d1) \<Rightarrow>
        if \<not> s AND 0x20 \<noteq> 0 then write_byte B b d1 else Some (b_outb B COM1 b d1))"

definition serial_write_str :: "'d bus \<Rightarrow> u8 list \<Rightarrow> 'd \<Rightarrow> 'd option" where
  "serial_write_str B s d =
     fold_opt (\<lambda>b d. if b = 10 then do { d \<leftarrow> write_byte B 13 d; write_byte B b d } else write_byte B b d) s d"

end
