(* ===== verification/Pci.thy ===== *)
theory Pci
  imports Ports
begin

text \<open>
  The PCI configuration space and the bus scan of \<open>drivers/pci.rs\<close>, as programs over the port bus.
\<close>

unbundle bit_operations_syntax

section \<open>Configuration space\<close>

definition CONFIG_ADDRESS :: u16 where "CONFIG_ADDRESS = 0xCF8"
definition CONFIG_DATA :: u16 where "CONFIG_DATA = 0xCFC"

definition make_addr :: "u8 \<Rightarrow> u8 \<Rightarrow> u8 \<Rightarrow> u8 \<Rightarrow> u32" where
  "make_addr bus dev func offset =
     push_bit 31 1 OR push_bit 16 (ucast bus) OR push_bit 11 (ucast dev) OR push_bit 8 (ucast func)
       OR (ucast offset AND 0xFC)"

definition read_u32 :: "'d bus \<Rightarrow> u8 \<Rightarrow> u8 \<Rightarrow> u8 \<Rightarrow> u8 \<Rightarrow> ('d, u32) io" where
  "read_u32 B bus dev func offset = do {
     outl B CONFIG_ADDRESS (make_addr bus dev func offset);
     inl B CONFIG_DATA
   }"

definition write_u32 :: "'d bus \<Rightarrow> u8 \<Rightarrow> u8 \<Rightarrow> u8 \<Rightarrow> u8 \<Rightarrow> u32 \<Rightarrow> ('d, unit) io" where
  "write_u32 B bus dev func offset val = do {
     outl B CONFIG_ADDRESS (make_addr bus dev func offset);
     outl B CONFIG_DATA val
   }"

definition read_u16 :: "'d bus \<Rightarrow> u8 \<Rightarrow> u8 \<Rightarrow> u8 \<Rightarrow> u8 \<Rightarrow> ('d, u16) io" where
  "read_u16 B bus dev func offset = do {
     dword \<leftarrow> read_u32 B bus dev func (offset AND NOT 3);
     return (ucast (drop_bit (unat ((offset AND 2) * 8)) dword))
   }"

definition read_u8 :: "'d bus \<Rightarrow> u8 \<Rightarrow> u8 \<Rightarrow> u8 \<Rightarrow> u8 \<Rightarrow> ('d, u8) io" where
  "read_u8 B bus dev func offset = do {
     dword \<leftarrow> read_u32 B bus dev func (offset AND NOT 3);
     return (ucast (drop_bit (unat ((offset AND 3) * 8)) dword))
   }"

definition enable_bus_master :: "'d bus \<Rightarrow> u8 \<Rightarrow> u8 \<Rightarrow> u8 \<Rightarrow> ('d, unit) io" where
  "enable_bus_master B bus dev func = do {
     cmd \<leftarrow> read_u16 B bus dev func 0x04;
     write_u32 B bus dev func 0x04 (ucast (cmd OR 0x0007))
   }"

section \<open>Devices\<close>

record pci_device =
  pci_bus :: u8
  pci_dev :: u8
  pci_func :: u8
  vendor_id :: u16
  device_id :: u16
  pci_class :: u8
  pci_subclass :: u8
  prog_if :: u8
  revision :: u8
  header_type :: u8
  bars :: "u32 list"
  irq_line :: u8
  irq_pin :: u8

definition class_name :: "pci_device \<Rightarrow> string" where
  "class_name d =
     (if pci_class d = 0x00 \<and> pci_subclass d = 0x01 then ''VGA-Compatible (old)''
      else if pci_class d = 0x01 \<and> pci_subclass d = 0x00 then ''SCSI Bus Controller''
      else if pci_class d = 0x01 \<and> pci_subclass d = 0x01 then ''IDE Controller''
      else if pci_class d = 0x01 \<and> pci_subclass d = 0x05 then ''ATA Controller''
      else if pci_class d = 0x01 \<and> pci_subclass d = 0x06 then ''SATA/AHCI Controller''
      else if pci_class d = 0x01 \<and> pci_subclass d = 0x08 then ''NVMe Controller''
      else if pci_class d = 0x01 then ''Mass Storage Controller''
      else if pci_class d = 0x02 \<and> pci_subclass d = 0x00 then ''Ethernet Controller''
      else if pci_class d = 0x02 \<and> pci_subclass d = 0x80 then ''Network Controller''
      else if pci_class d = 0x02 then ''Network Controller''
      else if pci_class d = 0x03 \<and> pci_subclass d = 0x00 then ''VGA Compatible Controller''
      else if pci_class d = 0x03 \<and> pci_subclass d = 0x01 then ''XGA Controller''
      else if pci_class d = 0x03 then ''Display Controller''
      else if pci_class d = 0x04 then ''Multimedia Controller''
      else if pci_class d = 0x05 then ''Memory Controller''
      else if pci_class d = 0x06 \<and> pci_subclass d = 0x00 then ''Host Bridge''
      else if pci_class d = 0x06 \<and> pci_subclass d = 0x01 then ''ISA Bridge''
      else if pci_class d = 0x06 \<and> pci_subclass d = 0x04 then ''PCI-to-PCI Bridge''
      else if pci_class d = 0x06 then ''Bridge Device''
      else if pci_class d = 0x07 then ''Communication Controller''
      else if pci_class d = 0x08 \<and> pci_subclass d = 0x00 then ''PIC''
      else if pci_class d = 0x08 \<and> pci_subclass d = 0x01 then ''DMA Controller''
      else if pci_class d = 0x08 \<and> pci_subclass d = 0x02 then ''Timer''
      else if pci_class d = 0x08 then ''Generic System Peripheral''
      else if pci_class d = 0x09 then ''Input Device''
      else if pci_class d = 0x0A then ''Docking Station''
      else if pci_class d = 0x0B then ''Processor''
      else if pci_class d = 0x0C \<and> pci_subclass d = 0x00 then ''FireWire Controller''
      else if pci_class d = 0x0C \<and> pci_subclass d = 0x03 then ''USB Controller''
      else if pci_class d = 0x0C \<and> pci_subclass d = 0x05 then ''SMBus''
      else if pci_class d = 0x0C then ''Serial Bus Controller''
      else if pci_class d = 0x0D then ''Wireless Controller''
      else if pci_class d = 0x0F then ''Satellite Communication''
      else if pci_class d = 0x10 then ''Encryption Controller''
      else if pci_class d = 0x11 then ''Signal Processing Controller''
      else ''Unknown Device'')"

definition is_ahci :: "pci_device \<Rightarrow> bool" where
  "is_ahci d \<longleftrightarrow> pci_class d = 0x01 \<and> pci_subclass d = 0x06 \<and> prog_if d = 0x01"

definition is_ide :: "pci_device \<Rightarrow> bool" where
  "is_ide d \<longleftrightarrow> pci_class d = 0x01 \<and> pci_subclass d = 0x01"

text \<open>\<open>None\<close>: the index of the register panics.\<close>

definition bar_base :: "pci_device \<Rightarrow> nat \<Rightarrow> u64 option" where
  "bar_base d n =
     (if \<not> n < length (bars d) then None
      else let raw = ucast (bars d ! n) :: u64
      in Some (if raw AND 1 = 0
               then (if drop_bit 1 raw AND 0x3 = 2
                     then (if n + 1 < 6 then push_bit 32 (ucast (bars d ! (n + 1))) OR (raw AND NOT 0xF)
                           else raw AND NOT 0xF)
                     else raw AND NOT 0xF)
               else raw AND NOT 0x3))"

definition bar_is_io :: "pci_device \<Rightarrow> nat \<Rightarrow> bool option" where
  "bar_is_io d n = (if n < length (bars d) then Some (bars d ! n AND 1 \<noteq> 0) else None)"

definition pci_find :: "pci_device list \<Rightarrow> (pci_device \<Rightarrow> bool) \<Rightarrow> pci_device option" where
  "pci_find DEVICES pred = find pred DEVICES"

section \<open>The bus scan\<close>

definition probe :: "'d bus \<Rightarrow> u8 \<Rightarrow> u8 \<Rightarrow> u8 \<Rightarrow> pci_device list \<Rightarrow> ('d, pci_device list) io" where
  "probe B bus dev func xs = do {
     id \<leftarrow> read_u32 B bus dev func 0x00;
     let vendor_id = (ucast (id AND 0xFFFF) :: u16);
     (if vendor_id = 0xFFFF then return xs
     else do {
       let device_id = ucast (drop_bit 16 id);
       class_dword \<leftarrow> read_u32 B bus dev func 0x08;
       let revision = ucast (class_dword AND 0xFF);
       let prog_if = ucast (drop_bit 8 class_dword AND 0xFF);
       let sub = ucast (drop_bit 16 class_dword AND 0xFF);
       let cls = ucast (drop_bit 24 class_dword AND 0xFF);
       ht \<leftarrow> read_u8 B bus dev func 0x0E;
       let header_type = ht AND 0x7F;
       bars \<leftarrow> (if header_type = 0x00
               then io_map (\<lambda>i. read_u32 B bus dev func (0x10 + of_nat i * 4)) [0..<6]
               else if header_type = 0x01
               then do {
                 b0 \<leftarrow> read_u32 B bus dev func 0x10;
                 b1 \<leftarrow> read_u32 B bus dev func 0x14;
                 return [b0, b1, 0, 0, 0, 0]
               }
               else return (replicate 6 0));
       irq_dword \<leftarrow> read_u32 B bus dev func 0x3C;
       let irq_line = ucast (irq_dword AND 0xFF);
       let irq_pin = ucast (drop_bit 8 irq_dword AND 0xFF);
       return (xs @ [\<lparr>pci_bus = bus, pci_dev = dev, pci_func = func, vendor_id = vendor_id,
         device_id = device_id, pci_class = cls, pci_subclass = sub, prog_if = prog_if,
         revision = revision, header_type = header_type, bars = bars, irq_line = irq_line,
         irq_pin = irq_pin\<rparr>])
     })
   }"

fun probe_funcs :: "'d bus \<Rightarrow> u8 \<Rightarrow> u8 \<Rightarrow> nat list \<Rightarrow> pci_device list \<Rightarrow> ('d, pci_device list) io" where
  "probe_funcs B bus dev [] xs = return xs"
| "probe_funcs B bus dev (f # fs) xs = do {
     xs \<leftarrow> probe B bus dev (of_nat f) xs;
     probe_funcs B bus dev fs xs
   }"

fun scan_devs :: "'d bus \<Rightarrow> u8 \<Rightarrow> nat list \<Rightarrow> pci_device list \<Rightarrow> ('d, pci_device list) io" where
  "scan_devs B bus [] xs = return xs"
| "scan_devs B bus (n # ns) xs = do {
     let dev = of_nat n;
     id \<leftarrow> read_u32 B bus dev 0 0x00;
     (if (ucast (id AND 0xFFFF) :: u16) = 0xFFFF then scan_devs B bus ns xs
     else do {
       htype \<leftarrow> read_u8 B bus dev 0 0x0E;
       let multi = (htype AND 0x80 \<noteq> 0);
       xs \<leftarrow> probe B bus dev 0 xs;
       xs \<leftarrow> (if multi then probe_funcs B bus dev [1..<8] xs else return xs);
       scan_devs B bus ns xs
     })
   }"

definition scan_bus :: "'d bus \<Rightarrow> u8 \<Rightarrow> pci_device list \<Rightarrow> ('d, pci_device list) io" where
  "scan_bus B bus xs = scan_devs B bus [0..<32] xs"

fun scan_hosts :: "'d bus \<Rightarrow> nat list \<Rightarrow> pci_device list \<Rightarrow> ('d, pci_device list) io" where
  "scan_hosts B [] xs = return xs"
| "scan_hosts B (f # fs) xs = do {
     let func = of_nat f;
     id \<leftarrow> read_u32 B 0 0 func 0x00;
     (if (ucast (id AND 0xFFFF) :: u16) = 0xFFFF then return xs
     else do {
       xs \<leftarrow> scan_bus B func xs;
       scan_hosts B fs xs
     })
   }"

definition pci_init :: "'d bus \<Rightarrow> ('d, pci_device list) io" where
  "pci_init B = do {
     htype \<leftarrow> read_u8 B 0 0 0 0x0E;
     (if htype AND 0x80 = 0 then scan_bus B 0 [] else scan_hosts B [0..<8] [])
   }"

section \<open>What the scan finds\<close>

text \<open>
  A bus with a configuration space: reading the data port after selecting an address gives the word
  at that address, whatever happened before.
\<close>

definition config_space :: "'d bus \<Rightarrow> (u32 \<Rightarrow> u32) \<Rightarrow> bool" where
  "config_space B cfg \<longleftrightarrow> (\<forall>a d. fst (b_inl B CONFIG_DATA (b_outl B CONFIG_ADDRESS a d)) = cfg a)"

definition function_present :: "(u32 \<Rightarrow> u32) \<Rightarrow> u8 \<Rightarrow> u8 \<Rightarrow> u8 \<Rightarrow> bool" where
  "function_present cfg bus dev func \<longleftrightarrow> (ucast (cfg (make_addr bus dev func 0) AND 0xFFFF) :: u16) \<noteq> 0xFFFF"

text \<open>The byte with the header type, in the word at offset 0x0C.\<close>

definition header_byte :: "(u32 \<Rightarrow> u32) \<Rightarrow> u8 \<Rightarrow> u8 \<Rightarrow> u8 \<Rightarrow> u8" where
  "header_byte cfg bus dev func = ucast (drop_bit 16 (cfg (make_addr bus dev func 0x0C)))"

definition device_functions :: "(u32 \<Rightarrow> u32) \<Rightarrow> u8 \<Rightarrow> u8 \<Rightarrow> u8 list" where
  "device_functions cfg bus dev =
     (if function_present cfg bus dev 0
      then 0 # (if header_byte cfg bus dev 0 AND 0x80 \<noteq> 0
                then filter (function_present cfg bus dev) (map of_nat [1..<8]) else [])
      else [])"

definition bus_functions :: "(u32 \<Rightarrow> u32) \<Rightarrow> nat list \<Rightarrow> u8 \<Rightarrow> (u8 \<times> u8 \<times> u8) list" where
  "bus_functions cfg ns bus =
     concat (map (\<lambda>n. map (\<lambda>f. (bus, of_nat n, f)) (device_functions cfg bus (of_nat n))) ns)"

definition location :: "pci_device \<Rightarrow> u8 \<times> u8 \<times> u8" where
  "location p = (pci_bus p, pci_dev p, pci_func p)"

definition identified :: "(u32 \<Rightarrow> u32) \<Rightarrow> pci_device \<Rightarrow> bool" where
  "identified cfg p \<longleftrightarrow> length (bars p) = 6 \<and>
     vendor_id p = ucast (cfg (make_addr (pci_bus p) (pci_dev p) (pci_func p) 0) AND 0xFFFF) \<and>
     device_id p = ucast (drop_bit 16 (cfg (make_addr (pci_bus p) (pci_dev p) (pci_func p) 0))) \<and>
     pci_class p = ucast (drop_bit 24 (cfg (make_addr (pci_bus p) (pci_dev p) (pci_func p) 8)) AND 0xFF) \<and>
     pci_subclass p = ucast (drop_bit 16 (cfg (make_addr (pci_bus p) (pci_dev p) (pci_func p) 8)) AND 0xFF)"

lemma length_io_map: "length (fst (run_state (io_map f xs) d)) = length xs"
  by (induction xs arbitrary: d) (simp_all add: split_beta)

lemma read_u32_value:
  "config_space B cfg \<Longrightarrow> fst (run_state (read_u32 B bus dev func off) d) = cfg (make_addr bus dev func off)"
  by (simp add: read_u32_def config_space_def)

lemma read_header_value:
  "config_space B cfg \<Longrightarrow> fst (run_state (read_u8 B bus dev func 0x0E) d) = header_byte cfg bus dev func"
  by (simp add: read_u8_def read_u32_value header_byte_def split_beta)

lemma probe_value:
  assumes "config_space B cfg"
  shows "\<exists>ys. fst (run_state (probe B bus dev func xs) d) = xs @ ys \<and>
    map location ys = (if function_present cfg bus dev func then [(bus, dev, func)] else []) \<and>
    list_all (identified cfg) ys"
  using assms
  by (auto simp: probe_def read_u32_value read_header_value Let_def split_beta function_present_def
      location_def identified_def length_io_map)

lemma probe_funcs_value:
  assumes "config_space B cfg"
  shows "\<exists>ys. fst (run_state (probe_funcs B bus dev fs xs) d) = xs @ ys \<and>
    map location ys = map (\<lambda>f. (bus, dev, f)) (filter (function_present cfg bus dev) (map of_nat fs)) \<and>
    list_all (identified cfg) ys"
proof (induction fs arbitrary: xs d)
  case (Cons f fs)
  obtain ys where y: "fst (run_state (probe B bus dev (of_nat f) xs) d) = xs @ ys"
    "map location ys = (if function_present cfg bus dev (of_nat f) then [(bus, dev, of_nat f)] else [])"
    "list_all (identified cfg) ys" using probe_value [OF assms] by blast
  obtain zs where z: "fst (run_state (probe_funcs B bus dev fs (xs @ ys))
        (snd (run_state (probe B bus dev (of_nat f) xs) d))) = (xs @ ys) @ zs"
    "map location zs = map (\<lambda>f. (bus, dev, f)) (filter (function_present cfg bus dev) (map of_nat fs))"
    "list_all (identified cfg) zs" using Cons.IH by blast
  show ?case using y z by (intro exI [of _ "ys @ zs"]) (simp add: split_beta)
qed simp

lemma scan_devs_value:
  assumes "config_space B cfg"
  shows "\<exists>ys. fst (run_state (scan_devs B bus ns xs) d) = xs @ ys \<and>
    map location ys = bus_functions cfg ns bus \<and> list_all (identified cfg) ys"
proof (induction ns arbitrary: xs d)
  case Nil
  then show ?case by (simp add: bus_functions_def)
next
  case (Cons n ns)
  let ?dev = "of_nat n :: u8"
  show ?case
  proof (cases "function_present cfg bus ?dev 0")
    case False
    then have "bus_functions cfg (n # ns) bus = bus_functions cfg ns bus"
      by (simp add: bus_functions_def device_functions_def)
    moreover have "fst (run_state (scan_devs B bus (n # ns) xs) d) =
        fst (run_state (scan_devs B bus ns xs) (snd (run_state (read_u32 B bus ?dev 0 0) d)))"
      using False by (simp add: split_beta Let_def read_u32_value [OF assms] function_present_def)
    ultimately show ?thesis using Cons.IH by simp
  next
    case True
    let ?multi = "header_byte cfg bus ?dev 0 AND 0x80 \<noteq> 0"
    define d1 where "d1 = snd (run_state (read_u8 B bus ?dev 0 0x0E) (snd (run_state (read_u32 B bus ?dev 0 0) d)))"
    obtain ys where y: "fst (run_state (probe B bus ?dev 0 xs) d1) = xs @ ys"
      "map location ys = [(bus, ?dev, 0)]" "list_all (identified cfg) ys"
      using probe_value [OF assms, of bus ?dev 0 xs d1] True by auto
    define d2 where "d2 = snd (run_state (probe B bus ?dev 0 xs) d1)"
    let ?m = "if ?multi then probe_funcs B bus ?dev [1..<8] (xs @ ys) else return (xs @ ys)"
    obtain zs where z: "fst (run_state ?m d2) = (xs @ ys) @ zs"
      "map location zs = map (\<lambda>f. (bus, ?dev, f))
         (if ?multi then filter (function_present cfg bus ?dev) (map of_nat [1..<8]) else [])"
      "list_all (identified cfg) zs"
      using probe_funcs_value [OF assms, of bus ?dev "[1..<8]" "xs @ ys" d2]
      by (cases ?multi) (auto simp del: upt_rec_numeral)
    obtain ws where w: "fst (run_state (scan_devs B bus ns ((xs @ ys) @ zs)) (snd (run_state ?m d2))) = ((xs @ ys) @ zs) @ ws"
      "map location ws = bus_functions cfg ns bus" "list_all (identified cfg) ws"
      using Cons.IH by blast
    have "fst (run_state (scan_devs B bus (n # ns) xs) d) = ((xs @ ys) @ zs) @ ws"
      using True y(1) z(1) w(1) unfolding d2_def d1_def
      by (simp add: split_beta Let_def read_u32_value [OF assms] read_header_value [OF assms] function_present_def
          del: upt_rec_numeral append_assoc One_nat_def cong: if_cong split del: if_split)
    moreover have "map location (ys @ zs @ ws) = bus_functions cfg (n # ns) bus"
      using True y(2) z(2) w(2) by (simp add: bus_functions_def device_functions_def del: upt_rec_numeral One_nat_def)
    ultimately show ?thesis using y(3) z(3) w(3) by (intro exI [of _ "ys @ zs @ ws"]) simp
  qed
qed

lemma scan_hosts_value:
  assumes "config_space B cfg"
  shows "\<exists>ys. fst (run_state (scan_hosts B fs xs) d) = xs @ ys \<and>
    map location ys = concat (map (bus_functions cfg [0..<32])
      (takeWhile (function_present cfg 0 0) (map of_nat fs))) \<and> list_all (identified cfg) ys"
proof (induction fs arbitrary: xs d)
  case (Cons f fs)
  show ?case
  proof (cases "function_present cfg 0 0 (of_nat f)")
    case False
    then show ?thesis by (simp add: split_beta Let_def read_u32_value [OF assms] function_present_def)
  next
    case True
    let ?d = "snd (run_state (read_u32 B 0 0 (of_nat f) 0) d)"
    obtain ys where y: "fst (run_state (scan_bus B (of_nat f) xs) ?d) = xs @ ys"
      "map location ys = bus_functions cfg [0..<32] (of_nat f)" "list_all (identified cfg) ys"
      using scan_devs_value [OF assms, of "of_nat f" "[0..<32]" xs ?d] unfolding scan_bus_def by blast
    obtain zs where z: "fst (run_state (scan_hosts B fs (xs @ ys)) (snd (run_state (scan_bus B (of_nat f) xs) ?d))) = (xs @ ys) @ zs"
      "map location zs = concat (map (bus_functions cfg [0..<32])
         (takeWhile (function_present cfg 0 0) (map of_nat fs)))" "list_all (identified cfg) zs"
      using Cons.IH by blast
    have "fst (run_state (scan_hosts B (f # fs) xs) d) = xs @ ys @ zs"
      using True y(1) z(1) by (simp add: split_beta Let_def read_u32_value [OF assms] function_present_def)
    then show ?thesis using True y z by (intro exI [of _ "ys @ zs"]) (simp del: upt_rec_numeral)
  qed
qed simp

section \<open>An example\<close>

text \<open>A bus with one single-function device, an IDE controller, at device 1.\<close>

definition example_cfg :: "u32 \<Rightarrow> u32" where
  "example_cfg a =
     (if a = 0x80000800 then 0x70108086 else if a = 0x80000808 then 0x01018000
      else if a = 0x8000080C \<or> a = 0x8000000C then 0 else 0xFFFFFFFF)"

definition example_bus :: "u32 bus" where
  "example_bus = \<lparr>b_inb = (\<lambda>p d. (0, d)), b_outb = (\<lambda>p v d. d), b_inw = (\<lambda>p d. (0, d)), b_outw = (\<lambda>p v d. d),
     b_inl = (\<lambda>p d. (example_cfg d, d)), b_outl = (\<lambda>p v d. if p = CONFIG_ADDRESS then v else d)\<rparr>"

section \<open>Properties\<close>



end
