(* ===== verification/Vfs.thy ===== *)
theory Vfs
  imports Prelude
begin

text \<open>
  The types every file system shares (\<open>fs/vfs.rs\<close>): error numbers, file kinds, status records and
  directory entries, with the results of operations that may fail.  Strings are their UTF-8 bytes.
\<close>

section \<open>Results\<close>

text \<open>
  What an operation ends in: a value, an error number, or \<open>Panic\<close> when it panics or does not return.
  \<open>bindE\<close> is the question mark operator on operations that change a state.
\<close>

datatype errno = Errno i64

datatype 'a res = Ok 'a | Err errno | Panic

type_synonym ('s, 'a) op = "'s \<Rightarrow> 'a res \<times> 's"

definition okE :: "'a \<Rightarrow> ('s, 'a) op" where
  "okE x s = (Ok x, s)"

definition errE :: "errno \<Rightarrow> ('s, 'a) op" where
  "errE e s = (Err e, s)"

definition bindE :: "('s, 'a) op \<Rightarrow> ('a \<Rightarrow> ('s, 'b) op) \<Rightarrow> ('s, 'b) op" where
  "bindE m f s = (case m s of
     (Ok x, s1) \<Rightarrow> f x s1
   | (Err e, s1) \<Rightarrow> (Err e, s1)
   | (Panic, s1) \<Rightarrow> (Panic, s1))"

definition Errno_ENOENT :: errno where "Errno_ENOENT = Errno 2"
definition Errno_EIO :: errno where "Errno_EIO = Errno 5"
definition Errno_EBADF :: errno where "Errno_EBADF = Errno 9"
definition Errno_ENOMEM :: errno where "Errno_ENOMEM = Errno 12"
definition Errno_EACCES :: errno where "Errno_EACCES = Errno 13"
definition Errno_EEXIST :: errno where "Errno_EEXIST = Errno 17"
definition Errno_ENOTDIR :: errno where "Errno_ENOTDIR = Errno 20"
definition Errno_EISDIR :: errno where "Errno_EISDIR = Errno 21"
definition Errno_EINVAL :: errno where "Errno_EINVAL = Errno 22"
definition Errno_ENOSPC :: errno where "Errno_ENOSPC = Errno 28"
definition Errno_ENOTEMPTY :: errno where "Errno_ENOTEMPTY = Errno 39"
definition Errno_ENOTSUP :: errno where "Errno_ENOTSUP = Errno 95"

fun as_neg_i64 :: "errno \<Rightarrow> i64" where
  "as_neg_i64 (Errno n) = - n"

section \<open>Files\<close>

datatype file_type = Regular | Directory | Symlink | CharDevice

record stat_t =
  st_ino :: u64
  st_kind :: file_type
  st_size :: u64
  st_mode :: u32
  st_nlink :: u32
  st_uid :: u32
  st_gid :: u32

record dir_entry =
  de_name :: "u8 list"
  de_ino :: u64
  de_kind :: file_type

definition O_RDONLY :: u32 where "O_RDONLY = 0"
definition O_WRONLY :: u32 where "O_WRONLY = 1"
definition O_RDWR :: u32 where "O_RDWR = 2"
definition O_CREAT :: u32 where "O_CREAT = 0x40"
definition O_TRUNC :: u32 where "O_TRUNC = 0x200"
definition O_APPEND :: u32 where "O_APPEND = 0x400"
definition O_DIRECTORY :: u32 where "O_DIRECTORY = 0x10000"

lemmas errno_defs = Errno_ENOENT_def Errno_EIO_def Errno_EBADF_def Errno_ENOMEM_def Errno_EACCES_def
  Errno_EEXIST_def Errno_ENOTDIR_def Errno_EISDIR_def Errno_EINVAL_def Errno_ENOSPC_def
  Errno_ENOTEMPTY_def Errno_ENOTSUP_def

lemma bindE_Ok: "bindE m f s = (Ok y, t) \<longleftrightarrow> (\<exists>x s1. m s = (Ok x, s1) \<and> f x s1 = (Ok y, t))"
  by (auto simp: bindE_def split: prod.splits res.splits)

lemma bindE_step [simp]: "m s = (Ok x, s1) \<Longrightarrow> bindE m f s = f x s1" "m s = (Err e, s1) \<Longrightarrow> bindE m f s = (Err e, s1)"
  by (simp_all add: bindE_def)

lemma okE_simps [simp]: "okE x s = (Ok x, s)" "errE e s = (Err e, s)"
  by (simp_all add: okE_def errE_def)

end
