(* ===== verification/Ide.thy ===== *)
theory Ide
  imports Ports
begin

text \<open>
  The ATA driver of \<open>drivers/ide.rs\<close>: programmed input and output with 28-bit and 48-bit block
  addresses, over the port bus.  A \<open>Result<(), &str>\<close> is \<open>string + unit\<close>; \<open>None\<close> is a failed assertion.
\<close>

unbundle bit_operations_syntax

section \<open>Registers\<close>

definition PRIMARY_BASE :: u16 where "PRIMARY_BASE = 0x1F0"
definition PRIMARY_CTRL :: u16 where "PRIMARY_CTRL = 0x3F6"
definition SECONDARY_BASE :: u16 where "SECONDARY_BASE = 0x170"
definition SECONDARY_CTRL :: u16 where "SECONDARY_CTRL = 0x376"

definition REG_DATA :: u16 where "REG_DATA = 0"
definition REG_FEATURES :: u16 where "REG_FEATURES = 1"
definition REG_SECCOUNT :: u16 where "REG_SECCOUNT = 2"
definition REG_LBA0 :: u16 where "REG_LBA0 = 3"
definition REG_LBA1 :: u16 where "REG_LBA1 = 4"
definition REG_LBA2 :: u16 where "REG_LBA2 = 5"
definition REG_HDDEVSEL :: u16 where "REG_HDDEVSEL = 6"
definition REG_STATUS :: u16 where "REG_STATUS = 7"
definition REG_COMMAND :: u16 where "REG_COMMAND = 7"

definition SR_BSY :: u8 where "SR_BSY = 0x80"
definition SR_DRQ :: u8 where "SR_DRQ = 0x08"
definition SR_ERR :: u8 where "SR_ERR = 0x01"
definition SR_DF :: u8 where "SR_DF = 0x20"

definition CMD_READ_PIO :: u8 where "CMD_READ_PIO = 0x20"
definition CMD_READ_PIO_EX :: u8 where "CMD_READ_PIO_EX = 0x24"
definition CMD_WRITE_PIO :: u8 where "CMD_WRITE_PIO = 0x30"
definition CMD_WRITE_PIO_EX :: u8 where "CMD_WRITE_PIO_EX = 0x34"
definition CMD_CACHE_FLUSH :: u8 where "CMD_CACHE_FLUSH = 0xE7"
definition CMD_IDENTIFY :: u8 where "CMD_IDENTIFY = 0xEC"

definition SECTOR_SIZE :: nat where "SECTOR_SIZE = 512"

record drive =
  channel :: u8
  drive_sel :: u8
  lba48 :: bool
  sectors :: u64
  model :: "u8 list"
  serial :: "u8 list"
  io_base :: u16
  io_ctrl :: u16

definition size_mb :: "drive \<Rightarrow> u64" where
  "size_mb d = sectors d * of_nat SECTOR_SIZE div 1024 div 1024"

section \<open>Waiting\<close>

definition status :: "'d bus \<Rightarrow> u16 \<Rightarrow> ('d, u8) io" where
  "status B base = inb B (base + REG_STATUS)"

definition delay400 :: "'d bus \<Rightarrow> u16 \<Rightarrow> ('d, unit) io" where
  "delay400 B ctrl = io_for [0..<4] (\<lambda>_. do { _ \<leftarrow> inb B ctrl; return () })"

fun wait_bsy_loop :: "'d bus \<Rightarrow> u16 \<Rightarrow> nat \<Rightarrow> ('d, bool) io" where
  "wait_bsy_loop B base 0 = return False"
| "wait_bsy_loop B base (Suc n) = do {
     s \<leftarrow> status B base;
     (if s AND SR_BSY = 0 then return True else wait_bsy_loop B base n)
   }"

definition wait_bsy :: "'d bus \<Rightarrow> u16 \<Rightarrow> ('d, bool) io" where
  "wait_bsy B base = wait_bsy_loop B base 100000"

fun wait_drq_loop :: "'d bus \<Rightarrow> u16 \<Rightarrow> nat \<Rightarrow> ('d, string + unit) io" where
  "wait_drq_loop B base 0 = return (Inl ''ATA DRQ timeout'')"
| "wait_drq_loop B base (Suc n) = do {
     s \<leftarrow> status B base;
     (if s AND SR_ERR \<noteq> 0 \<or> s AND SR_DF \<noteq> 0 then return (Inl ''ATA error/device-fault'')
      else if s AND SR_DRQ \<noteq> 0 then return (Inr ())
      else wait_drq_loop B base n)
   }"

definition wait_drq :: "'d bus \<Rightarrow> u16 \<Rightarrow> ('d, string + unit) io" where
  "wait_drq B base = wait_drq_loop B base 100000"

definition select_drive :: "'d bus \<Rightarrow> u16 \<Rightarrow> u16 \<Rightarrow> u8 \<Rightarrow> u8 \<Rightarrow> ('d, unit) io" where
  "select_drive B base ctrl drv lba_top = do {
     outb B (base + REG_HDDEVSEL) (0xE0 OR push_bit 4 (drv AND 1) OR (lba_top AND 0x0F));
     delay400 B ctrl
   }"

section \<open>Identification\<close>

text \<open>
  The text of some identification words, two bytes a word, without trailing white space; \<open>None\<close> when
  the slice is out of range.
\<close>

definition ata_string :: "u16 list \<Rightarrow> nat \<Rightarrow> nat \<Rightarrow> u8 list option" where
  "ata_string words word_start word_count =
     (if word_start + word_count \<le> length words
      then let bytes = concat (map (\<lambda>w. [ucast (drop_bit 8 w), ucast (w AND 0xFF)])
                                 (take word_count (drop word_start words)));
               s = (if utf8_valid bytes then bytes else [])
           in Some (trim_end s)
      else None)"

definition identify :: "'d bus \<Rightarrow> u16 \<Rightarrow> u16 \<Rightarrow> u8 \<Rightarrow> ('d, u16 list option) io" where
  "identify B base ctrl sel = do {
     outb B (base + REG_HDDEVSEL) (0xA0 OR push_bit 4 (sel AND 1));
     delay400 B ctrl;
     outb B (base + REG_SECCOUNT) 0;
     outb B (base + REG_LBA0) 0;
     outb B (base + REG_LBA1) 0;
     outb B (base + REG_LBA2) 0;
     outb B (base + REG_COMMAND) CMD_IDENTIFY;
     delay400 B ctrl;
     s \<leftarrow> inb B (base + REG_STATUS);
     (if s = 0 then return None
      else do {
        ok \<leftarrow> wait_bsy B base;
        (if \<not> ok then return None
         else do {
           lba1 \<leftarrow> inb B (base + REG_LBA1);
           lba2 \<leftarrow> inb B (base + REG_LBA2);
           (if lba1 \<noteq> 0 \<or> lba2 \<noteq> 0 then return None
            else do {
              r \<leftarrow> wait_drq B base;
              (case r of
                 Inl _ \<Rightarrow> return None
               | Inr _ \<Rightarrow> do {
                   buf \<leftarrow> io_map (\<lambda>_. inw B (base + REG_DATA)) [0..<256];
                   return (Some buf)
                 })
            })
         })
      })
   }"

section \<open>Transfers\<close>

definition put_bytes :: "nat \<Rightarrow> 'a list \<Rightarrow> 'a list \<Rightarrow> 'a list" where
  "put_bytes off bs buf = take off buf @ bs @ drop (off + length bs) buf"

definition word_bytes :: "u16 \<Rightarrow> u8 list" where
  "word_bytes w = [ucast (w AND 0xFF), ucast (drop_bit 8 w)]"

definition word_at :: "u8 list \<Rightarrow> nat \<Rightarrow> u16" where
  "word_at buf i = ucast (buf ! i) OR push_bit 8 (ucast (buf ! (i + 1)))"

fun read_secs :: "'d bus \<Rightarrow> u16 \<Rightarrow> u16 \<Rightarrow> nat \<Rightarrow> nat \<Rightarrow> u8 list \<Rightarrow> ('d, (string + unit) \<times> u8 list) io" where
  "read_secs B base ctrl sec 0 buf = return (Inr (), buf)"
| "read_secs B base ctrl sec (Suc n) buf = do {
     delay400 B ctrl;
     ok \<leftarrow> wait_bsy B base;
     (if \<not> ok then return (Inl ''BSY timeout'', buf)
      else do {
        r \<leftarrow> wait_drq B base;
        (case r of
           Inl e \<Rightarrow> return (Inl e, buf)
         | Inr _ \<Rightarrow> do {
             ws \<leftarrow> io_map (\<lambda>_. inw B (base + REG_DATA)) [0..<256];
             read_secs B base ctrl (Suc sec) n (put_bytes (sec * SECTOR_SIZE) (concat (map word_bytes ws)) buf)
           })
      })
   }"

fun write_secs :: "'d bus \<Rightarrow> u16 \<Rightarrow> u16 \<Rightarrow> nat \<Rightarrow> nat \<Rightarrow> u8 list \<Rightarrow> ('d, string + unit) io" where
  "write_secs B base ctrl sec 0 buf = do {
     outb B (base + REG_COMMAND) CMD_CACHE_FLUSH;
     ok \<leftarrow> wait_bsy B base;
     return (if \<not> ok then Inl ''flush timeout'' else Inr ())
   }"
| "write_secs B base ctrl sec (Suc n) buf = do {
     delay400 B ctrl;
     ok \<leftarrow> wait_bsy B base;
     (if \<not> ok then return (Inl ''BSY timeout'')
      else do {
        r \<leftarrow> wait_drq B base;
        (case r of
           Inl e \<Rightarrow> return (Inl e)
         | Inr _ \<Rightarrow> do {
             io_for [0..<256] (\<lambda>i. outw B (base + REG_DATA) (word_at buf (sec * SECTOR_SIZE + 2 * i)));
             write_secs B base ctrl (Suc sec) n buf
           })
      })
   }"

definition setup_lba28 :: "'d bus \<Rightarrow> u16 \<Rightarrow> u32 \<Rightarrow> u8 \<Rightarrow> u8 \<Rightarrow> ('d, unit) io" where
  "setup_lba28 B base lba count cmd = do {
     outb B (base + REG_FEATURES) 0;
     outb B (base + REG_SECCOUNT) count;
     outb B (base + REG_LBA0) (ucast (lba AND 0xFF));
     outb B (base + REG_LBA1) (ucast (drop_bit 8 lba AND 0xFF));
     outb B (base + REG_LBA2) (ucast (drop_bit 16 lba AND 0xFF));
     outb B (base + REG_COMMAND) cmd
   }"

definition setup_lba48 :: "'d bus \<Rightarrow> u16 \<Rightarrow> u64 \<Rightarrow> u16 \<Rightarrow> u8 \<Rightarrow> ('d, unit) io" where
  "setup_lba48 B base lba count cmd = do {
     outb B (base + REG_FEATURES) 0;
     outb B (base + REG_FEATURES) 0;
     outb B (base + REG_SECCOUNT) (ucast (drop_bit 8 count));
     outb B (base + REG_LBA0) (ucast (drop_bit 24 lba AND 0xFF));
     outb B (base + REG_LBA1) (ucast (drop_bit 32 lba AND 0xFF));
     outb B (base + REG_LBA2) (ucast (drop_bit 40 lba AND 0xFF));
     outb B (base + REG_SECCOUNT) (ucast (count AND 0xFF));
     outb B (base + REG_LBA0) (ucast (lba AND 0xFF));
     outb B (base + REG_LBA1) (ucast (drop_bit 8 lba AND 0xFF));
     outb B (base + REG_LBA2) (ucast (drop_bit 16 lba AND 0xFF));
     outb B (base + REG_COMMAND) cmd
   }"

definition read_lba28 :: "'d bus \<Rightarrow> u16 \<Rightarrow> u16 \<Rightarrow> u8 \<Rightarrow> u32 \<Rightarrow> u8 \<Rightarrow> u8 list \<Rightarrow> ('d, (string + unit) \<times> u8 list) io" where
  "read_lba28 B base ctrl drv lba count buf = do {
     select_drive B base ctrl drv (ucast (drop_bit 24 lba AND 0x0F));
     ok \<leftarrow> wait_bsy B base;
     (if \<not> ok then return (Inl ''BSY timeout'', buf)
      else do {
        setup_lba28 B base lba count CMD_READ_PIO;
        read_secs B base ctrl 0 (unat count) buf
      })
   }"

definition write_lba28 :: "'d bus \<Rightarrow> u16 \<Rightarrow> u16 \<Rightarrow> u8 \<Rightarrow> u32 \<Rightarrow> u8 \<Rightarrow> u8 list \<Rightarrow> ('d, string + unit) io" where
  "write_lba28 B base ctrl drv lba count buf = do {
     select_drive B base ctrl drv (ucast (drop_bit 24 lba AND 0x0F));
     ok \<leftarrow> wait_bsy B base;
     (if \<not> ok then return (Inl ''BSY timeout'')
      else do {
        setup_lba28 B base lba count CMD_WRITE_PIO;
        write_secs B base ctrl 0 (unat count) buf
      })
   }"

definition read_lba48 :: "'d bus \<Rightarrow> u16 \<Rightarrow> u16 \<Rightarrow> u8 \<Rightarrow> u64 \<Rightarrow> u16 \<Rightarrow> u8 list \<Rightarrow> ('d, (string + unit) \<times> u8 list) io" where
  "read_lba48 B base ctrl drv lba count buf = do {
     select_drive B base ctrl drv 0;
     ok \<leftarrow> wait_bsy B base;
     (if \<not> ok then return (Inl ''BSY timeout'', buf)
      else do {
        setup_lba48 B base lba count CMD_READ_PIO_EX;
        read_secs B base ctrl 0 (unat count) buf
      })
   }"

definition write_lba48 :: "'d bus \<Rightarrow> u16 \<Rightarrow> u16 \<Rightarrow> u8 \<Rightarrow> u64 \<Rightarrow> u16 \<Rightarrow> u8 list \<Rightarrow> ('d, string + unit) io" where
  "write_lba48 B base ctrl drv lba count buf = do {
     select_drive B base ctrl drv 0;
     ok \<leftarrow> wait_bsy B base;
     (if \<not> ok then return (Inl ''BSY timeout'')
      else do {
        setup_lba48 B base lba count CMD_WRITE_PIO_EX;
        write_secs B base ctrl 0 (unat count) buf
      })
   }"

definition read_sectors ::
  "'d bus \<Rightarrow> drive list \<Rightarrow> nat \<Rightarrow> u64 \<Rightarrow> u16 \<Rightarrow> u8 list \<Rightarrow> ('d, (string + unit) \<times> u8 list) io option" where
  "read_sectors B DRIVES idx lba count buf =
     (if length buf \<noteq> unat count * SECTOR_SIZE then None
      else Some (if idx < length DRIVES
        then let d = DRIVES ! idx
             in if lba48 d then read_lba48 B (io_base d) (io_ctrl d) (drive_sel d) lba count buf
                else read_lba28 B (io_base d) (io_ctrl d) (drive_sel d) (ucast lba) (ucast count) buf
        else return (Inl ''no such drive'', buf)))"

definition write_sectors ::
  "'d bus \<Rightarrow> drive list \<Rightarrow> nat \<Rightarrow> u64 \<Rightarrow> u16 \<Rightarrow> u8 list \<Rightarrow> ('d, string + unit) io option" where
  "write_sectors B DRIVES idx lba count buf =
     (if length buf \<noteq> unat count * SECTOR_SIZE then None
      else Some (if idx < length DRIVES
        then let d = DRIVES ! idx
             in if lba48 d then write_lba48 B (io_base d) (io_ctrl d) (drive_sel d) lba count buf
                else write_lba28 B (io_base d) (io_ctrl d) (drive_sel d) (ucast lba) (ucast count) buf
        else return (Inl ''no such drive'')))"

section \<open>Detection\<close>

text \<open>The entry for a drive from its identification words.\<close>

definition drive_of :: "u8 \<Rightarrow> u16 \<Rightarrow> u16 \<Rightarrow> u8 \<Rightarrow> u16 list \<Rightarrow> drive option" where
  "drive_of chan base ctrl sel ident =
     (let has48 = (ident ! 83 AND push_bit 10 1 \<noteq> 0);
          n = (if has48
               then ucast (ident ! 100) OR push_bit 16 (ucast (ident ! 101)) OR push_bit 32 (ucast (ident ! 102))
                      OR push_bit 48 (ucast (ident ! 103))
               else ucast (ident ! 60) OR push_bit 16 (ucast (ident ! 61)))
      in if n = 0 then None
         else Some \<lparr>channel = chan, drive_sel = sel, lba48 = has48, sectors = n,
                model = the (ata_string ident 27 20), serial = the (ata_string ident 10 10),
                io_base = base, io_ctrl = ctrl\<rparr>)"

fun probe_drives :: "'d bus \<Rightarrow> u8 \<Rightarrow> u16 \<Rightarrow> u16 \<Rightarrow> u8 list \<Rightarrow> drive list \<Rightarrow> ('d, drive list) io" where
  "probe_drives B chan base ctrl [] xs = return xs"
| "probe_drives B chan base ctrl (sel # sels) xs = do {
     r \<leftarrow> identify B base ctrl sel;
     probe_drives B chan base ctrl sels
       (case r of
          None \<Rightarrow> xs
        | Some ident \<Rightarrow> (case drive_of chan base ctrl sel ident of None \<Rightarrow> xs | Some d \<Rightarrow> xs @ [d]))
   }"

definition probe_channel :: "'d bus \<Rightarrow> u8 \<Rightarrow> u16 \<Rightarrow> u16 \<Rightarrow> drive list \<Rightarrow> ('d, drive list) io" where
  "probe_channel B chan base ctrl xs = probe_drives B chan base ctrl [0, 1] xs"

definition ide_init :: "'d bus \<Rightarrow> ('d, drive list) io" where
  "ide_init B = do {
     xs \<leftarrow> probe_channel B 0 PRIMARY_BASE PRIMARY_CTRL [];
     probe_channel B 1 SECONDARY_BASE SECONDARY_CTRL xs
   }"

definition drive_count :: "drive list \<Rightarrow> nat" where
  "drive_count DRIVES = length DRIVES"

definition drive_info :: "drive list \<Rightarrow> nat \<Rightarrow> drive option" where
  "drive_info DRIVES idx = (if idx < length DRIVES then Some (DRIVES ! idx) else None)"

section \<open>What crosses the bus\<close>

text \<open>
  The trace of a transfer without the status reads: everything sent to the drive and the data received.
\<close>

fun is_status_read :: "port_op \<Rightarrow> bool" where
  "is_status_read (In8 p v) \<longleftrightarrow> True"
| "is_status_read _ \<longleftrightarrow> False"

definition traffic :: "port_op list \<Rightarrow> port_op list" where
  "traffic l = filter (\<lambda>x. \<not> is_status_read x) l"

lemma traffic_simps [simp]:
  "traffic [] = []" "traffic (xs @ ys) = traffic xs @ traffic ys" "traffic (In8 p v8 # l) = traffic l"
  "traffic (Out8 p v8 # l) = Out8 p v8 # traffic l" "traffic (In16 p v16 # l) = In16 p v16 # traffic l"
  "traffic (Out16 p v16 # l) = Out16 p v16 # traffic l"
  by (simp_all add: traffic_def)

definition sends :: "('d \<times> port_op list, 'a) io \<Rightarrow> port_op list \<Rightarrow> bool" where
  "sends m ops \<longleftrightarrow> (\<forall>d l. traffic (snd (snd (run_state m (d, l)))) = traffic l @ ops)"

lemma sends_run: "sends m ops \<Longrightarrow> run_state m s = (r, s') \<Longrightarrow> traffic (snd s') = traffic (snd s) @ ops"
  unfolding sends_def by (metis prod.collapse snd_conv)

lemma sends_return: "sends (return x) []"
  by (simp add: sends_def)

lemma sends_bind:
  assumes "sends m xs" "\<And>r. sends (f r) ys" "zs = xs @ ys"
  shows "sends (State_Monad.bind m f) zs"
  unfolding sends_def
proof (intro allI)
  fix d l
  obtain r d1 l1 where m: "run_state m (d, l) = (r, (d1, l1))" by (metis surj_pair)
  obtain q d2 l2 where f: "run_state (f r) (d1, l1) = (q, (d2, l2))" by (metis surj_pair)
  show "traffic (snd (snd (run_state (State_Monad.bind m f) (d, l)))) = traffic l @ zs"
    using sends_run [OF assms(1) m] sends_run [OF assms(2) f] m f assms(3) by simp
qed

lemma sends_port:
  "sends (inb (logged B) p) []" "sends (outb (logged B) p v8) [Out8 p v8]" "sends (outw (logged B) p v16) [Out16 p v16]"
  by (simp_all add: sends_def split_beta)

lemma sends_for: "(\<And>x. sends (f x) (g x)) \<Longrightarrow> sends (io_for xs f) (concat (map g xs))"
  by (induction xs) (auto intro: sends_return sends_bind)

lemma sends_for_silent: "(\<And>x. sends (f x) []) \<Longrightarrow> sends (io_for xs f) []"
  by (induction xs) (auto intro: sends_return sends_bind)

lemma sends_delay: "sends (delay400 (logged B) ctrl) []"
  unfolding delay400_def
  by (rule sends_for_silent, rule sends_bind [OF sends_port(1) sends_return]) simp

lemma sends_wait_bsy: "sends (wait_bsy (logged B) base) []"
proof -
  have "sends (wait_bsy_loop (logged B) base n) []" for n
    by (induction n) (auto simp: status_def sends_return intro!: sends_bind sends_port)
  then show ?thesis by (simp add: wait_bsy_def)
qed

lemma sends_wait_drq: "sends (wait_drq (logged B) base) []"
proof -
  have "sends (wait_drq_loop (logged B) base n) []" for n
    by (induction n) (auto simp: status_def sends_return intro!: sends_bind sends_port)
  then show ?thesis by (simp add: wait_drq_def)
qed

lemma sends_select:
  "sends (select_drive (logged B) base ctrl drv t)
     [Out8 (base + 6) (0xE0 OR push_bit 4 (drv AND 1) OR (t AND 0x0F))]"
  unfolding select_drive_def by (rule sends_bind [OF sends_port(2) sends_delay]) (simp add: REG_HDDEVSEL_def)

text \<open>The register writes that start a transfer, as the ATA protocol asks for them.\<close>

definition lba_byte :: "u64 \<Rightarrow> nat \<Rightarrow> u8" where
  "lba_byte lba i = ucast (drop_bit (8 * i) lba)"

definition transfer_setup :: "drive \<Rightarrow> u64 \<Rightarrow> u16 \<Rightarrow> u8 \<Rightarrow> u8 \<Rightarrow> port_op list" where
  "transfer_setup d lba count cmd28 cmd48 =
     (let b = io_base d; sel = 0xE0 OR push_bit 4 (drive_sel d AND 1)
      in if lba48 d
         then [Out8 (b + 6) sel, Out8 (b + 1) 0, Out8 (b + 1) 0,
               Out8 (b + 2) (ucast (drop_bit 8 count)), Out8 (b + 3) (lba_byte lba 3),
               Out8 (b + 4) (lba_byte lba 4), Out8 (b + 5) (lba_byte lba 5),
               Out8 (b + 2) (ucast count), Out8 (b + 3) (lba_byte lba 0),
               Out8 (b + 4) (lba_byte lba 1), Out8 (b + 5) (lba_byte lba 2), Out8 (b + 7) cmd48]
         else [Out8 (b + 6) (sel OR (lba_byte lba 3 AND 0x0F)), Out8 (b + 1) 0, Out8 (b + 2) (ucast count),
               Out8 (b + 3) (lba_byte lba 0), Out8 (b + 4) (lba_byte lba 1),
               Out8 (b + 5) (lba_byte lba 2), Out8 (b + 7) cmd28])"

lemma ucast_mask8 [simp]: "ucast (x AND 0xFF :: 'a::len word) = (ucast x :: u8)"
proof -
  have "x AND 0xFF = take_bit 8 x" by (simp add: take_bit_eq_mask mask_eq_exp_minus_1)
  then show ?thesis
    by (simp only:) (rule bit_word_eqI, auto simp: bit_simps dest: bit_imp_le_length)
qed

lemma sends_setup:
  "sends (setup_lba28 (logged B) base lba c cmd)
     [Out8 (base + 1) 0, Out8 (base + 2) c, Out8 (base + 3) (ucast lba), Out8 (base + 4) (ucast (drop_bit 8 lba)),
      Out8 (base + 5) (ucast (drop_bit 16 lba)), Out8 (base + 7) cmd]"
  "sends (setup_lba48 (logged B) base lba' c' cmd)
     [Out8 (base + 1) 0, Out8 (base + 1) 0, Out8 (base + 2) (ucast (drop_bit 8 c')), Out8 (base + 3) (lba_byte lba' 3),
      Out8 (base + 4) (lba_byte lba' 4), Out8 (base + 5) (lba_byte lba' 5), Out8 (base + 2) (ucast c'),
      Out8 (base + 3) (lba_byte lba' 0), Out8 (base + 4) (lba_byte lba' 1), Out8 (base + 5) (lba_byte lba' 2),
      Out8 (base + 7) cmd]"
  by (simp_all add: setup_lba28_def setup_lba48_def sends_def lba_byte_def REG_FEATURES_def REG_SECCOUNT_def
      REG_LBA0_def REG_LBA1_def REG_LBA2_def REG_COMMAND_def)

section \<open>Data\<close>

lemma word_bytes_at [simp]: "word_bytes (word_at buf i) = [buf ! i, buf ! (i + 1)]"
proof -
  have "ucast (word_at buf i) = buf ! i" "ucast (drop_bit 8 (word_at buf i)) = buf ! (i + 1)"
    by (rule bit_word_eqI; auto simp: word_at_def bit_simps dest: bit_imp_le_length)+
  then show ?thesis by (simp add: word_bytes_def)
qed

lemma even_bytes: "length buf = 2 * n \<Longrightarrow> concat (map (\<lambda>i. [buf ! (2 * i), buf ! Suc (2 * i)]) [0..<n]) = buf"
proof (induction n arbitrary: buf)
  case (Suc n)
  obtain a b bs where "buf = a # b # bs" using Suc.prems by (metis Suc_length_conv mult_Suc_right add_2_eq_Suc)
  then show ?case using Suc by (simp add: upt_conv_Cons del: upt_Suc flip: map_Suc_upt) (simp add: o_def)
qed simp

lemma concat_pairs: "concat (map (\<lambda>x. [f x]) xs) = map f xs"
  by (induction xs) simp_all

definition data_words :: "u8 list \<Rightarrow> nat \<Rightarrow> nat \<Rightarrow> u16 list" where
  "data_words buf sec n = map (\<lambda>i. word_at buf (sec * 512 + 2 * i)) [0..<256 * n]"

lemma data_words_Suc: "data_words buf sec (Suc n) = data_words buf sec 1 @ data_words buf (Suc sec) n"
proof -
  have "[0..<256 * Suc n] = [0..<256] @ map (\<lambda>i. i + 256) [0..<256 * n]"
    by (simp add: map_add_upt del: upt_rec_numeral) (metis upt_add_eq_append zero_le add.commute add_0)
  then show ?thesis by (simp add: data_words_def o_def algebra_simps del: upt_rec_numeral)
qed

lemma io_result: "\<exists>r s'. run_state m s = (r, s')"
  by (metis surj_pair)

lemma io_unit: "\<exists>s'. run_state m s = ((), s')"
  by (metis surj_pair unit.exhaust)

lemma write_secs_traffic:
  "run_state (write_secs (logged B) base ctrl sec n buf) s = (Inr (), s') \<Longrightarrow>
     traffic (snd s') = traffic (snd s) @ map (Out16 base) (data_words buf sec n) @ [Out8 (base + 7) CMD_CACHE_FLUSH]"
proof (induction n arbitrary: sec s)
  case 0
  let ?m = "do { outb (logged B) (base + REG_COMMAND) CMD_CACHE_FLUSH;
                 ok \<leftarrow> wait_bsy (logged B) base; return (if \<not> ok then Inl ''flush timeout'' else Inr ()) }"
  have "sends ?m [Out8 (base + 7) CMD_CACHE_FLUSH]"
    by (rule sends_bind [OF sends_port(2) sends_bind [OF sends_wait_bsy sends_return]]) (simp_all add: REG_COMMAND_def)
  from sends_run [OF this 0 [unfolded write_secs.simps]] show ?case by (simp add: data_words_def)
next
  case (Suc n)
  let ?out = "io_for [0..<256] (\<lambda>i. outw (logged B) (base + REG_DATA) (word_at buf (sec * SECTOR_SIZE + 2 * i)))"
  obtain s1 where d: "run_state (delay400 (logged B) ctrl) s = ((), s1)" by (metis surj_pair unit.exhaust)
  obtain ok s2 where w: "run_state (wait_bsy (logged B) base) s1 = (ok, s2)" by (metis surj_pair)
  obtain r s3 where q: "run_state (wait_drq (logged B) base) s2 = (r, s3)" by (metis surj_pair)
  obtain s4 where o: "run_state ?out s3 = ((), s4)" by (rule io_unit [THEN exE])
  have ok: "ok" using Suc.prems d w by (cases ok) (simp_all del: upt_rec_numeral)
  have r: "r = Inr ()" using Suc.prems d w q ok by (cases r) (simp_all del: upt_rec_numeral)
  have rest: "run_state (write_secs (logged B) base ctrl (Suc sec) n buf) s4 = (Inr (), s')"
    using Suc.prems d w q o ok r by (simp del: upt_rec_numeral)
  have "sends ?out (map (Out16 base) (data_words buf sec 1))"
    using sends_for [of "\<lambda>i. outw (logged B) (base + REG_DATA) (word_at buf (sec * SECTOR_SIZE + 2 * i))"
        "\<lambda>i. [Out16 base (word_at buf (sec * SECTOR_SIZE + 2 * i))]" "[0..<256]"]
      sends_port(3) [of B "base + REG_DATA"]
    by (simp add: REG_DATA_def data_words_def SECTOR_SIZE_def o_def concat_pairs del: upt_rec_numeral)
  then show ?case
    using Suc.IH [OF rest] sends_run [OF sends_delay d] sends_run [OF sends_wait_bsy w] sends_run [OF sends_wait_drq q]
      sends_run [OF _ o] by (simp add: data_words_Suc [of buf sec n])
qed

lemma data_words_bytes:
  assumes "length buf = n * 512"
  shows "concat (map word_bytes (data_words buf 0 n)) = buf"
  using even_bytes [of buf "256 * n"] assms by (simp add: data_words_def o_def)

text \<open>A loop of data reads: the words it returns are the ones received.\<close>

lemma io_map_inw_traffic:
  "run_state (io_map (\<lambda>_. inw (logged B) p) xs) s = (ws, s') \<Longrightarrow>
     length ws = length xs \<and> traffic (snd s') = traffic (snd s) @ map (In16 p) ws"
proof (induction xs arbitrary: s ws s')
  case (Cons x xs)
  obtain w s1 where w: "run_state (inw (logged B) p) s = (w, s1)" by (metis surj_pair)
  obtain vs s2 where v: "run_state (io_map (\<lambda>_. inw (logged B) p) xs) s1 = (vs, s2)" by (metis surj_pair)
  have "traffic (snd s1) = traffic (snd s) @ [In16 p w]" using w by (cases s) (auto split: prod.splits)
  then show ?case using Cons.IH [OF v] Cons.prems w v by auto
qed simp

lemma length_words_bytes: "length (concat (map word_bytes ws)) = 2 * length ws"
  by (induction ws) (simp_all add: word_bytes_def)

lemma put_bytes_grow:
  assumes "off + length bs \<le> length buf"
  shows "length (put_bytes off bs buf) = length buf" "take (off + length bs) (put_bytes off bs buf) = take off buf @ bs"
    "take off (put_bytes off bs buf) = take off buf"
  using assms by (auto simp: put_bytes_def min_def simp flip: length_greater_0_conv)

lemma read_secs_traffic:
  "run_state (read_secs (logged B) base ctrl sec n buf) s = ((Inr (), buf'), s') \<Longrightarrow> length buf = (sec + n) * 512 \<Longrightarrow>
     \<exists>ws. length ws = 256 * n \<and> buf' = take (sec * 512) buf @ concat (map word_bytes ws) \<and>
       traffic (snd s') = traffic (snd s) @ map (In16 base) ws"
proof (induction n arbitrary: sec s buf)
  case 0
  then show ?case by simp
next
  case (Suc n)
  let ?in = "io_map (\<lambda>_. inw (logged B) (base + REG_DATA)) [0..<256]"
  obtain s1 where d: "run_state (delay400 (logged B) ctrl) s = ((), s1)" by (metis surj_pair unit.exhaust)
  obtain ok s2 where w: "run_state (wait_bsy (logged B) base) s1 = (ok, s2)" by (metis surj_pair)
  obtain r s3 where q: "run_state (wait_drq (logged B) base) s2 = (r, s3)" by (metis surj_pair)
  obtain vs s4 where i: "run_state ?in s3 = (vs, s4)" by (rule io_result [THEN exE], erule exE)
  have ok: "ok" using Suc.prems(1) d w by (cases ok) (simp_all del: upt_rec_numeral)
  have r: "r = Inr ()" using Suc.prems(1) d w q ok by (cases r) (simp_all del: upt_rec_numeral)
  let ?bs = "concat (map word_bytes vs)" and ?buf = "put_bytes (sec * SECTOR_SIZE) (concat (map word_bytes vs)) buf"
  have v: "length vs = 256" "traffic (snd s4) = traffic (snd s3) @ map (In16 base) vs"
    using io_map_inw_traffic [OF i] by (simp_all add: REG_DATA_def del: upt_rec_numeral)
  then have bs: "length ?bs = 512" by (simp add: length_words_bytes)
  have rest: "run_state (read_secs (logged B) base ctrl (Suc sec) n ?buf) s4 = ((Inr (), buf'), s')"
    using Suc.prems(1) d w q i ok r by (simp del: upt_rec_numeral)
  have l: "sec * 512 + length ?bs \<le> length buf" using Suc.prems(2) bs by simp
  note p = put_bytes_grow [OF l]
  obtain ws where ws: "length ws = 256 * n" "buf' = take (Suc sec * 512) ?buf @ concat (map word_bytes ws)"
    "traffic (snd s') = traffic (snd s4) @ map (In16 base) ws"
    using Suc.IH [OF rest] Suc.prems(2) p(1) by (auto simp: SECTOR_SIZE_def)
  have "take (Suc sec * 512) ?buf = take (sec * 512) buf @ ?bs" using p(2) bs by (simp add: SECTOR_SIZE_def add.commute)
  then show ?case
    using ws v sends_run [OF sends_delay d] sends_run [OF sends_wait_bsy w] sends_run [OF sends_wait_drq q]
    by (intro exI [of _ "vs @ ws"]) simp
qed

text \<open>The start of a transfer, on either kind of drive.\<close>

lemma small_count: "unat (count :: u16) < 256 \<Longrightarrow> unat (ucast count :: u8) = unat count"
  by (simp add: unsigned_ucast_eq take_bit_nat_eq_self)

lemma lba28_bytes:
  "(ucast (ucast lba :: u32) :: u8) = lba_byte lba 0" "(ucast (drop_bit 8 (ucast lba :: u32)) :: u8) = lba_byte lba 1"
  "(ucast (drop_bit 16 (ucast lba :: u32)) :: u8) = lba_byte lba 2"
  "(ucast (drop_bit 24 (ucast lba :: u32) AND 0x0F) :: u8) AND 0x0F = lba_byte lba 3 AND 0x0F"
  by (rule bit_word_eqI; auto simp: lba_byte_def bit_simps dest: bit_imp_le_length)+

lemma write_start:
  assumes "idx < length DRIVES" "d = DRIVES ! idx" "length buf = unat count * 512"
    and "lba48 d \<or> unat count < 256"
    and "write_sectors (logged B) DRIVES idx lba count buf = Some m" "run_state m s = (Inr (), s')"
  shows "\<exists>s1. traffic (snd s1) = traffic (snd s) @ transfer_setup d lba count CMD_WRITE_PIO CMD_WRITE_PIO_EX \<and>
    run_state (write_secs (logged B) (io_base d) (io_ctrl d) 0 (unat count) buf) s1 = (Inr (), s')"
proof (cases "lba48 d")
  case True
  let ?b = "io_base d"
  have m: "run_state (write_lba48 (logged B) ?b (io_ctrl d) (drive_sel d) lba count buf) s = (Inr (), s')"
    using assms True by (auto simp: write_sectors_def SECTOR_SIZE_def Let_def)
  obtain s1 where s1: "run_state (select_drive (logged B) ?b (io_ctrl d) (drive_sel d) 0) s = ((), s1)"
    by (rule io_unit [THEN exE])
  obtain ok s2 where s2: "run_state (wait_bsy (logged B) ?b) s1 = (ok, s2)" by (rule io_result [THEN exE], erule exE)
  obtain s3 where s3: "run_state (setup_lba48 (logged B) ?b lba count CMD_WRITE_PIO_EX) s2 = ((), s3)"
    by (rule io_unit [THEN exE])
  have ok: ok using m s1 s2 by (cases ok) (simp_all add: write_lba48_def)
  show ?thesis
    using m s1 s2 s3 ok True sends_run [OF sends_select s1] sends_run [OF sends_wait_bsy s2]
      sends_run [OF sends_setup(2) s3]
    by (intro exI [of _ s3]) (simp add: write_lba48_def transfer_setup_def Let_def)
next
  case False
  let ?b = "io_base d" and ?l = "ucast lba :: u32" and ?c = "ucast count :: u8"
  have m: "run_state (write_lba28 (logged B) ?b (io_ctrl d) (drive_sel d) ?l ?c buf) s = (Inr (), s')"
    using assms False by (auto simp: write_sectors_def SECTOR_SIZE_def Let_def)
  let ?top = "ucast (drop_bit 24 ?l AND 0x0F) :: u8"
  obtain s1 where s1: "run_state (select_drive (logged B) ?b (io_ctrl d) (drive_sel d) ?top) s = ((), s1)"
    by (rule io_unit [THEN exE])
  obtain ok s2 where s2: "run_state (wait_bsy (logged B) ?b) s1 = (ok, s2)" by (rule io_result [THEN exE], erule exE)
  obtain s3 where s3: "run_state (setup_lba28 (logged B) ?b ?l ?c CMD_WRITE_PIO) s2 = ((), s3)"
    by (rule io_unit [THEN exE])
  have ok: ok using m s1 s2 by (cases ok) (simp_all add: write_lba28_def)
  have c: "unat ?c = unat count" using assms(4) False small_count by simp
  show ?thesis
    using m s1 s2 s3 ok False c sends_run [OF sends_select s1] sends_run [OF sends_wait_bsy s2]
      sends_run [OF sends_setup(1) s3]
    by (intro exI [of _ s3]) (simp add: write_lba28_def transfer_setup_def Let_def lba28_bytes or.assoc)
qed

lemma read_start:
  assumes "idx < length DRIVES" "d = DRIVES ! idx" "length buf = unat count * 512"
    and "lba48 d \<or> unat count < 256"
    and "read_sectors (logged B) DRIVES idx lba count buf = Some m" "run_state m s = ((Inr (), buf'), s')"
  shows "\<exists>s1. traffic (snd s1) = traffic (snd s) @ transfer_setup d lba count CMD_READ_PIO CMD_READ_PIO_EX \<and>
    run_state (read_secs (logged B) (io_base d) (io_ctrl d) 0 (unat count) buf) s1 = ((Inr (), buf'), s')"
proof (cases "lba48 d")
  case True
  let ?b = "io_base d"
  have m: "run_state (read_lba48 (logged B) ?b (io_ctrl d) (drive_sel d) lba count buf) s = ((Inr (), buf'), s')"
    using assms True by (auto simp: read_sectors_def SECTOR_SIZE_def Let_def)
  obtain s1 where s1: "run_state (select_drive (logged B) ?b (io_ctrl d) (drive_sel d) 0) s = ((), s1)"
    by (rule io_unit [THEN exE])
  obtain ok s2 where s2: "run_state (wait_bsy (logged B) ?b) s1 = (ok, s2)" by (rule io_result [THEN exE], erule exE)
  obtain s3 where s3: "run_state (setup_lba48 (logged B) ?b lba count CMD_READ_PIO_EX) s2 = ((), s3)"
    by (rule io_unit [THEN exE])
  have ok: ok using m s1 s2 by (cases ok) (simp_all add: read_lba48_def)
  show ?thesis
    using m s1 s2 s3 ok True sends_run [OF sends_select s1] sends_run [OF sends_wait_bsy s2]
      sends_run [OF sends_setup(2) s3]
    by (intro exI [of _ s3]) (simp add: read_lba48_def transfer_setup_def Let_def)
next
  case False
  let ?b = "io_base d" and ?l = "ucast lba :: u32" and ?c = "ucast count :: u8"
  have m: "run_state (read_lba28 (logged B) ?b (io_ctrl d) (drive_sel d) ?l ?c buf) s = ((Inr (), buf'), s')"
    using assms False by (auto simp: read_sectors_def SECTOR_SIZE_def Let_def)
  let ?top = "ucast (drop_bit 24 ?l AND 0x0F) :: u8"
  obtain s1 where s1: "run_state (select_drive (logged B) ?b (io_ctrl d) (drive_sel d) ?top) s = ((), s1)"
    by (rule io_unit [THEN exE])
  obtain ok s2 where s2: "run_state (wait_bsy (logged B) ?b) s1 = (ok, s2)" by (rule io_result [THEN exE], erule exE)
  obtain s3 where s3: "run_state (setup_lba28 (logged B) ?b ?l ?c CMD_READ_PIO) s2 = ((), s3)"
    by (rule io_unit [THEN exE])
  have ok: ok using m s1 s2 by (cases ok) (simp_all add: read_lba28_def)
  have c: "unat ?c = unat count" using assms(4) False small_count by simp
  show ?thesis
    using m s1 s2 s3 ok False c sends_run [OF sends_select s1] sends_run [OF sends_wait_bsy s2]
      sends_run [OF sends_setup(1) s3]
    by (intro exI [of _ s3]) (simp add: read_lba28_def transfer_setup_def Let_def lba28_bytes or.assoc)
qed

section \<open>A drive that is always ready\<close>

definition ready_bus :: "unit bus" where
  "ready_bus = \<lparr>b_inb = (\<lambda>p d. (0x48, d)), b_outb = (\<lambda>p v d. d), b_inw = (\<lambda>p d. (0x4241, d)),
     b_outw = (\<lambda>p v d. d), b_inl = (\<lambda>p d. (0, d)), b_outl = (\<lambda>p v d. d)\<rparr>"

definition example_drive :: "bool \<Rightarrow> drive" where
  "example_drive b = \<lparr>channel = 0, drive_sel = 0, lba48 = b, sectors = 2048, model = [], serial = [],
     io_base = PRIMARY_BASE, io_ctrl = PRIMARY_CTRL\<rparr>"

lemma ready_bsy: "fst (run_state (wait_bsy (logged ready_bus) base) s) = True"
proof -
  have "fst (run_state (wait_bsy_loop (logged ready_bus) base (Suc n)) s) = True" for n
    by (cases s) (simp add: status_def ready_bus_def SR_BSY_def)
  from this [of 99999] show ?thesis by (simp add: wait_bsy_def)
qed

lemma ready_drq: "fst (run_state (wait_drq (logged ready_bus) base) s) = Inr ()"
proof -
  have "fst (run_state (wait_drq_loop (logged ready_bus) base (Suc n)) s) = Inr ()" for n
    by (cases s) (simp add: status_def ready_bus_def SR_ERR_def SR_DF_def SR_DRQ_def)
  from this [of 99999] show ?thesis by (simp add: wait_drq_def)
qed

lemma ready_write: "fst (run_state (write_secs (logged ready_bus) base ctrl sec n buf) s) = Inr ()"
  by (induction n arbitrary: sec s) (simp_all add: split_beta ready_bsy ready_drq del: upt_rec_numeral)

lemma ready_read: "fst (fst (run_state (read_secs (logged ready_bus) base ctrl sec n buf) s)) = Inr ()"
  by (induction n arbitrary: sec s buf) (simp_all add: split_beta ready_bsy ready_drq del: upt_rec_numeral)

lemma ready_write_sectors:
  assumes "write_sectors (logged ready_bus) DRIVES idx lba count buf = Some m" "idx < length DRIVES"
  shows "fst (run_state m s) = Inr ()"
  using assms
  by (auto simp: write_sectors_def write_lba48_def write_lba28_def Let_def split_beta ready_bsy ready_write split: if_splits)

lemma ready_read_sectors:
  assumes "read_sectors (logged ready_bus) DRIVES idx lba count buf = Some m" "idx < length DRIVES"
  shows "fst (fst (run_state m s)) = Inr ()"
  using assms
  by (auto simp: read_sectors_def read_lba48_def read_lba28_def Let_def split_beta ready_bsy ready_read split: if_splits)

section \<open>Properties\<close>





text \<open>
  The count is cut to eight bits for a drive without 48-bit addresses: a request for 256 blocks
  reports success after transferring nothing.
\<close>

lemma lba28_256_transfers_nothing:
  assumes "idx < length DRIVES" "\<not> lba48 (DRIVES ! idx)"
    and "read_sectors B DRIVES idx lba 256 buf = Some m" "run_state m dev = ((Inr (), buf'), dev')"
  shows "buf' = buf"
proof -
  have "unat (256 :: u8) = 0" by simp
  then show ?thesis using assms
    by (auto simp: read_sectors_def read_lba28_def Let_def split_beta split: if_splits)
qed

end
