(* ===== verification/Fat32.thy ===== *)
theory Fat32
  imports Vfs Ide
begin

text \<open>
  Partition tables (\<open>fs/mbr.rs\<close>) and the read-only FAT32 driver (\<open>fs/fat32.rs\<close>): the cluster chains
  of the allocation table, directories with short and long names, and the contents of files.  Blocks
  come from the disk driver, so every operation changes the state of the device behind the bus.  The
  inodes of the driver are with the other inodes, in \<open>Inodes\<close>.
\<close>

unbundle bit_operations_syntax

section \<open>Partition tables\<close>

record partition =
  pt_status :: u8
  part_type :: u8
  lba_start :: u64
  lba_count :: u64

definition is_fat32 :: "partition \<Rightarrow> bool" where
  "is_fat32 p \<longleftrightarrow> part_type p \<in> {0x0B, 0x0C, 0x1B, 0x1C}"

text \<open>A read of whole blocks into a new buffer, for the callers that drop the message of an error.\<close>

definition disk_read :: "'d bus \<Rightarrow> drive list \<Rightarrow> nat \<Rightarrow> u64 \<Rightarrow> u16 \<Rightarrow> u8 list \<Rightarrow> ('d, u8 list) op" where
  "disk_read B Ds drv lba count buf d =
     (case read_sectors B Ds drv lba count buf of
        None \<Rightarrow> (Panic, d)
      | Some m \<Rightarrow>
          (case run_state m d of
             ((Inl _, buf1), d1) \<Rightarrow> (Err Errno_EIO, d1)
           | ((Inr _, buf1), d1) \<Rightarrow> (Ok buf1, d1)))"

definition mbr_partition :: "u8 list \<Rightarrow> nat \<Rightarrow> partition option" where
  "mbr_partition sector i =
     (let off = 446 + i * 16;
          st = sector ! off;
          ty = sector ! (off + 4);
          start = ucast (from_le_bytes (map (\<lambda>k. sector ! (off + k)) [8, 9, 10, 11]) :: u32) :: u64;
          count = ucast (from_le_bytes (map (\<lambda>k. sector ! (off + k)) [12, 13, 14, 15]) :: u32) :: u64
      in if 0 < start \<and> 0 < count
         then Some \<lparr>pt_status = st, part_type = ty, lba_start = start, lba_count = count\<rparr> else None)"

definition mbr_read :: "'d bus \<Rightarrow> drive list \<Rightarrow> nat \<Rightarrow> ('d, partition option list option) op" where
  "mbr_read B Ds drv d =
     (case disk_read B Ds drv 0 1 (replicate 512 0) d of
        (Panic, d1) \<Rightarrow> (Panic, d1)
      | (Err _, d1) \<Rightarrow> (Ok None, d1)
      | (Ok sector, d1) \<Rightarrow>
          (Ok (if sector ! 510 \<noteq> 0x55 \<or> sector ! 511 \<noteq> 0xAA then None
               else Some (map (mbr_partition sector) [0, 1, 2, 3])), d1))"

section \<open>The allocation table\<close>

definition ATTR_VOLUME_ID :: u8 where "ATTR_VOLUME_ID = 0x08"
definition ATTR_DIRECTORY :: u8 where "ATTR_DIRECTORY = 0x10"
definition ATTR_LFN :: u8 where "ATTR_LFN = 0x0F"

record fat32_ctx =
  fx_drive :: nat
  part_lba :: u64
  spc :: u64
  fat_start :: u64
  data_start :: u64
  root_cluster :: u32

definition cluster_lba :: "fat32_ctx \<Rightarrow> u32 \<Rightarrow> u64" where
  "cluster_lba cx c = data_start cx + (ucast c - 2) * spc cx"

definition cluster_bytes :: "fat32_ctx \<Rightarrow> nat" where
  "cluster_bytes cx = unat (spc cx) * 512"

definition read_cluster :: "'d bus \<Rightarrow> drive list \<Rightarrow> fat32_ctx \<Rightarrow> u32 \<Rightarrow> u8 list \<Rightarrow> ('d, u8 list) op" where
  "read_cluster B Ds cx c buf = disk_read B Ds (fx_drive cx) (cluster_lba cx c) (ucast (spc cx)) buf"

text \<open>The entry of a cluster, from its block of the table.\<close>

definition fat_entry :: "u32 \<Rightarrow> u8 list \<Rightarrow> u32 option" where
  "fat_entry c buf =
     (let off = unat ((ucast c * 4 :: u64) mod 512);
          entry = from_le_bytes [buf ! off, buf ! (off + 1), buf ! (off + 2), buf ! (off + 3)] AND 0x0FFFFFFF
      in if entry < 2 \<or> 0x0FFFFFF8 \<le> entry then None else Some entry)"

definition next_cluster :: "'d bus \<Rightarrow> drive list \<Rightarrow> fat32_ctx \<Rightarrow> u32 \<Rightarrow> ('d, u32 option) op" where
  "next_cluster B Ds cx c =
     bindE (disk_read B Ds (fx_drive cx) (fat_start cx + (ucast c * 4) div 512) 1 (replicate 512 0))
       (\<lambda>buf. okE (fat_entry c buf))"

text \<open>The loop of \<open>cluster_chain\<close>, \<open>k\<close> clusters being in the chain already.\<close>

function chain_from :: "'d bus \<Rightarrow> drive list \<Rightarrow> fat32_ctx \<Rightarrow> nat \<Rightarrow> u32 \<Rightarrow> ('d, u32 list) op" where
  "chain_from B Ds cx k c d =
     (if c < 2 then (Ok [], d)
      else case next_cluster B Ds cx c d of
        (Panic, d1) \<Rightarrow> (Panic, d1)
      | (Err e, d1) \<Rightarrow> (Err e, d1)
      | (Ok None, d1) \<Rightarrow> (Ok [c], d1)
      | (Ok (Some next), d1) \<Rightarrow>
          if k + 1 > 1000000 then (Ok [c], d1)
          else case chain_from B Ds cx (k + 1) next d1 of
            (Ok cs, d2) \<Rightarrow> (Ok (c # cs), d2)
          | r \<Rightarrow> r)"
  by pat_completeness auto
termination
  by (relation "measure (\<lambda>(B, Ds, cx, k, c, d). 1000001 - k)") auto

definition cluster_chain :: "'d bus \<Rightarrow> drive list \<Rightarrow> fat32_ctx \<Rightarrow> u32 \<Rightarrow> ('d, u32 list) op" where
  "cluster_chain B Ds cx start = chain_from B Ds cx 0 start"

section \<open>Directories\<close>

record fat_dirent =
  fe_name :: "u8 list"
  first_cluster :: u32
  file_size :: u32
  fe_is_dir :: bool

text \<open>The character of a byte, in lower case when it is an ASCII letter.\<close>

definition char83 :: "u8 \<Rightarrow> u8 list" where
  "char83 b = encode_utf8 (ucast (lower_byte b))"

definition parse_83_name :: "u8 list \<Rightarrow> u8 list" where
  "parse_83_name raw =
     (let base = takeWhile (\<lambda>b. b \<noteq> 32) (take 8 raw);
          name = concat (map char83
            (case base of [] \<Rightarrow> [] | b # bs \<Rightarrow> (if b = 0x05 then 0xE5 else b) # bs));
          ext = concat (map char83 (takeWhile (\<lambda>b. b \<noteq> 32) (take 3 (drop 8 raw))))
      in if ext = [] then name else name @ [46] @ ext)"

definition lfn_chars :: "u8 list \<Rightarrow> u16 list" where
  "lfn_chars entry =
     concat (map (\<lambda>(start, count).
       map (\<lambda>k. from_le_bytes [entry ! (start + k * 2), entry ! (start + k * 2 + 1)]) [0..<count])
       [(1, 5), (14, 6), (28, 2)])"

definition char_from_u16 :: "u16 \<Rightarrow> u8 list" where
  "char_from_u16 c = (if 0xD800 \<le> c \<and> c \<le> 0xDFFF then [63] else encode_utf8 (ucast c))"

definition lfn_name :: "u16 list list \<Rightarrow> u8 list" where
  "lfn_name chunks =
     concat (map (\<lambda>chunk. concat (map char_from_u16 (takeWhile (\<lambda>c. c \<noteq> 0 \<and> c \<noteq> 0xFFFF) chunk))) (rev chunks))"

text \<open>
  One directory entry: \<open>None\<close> at the end of the directory, otherwise the pending pieces of a long
  name and the file it describes, if any.
\<close>

definition dir_step :: "u8 list \<Rightarrow> u16 list list \<Rightarrow> (u16 list list \<times> fat_dirent list) option" where
  "dir_step raw lfn_chunks =
     (let first = raw ! 0; attr = raw ! 11
      in if first = 0x00 then None
         else if first = 0xE5 then Some ([], [])
         else if attr = ATTR_LFN then Some (lfn_chunks @ [lfn_chars raw], [])
         else if attr AND ATTR_VOLUME_ID \<noteq> 0 \<and> attr AND ATTR_DIRECTORY = 0 then Some ([], [])
         else if first = 46 then Some ([], [])
         else let name = (if lfn_chunks \<noteq> [] then lfn_name lfn_chunks else parse_83_name raw);
                  cluster_hi = ucast (from_le_bytes [raw ! 20, raw ! 21] :: u16) :: u32;
                  cluster_lo = ucast (from_le_bytes [raw ! 26, raw ! 27] :: u16) :: u32
              in Some ([], [\<lparr>fe_name = name, first_cluster = push_bit 16 cluster_hi OR cluster_lo,
                   file_size = from_le_bytes [raw ! 28, raw ! 29, raw ! 30, raw ! 31],
                   fe_is_dir = (attr AND ATTR_DIRECTORY \<noteq> 0)\<rparr>]))"

fun scan_entries ::
  "u8 list list \<Rightarrow> u16 list list \<Rightarrow> fat_dirent list \<Rightarrow> bool \<times> u16 list list \<times> fat_dirent list" where
  "scan_entries [] lfn acc = (False, lfn, acc)"
| "scan_entries (raw # raws) lfn acc =
     (case dir_step raw lfn of
        None \<Rightarrow> (True, lfn, acc)
      | Some (lfn1, es) \<Rightarrow> scan_entries raws lfn1 (acc @ es))"

definition raw_entries :: "nat \<Rightarrow> u8 list \<Rightarrow> u8 list list" where
  "raw_entries cs buf = map (\<lambda>e. take 32 (drop (e * 32) buf)) [0..<cs div 32]"

fun scan_clusters ::
  "'d bus \<Rightarrow> drive list \<Rightarrow> fat32_ctx \<Rightarrow> u32 list \<Rightarrow> u8 list \<Rightarrow> u16 list list \<Rightarrow> fat_dirent list \<Rightarrow> ('d, fat_dirent list) op" where
  "scan_clusters B Ds cx [] buf lfn acc d = (Ok acc, d)"
| "scan_clusters B Ds cx (c # chain) buf lfn acc d =
     (case read_cluster B Ds cx c buf d of
        (Panic, d1) \<Rightarrow> (Panic, d1)
      | (Err e, d1) \<Rightarrow> (Err e, d1)
      | (Ok buf1, d1) \<Rightarrow>
          (case scan_entries (raw_entries (cluster_bytes cx) buf1) lfn acc of
             (True, lfn1, acc1) \<Rightarrow> (Ok acc1, d1)
           | (False, lfn1, acc1) \<Rightarrow> scan_clusters B Ds cx chain buf1 lfn1 acc1 d1))"

definition read_dir_entries :: "'d bus \<Rightarrow> drive list \<Rightarrow> fat32_ctx \<Rightarrow> u32 \<Rightarrow> ('d, fat_dirent list) op" where
  "read_dir_entries B Ds cx start_cluster =
     bindE (cluster_chain B Ds cx start_cluster)
       (\<lambda>chain. scan_clusters B Ds cx chain (replicate (cluster_bytes cx) 0) [] [])"

section \<open>File contents\<close>

text \<open>
  \<open>Fat32FileInode::read\<close>: the loop over the chain, from its element \<open>i\<close> on.  The positions in a file
  stay below the product of the longest chain and the largest cluster, so they are natural numbers.
\<close>

definition copy_part :: "nat \<Rightarrow> nat \<Rightarrow> nat \<Rightarrow> nat \<Rightarrow> nat \<times> nat \<times> nat" where
  "copy_part cs offset to_read cluster_start =
     (let cluster_end = cluster_start + cs;
          in_start = (if cluster_start < offset then offset - cluster_start else 0);
          in_end = min (offset + to_read) cluster_end - cluster_start;
          dst = cluster_start + in_start - offset;
          len = in_end - in_start
      in (in_start, dst, len))"

fun read_loop ::
  "'d bus \<Rightarrow> drive list \<Rightarrow> fat32_ctx \<Rightarrow> nat \<Rightarrow> nat \<Rightarrow> nat \<Rightarrow> u32 list \<Rightarrow> u8 list \<Rightarrow> u8 list \<Rightarrow> nat
   \<Rightarrow> ('d, nat \<times> u8 list) op" where
  "read_loop B Ds cx offset to_read i [] cluster_buf buf finished d = (Ok (finished, buf), d)"
| "read_loop B Ds cx offset to_read i (c # chain) cluster_buf buf finished d =
     (if i * cluster_bytes cx + cluster_bytes cx \<le> offset
      then read_loop B Ds cx offset to_read (i + 1) chain cluster_buf buf finished d
      else if offset + to_read \<le> i * cluster_bytes cx then (Ok (finished, buf), d)
      else case read_cluster B Ds cx c cluster_buf d of
        (Panic, d1) \<Rightarrow> (Panic, d1)
      | (Err e, d1) \<Rightarrow> (Err e, d1)
      | (Ok cluster_buf1, d1) \<Rightarrow>
          (case copy_part (cluster_bytes cx) offset to_read (i * cluster_bytes cx) of
             (in_start, dst, len) \<Rightarrow>
               read_loop B Ds cx offset to_read (i + 1) chain cluster_buf1
                 (put_bytes dst (take len (drop in_start cluster_buf1)) buf) (finished + len) d1))"

definition fat_file_read ::
  "'d bus \<Rightarrow> drive list \<Rightarrow> fat32_ctx \<Rightarrow> u32 \<Rightarrow> u32 \<Rightarrow> u64 \<Rightarrow> u8 list \<Rightarrow> ('d, nat \<times> u8 list) op" where
  "fat_file_read B Ds cx cluster fsize offset buf =
     (if ucast fsize \<le> offset \<or> buf = [] then okE (0, buf)
      else let to_read = min (length buf) (unat fsize - unat offset)
           in bindE (cluster_chain B Ds cx cluster)
                (\<lambda>chain. read_loop B Ds cx (unat offset) to_read 0 chain (replicate (cluster_bytes cx) 0) buf 0))"

section \<open>The boot sector\<close>

definition parse_bpb :: "nat \<Rightarrow> u64 \<Rightarrow> u8 list \<Rightarrow> fat32_ctx option" where
  "parse_bpb drv plba sector =
     (let bps = from_le_bytes [sector ! 11, sector ! 12] :: u16;
          sectors_per = ucast (sector ! 13) :: u64;
          reserved_sectors = ucast (from_le_bytes [sector ! 14, sector ! 15] :: u16) :: u64;
          num_fats = ucast (sector ! 16) :: u64;
          fat_size_16 = from_le_bytes [sector ! 22, sector ! 23] :: u16;
          fat_size_32 = ucast (from_le_bytes (map (\<lambda>k. sector ! k) [36, 37, 38, 39]) :: u32) :: u64;
          root = from_le_bytes (map (\<lambda>k. sector ! k) [44, 45, 46, 47]) :: u32;
          fat = plba + reserved_sectors
      in if sector ! 510 \<noteq> 0x55 \<or> sector ! 511 \<noteq> 0xAA then None
         else if bps \<noteq> 512 then None
         else if fat_size_16 \<noteq> 0 \<or> fat_size_32 = 0 \<or> sectors_per = 0 then None
         else if take 5 (drop 82 sector) \<noteq> str ''FAT32'' then None
         else Some \<lparr>fx_drive = drv, part_lba = plba, spc = sectors_per, fat_start = fat,
                data_start = fat + num_fats * fat_size_32, root_cluster = root\<rparr>)"

definition fat32_probe_ctx :: "'d bus \<Rightarrow> drive list \<Rightarrow> nat \<Rightarrow> u64 \<Rightarrow> ('d, fat32_ctx option) op" where
  "fat32_probe_ctx B Ds drv plba d =
     (case disk_read B Ds drv plba 1 (replicate 512 0) d of
        (Panic, d1) \<Rightarrow> (Panic, d1)
      | (Err _, d1) \<Rightarrow> (Ok None, d1)
      | (Ok sector, d1) \<Rightarrow> (Ok (parse_bpb drv plba sector), d1))"

fun probe_parts :: "'d bus \<Rightarrow> drive list \<Rightarrow> nat \<Rightarrow> partition list \<Rightarrow> ('d, fat32_ctx option) op" where
  "probe_parts B Ds drv [] d = fat32_probe_ctx B Ds drv 0 d"
| "probe_parts B Ds drv (p # ps) d =
     (if is_fat32 p
      then case fat32_probe_ctx B Ds drv (lba_start p) d of
        (Ok None, d1) \<Rightarrow> probe_parts B Ds drv ps d1
      | r \<Rightarrow> r
      else probe_parts B Ds drv ps d)"

text \<open>\<open>probe_drive\<close> up to the creation of the root inode: the partitions first, then block zero.\<close>

definition probe_drive_ctx :: "'d bus \<Rightarrow> drive list \<Rightarrow> nat \<Rightarrow> ('d, fat32_ctx option) op" where
  "probe_drive_ctx B Ds drv =
     bindE (mbr_read B Ds drv)
       (\<lambda>r. case r of
          None \<Rightarrow> fat32_probe_ctx B Ds drv 0
        | Some parts \<Rightarrow> probe_parts B Ds drv (concat (map (\<lambda>p. case p of None \<Rightarrow> [] | Some q \<Rightarrow> [q]) parts)))"

section \<open>The disk\<close>

text \<open>
  A device that works: whatever is asked of it, it answers with the blocks \<open>D\<close> of a fixed disk and
  stays in the states \<open>I\<close> in which it does.
\<close>

definition sectors_of :: "(u64 \<Rightarrow> u8 list) \<Rightarrow> u64 \<Rightarrow> nat \<Rightarrow> u8 list" where
  "sectors_of D lba n = concat (map (\<lambda>i. D (lba + of_nat i)) [0..<n])"

definition serves :: "'d bus \<Rightarrow> drive list \<Rightarrow> nat \<Rightarrow> (u64 \<Rightarrow> u8 list) \<Rightarrow> ('d \<Rightarrow> bool) \<Rightarrow> bool" where
  "serves B Ds drv D I \<longleftrightarrow> (\<forall>lba. length (D lba) = 512) \<and>
     (\<forall>d lba n buf. I d \<and> length buf = unat n * 512 \<longrightarrow>
        (\<exists>d'. I d' \<and> disk_read B Ds drv lba n buf d = (Ok (sectors_of D lba (unat n)), d')))"

definition cluster_data :: "(u64 \<Rightarrow> u8 list) \<Rightarrow> fat32_ctx \<Rightarrow> u32 \<Rightarrow> u8 list" where
  "cluster_data D cx c = sectors_of D (cluster_lba cx c) (unat (spc cx))"

definition fat_next :: "(u64 \<Rightarrow> u8 list) \<Rightarrow> fat32_ctx \<Rightarrow> u32 \<Rightarrow> u32 option" where
  "fat_next D cx c = fat_entry c (D (fat_start cx + (ucast c * 4) div 512))"

text \<open>The clusters from \<open>c\<close> on, as the allocation table links them.\<close>

fun is_chain :: "(u64 \<Rightarrow> u8 list) \<Rightarrow> fat32_ctx \<Rightarrow> u32 \<Rightarrow> u32 list \<Rightarrow> bool" where
  "is_chain D cx c [] \<longleftrightarrow> c < 2"
| "is_chain D cx c (x # xs) \<longleftrightarrow> x = c \<and> 2 \<le> c \<and>
     (case fat_next D cx c of None \<Rightarrow> xs = [] | Some n \<Rightarrow> is_chain D cx n xs)"

lemma length_sectors_of: "(\<And>lba. length (D lba) = 512) \<Longrightarrow> length (sectors_of D lba n) = n * 512"
  by (induction n) (simp_all add: sectors_of_def)

lemma sectors_of_one: "sectors_of D lba 1 = D lba"
  by (simp add: sectors_of_def)

lemma servesD:
  assumes "serves B Ds drv D I" "I d" "length buf = unat n * 512"
  shows "\<exists>d'. I d' \<and> disk_read B Ds drv lba n buf d = (Ok (sectors_of D lba (unat n)), d')"
  using assms unfolding serves_def by blast

lemma read_cluster_serves:
  assumes "serves B Ds (fx_drive cx) D I" "I d" "length buf = cluster_bytes cx" "unat (spc cx) < 2 ^ 16"
  shows "\<exists>d'. I d' \<and> read_cluster B Ds cx c buf d = (Ok (cluster_data D cx c), d')"
proof -
  have "unat (ucast (spc cx) :: u16) = unat (spc cx)" using assms(4) by (simp add: unsigned_ucast_eq take_bit_nat_eq_self)
  then show ?thesis
    using servesD [OF assms(1,2), of buf "ucast (spc cx)" "cluster_lba cx c"] assms(3)
    by (simp add: read_cluster_def cluster_data_def cluster_bytes_def)
qed

lemma length_cluster_data: "serves B Ds (fx_drive cx) D I \<Longrightarrow> length (cluster_data D cx c) = cluster_bytes cx"
  by (simp add: serves_def cluster_data_def cluster_bytes_def length_sectors_of)

lemma next_cluster_serves:
  assumes "serves B Ds (fx_drive cx) D I" "I d"
  shows "\<exists>d'. I d' \<and> next_cluster B Ds cx c d = (Ok (fat_next D cx c), d')"
proof -
  obtain d' where "I d'" "disk_read B Ds (fx_drive cx) (fat_start cx + (ucast c * 4) div 512) 1 (replicate 512 0) d =
      (Ok (sectors_of D (fat_start cx + (ucast c * 4) div 512) (unat (1 :: u16))), d')"
    using servesD [OF assms, of "replicate 512 0" 1] by auto
  then show ?thesis by (auto simp: next_cluster_def fat_next_def sectors_of_one [unfolded One_nat_def])
qed

section \<open>Chains\<close>

declare chain_from.simps [simp del]

lemma chain_from_serves:
  assumes s: "serves B Ds (fx_drive cx) D I"
  shows "is_chain D cx c chain \<Longrightarrow> k + length chain \<le> 1000001 \<Longrightarrow> I d \<Longrightarrow>
    \<exists>d'. I d' \<and> chain_from B Ds cx k c d = (Ok chain, d')"
proof (induction chain arbitrary: c k d)
  case Nil
  then show ?case by (simp add: chain_from.simps)
next
  case (Cons x xs)
  then have x: "x = c" "2 \<le> c" by simp_all
  then have c: "\<not> c < 2" by simp
  obtain d1 where d1: "I d1" "next_cluster B Ds cx c d = (Ok (fat_next D cx c), d1)"
    using next_cluster_serves [OF s Cons.prems(3)] by blast
  show ?case
  proof (cases "fat_next D cx c")
    case None
    then show ?thesis using Cons.prems(1) d1 c by (auto simp: chain_from.simps [of B Ds cx k c d])
  next
    case (Some n)
    then have xs: "is_chain D cx n xs" using Cons.prems(1) by simp
    show ?thesis
    proof (cases "xs = []")
      case True
      then have "n < 2" using xs by simp
      then show ?thesis using Some True d1 c x by (auto simp: chain_from.simps [of B Ds cx k c d] chain_from.simps [of B Ds cx "Suc k" n])
    next
      case False
      then have "Suc k + length xs \<le> 1000001" "0 < length xs" using Cons.prems(2) by simp_all
      then have k: "Suc k \<le> 1000000" by linarith
      obtain d2 where "I d2" "chain_from B Ds cx (Suc k) n d1 = (Ok xs, d2)"
        using Cons.IH [OF xs _ d1(1), of "Suc k"] Cons.prems(2) by auto
      then show ?thesis using Some d1 c x k by (auto simp: chain_from.simps [of B Ds cx k c d])
    qed
  qed
qed

lemma chain_from_bounded:
  "chain_from B Ds cx k c d = (Ok chain, d') \<Longrightarrow> k \<le> 1000000 \<Longrightarrow> length chain + k \<le> 1000001 \<and> (\<forall>x\<in>set chain. 2 \<le> x)"
proof (induction B Ds cx k c d arbitrary: chain d' rule: chain_from.induct)
  case (1 B Ds cx k c d)
  show ?case
  proof (cases "c < 2")
    case True
    then show ?thesis using "1.prems" by (simp add: chain_from.simps)
  next
    case c: False
    then show ?thesis
      using "1.prems" "1.IH" [OF c]
      by (fastforce simp: chain_from.simps [of B Ds cx k c d] split: prod.splits res.splits option.splits if_splits)
  qed
qed

section \<open>Reading\<close>

lemma length_put_bytes: "off + length bs \<le> length buf \<Longrightarrow> length (put_bytes off bs buf) = length buf"
  by (simp add: put_bytes_def)

lemma nth_put_bytes:
  "off + length bs \<le> length buf \<Longrightarrow> k < length buf \<Longrightarrow>
     put_bytes off bs buf ! k = (if off \<le> k \<and> k < off + length bs then bs ! (k - off) else buf ! k)"
  by (auto simp: put_bytes_def nth_append min_def)

text \<open>The part of one cluster that belongs to the request.\<close>

lemma copy_part_eq:
  assumes "off < lo + cs" "lo < off + n" "copy_part cs off n lo = (a, dst, len)"
  shows "a = max off lo - lo" "dst = max off lo - off" "len = min (off + n) (lo + cs) - max off lo"
  using assms by (auto simp: copy_part_def Let_def max_def split: if_splits)

lemma copied_byte:
  assumes "off < lo + cs" "lo < off + n" "copy_part cs off n lo = (a, dst, len)" "length x = cs" "n \<le> length buf"
  shows "length (put_bytes dst (take len (drop a x)) buf) = length buf"
    "k < length buf \<Longrightarrow> put_bytes dst (take len (drop a x)) buf ! k =
       (if lo \<le> off + k \<and> off + k < min (off + n) (lo + cs) then x ! (off + k - lo) else buf ! k)"
proof -
  note e = copy_part_eq [OF assms(1-3)]
  have al: "a + len \<le> cs" "dst + len \<le> n" unfolding e using assms(1,2) by (auto simp: min_def max_def)
  then have l: "length (take len (drop a x)) = len" "dst + len \<le> length buf" using assms(4,5) by simp_all
  then show "length (put_bytes dst (take len (drop a x)) buf) = length buf" by (simp add: length_put_bytes)
  assume k: "k < length buf"
  have "dst \<le> k \<and> k < dst + len \<longleftrightarrow> lo \<le> off + k \<and> off + k < min (off + n) (lo + cs)"
    unfolding e using assms(1,2) by (auto simp: min_def max_def)
  moreover have "take len (drop a x) ! (k - dst) = x ! (off + k - lo)" if "dst \<le> k" "k < dst + len"
  proof -
    have "a + (k - dst) = off + k - lo" using that(1) unfolding e by (auto simp: max_def)
    moreover have "k - dst < len" "a + (k - dst) < length x" using that al assms(4) by linarith+
    ultimately show ?thesis using l by (simp add: nth_drop)
  qed
  ultimately show "put_bytes dst (take len (drop a x)) buf ! k =
      (if lo \<le> off + k \<and> off + k < min (off + n) (lo + cs) then x ! (off + k - lo) else buf ! k)"
    using nth_put_bytes [of dst "take len (drop a x)" buf k] l k by auto
qed

lemma read_loop_serves:
  assumes s: "serves B Ds (fx_drive cx) D I" and spc: "unat (spc cx) < 2 ^ 16"
  defines "cs \<equiv> cluster_bytes cx"
  shows "I d \<Longrightarrow> length cbuf = cs \<Longrightarrow> n \<le> length buf \<Longrightarrow> lo = i * cs \<Longrightarrow> tot = lo + length chain * cs \<Longrightarrow>
    \<exists>d' buf'. I d' \<and> read_loop B Ds cx off n i chain cbuf buf fin d = (Ok (fin + (min (off + n) tot - max off lo), buf'), d') \<and>
      length buf' = length buf \<and>
      (\<forall>k<length buf. buf' ! k = (if lo \<le> off + k \<and> off + k < min (off + n) tot
         then concat (map (cluster_data D cx) chain) ! (off + k - lo) else buf ! k))"
proof (induction chain arbitrary: i cbuf buf fin d lo)
  case Nil
  then show ?case by auto
next
  case (Cons c chain)
  let ?x = "cluster_data D cx c"
  have x: "length ?x = cs" using length_cluster_data [OF s] by (simp add: cs_def)
  have hi: "lo + cs = (i + 1) * cs" "tot = lo + cs + length chain * cs" using Cons.prems(4,5) by simp_all
  have lo: "i * cluster_bytes cx = lo" using Cons.prems(4) by (simp add: cs_def)
  have tail: "concat (map (cluster_data D cx) (c # chain)) ! (off + k - lo) =
      (if off + k < lo + cs then ?x ! (off + k - lo) else concat (map (cluster_data D cx) chain) ! (off + k - (lo + cs)))"
    if "lo \<le> off + k" for k
  proof -
    have "off + k - lo < cs \<longleftrightarrow> off + k < lo + cs" "off + k - lo - cs = off + k - (lo + cs)" using that by arith+
    then show ?thesis by (simp add: nth_append x)
  qed
  consider (skip) "lo + cs \<le> off" | (past) "\<not> lo + cs \<le> off" "off + n \<le> lo" | (copy) "off < lo + cs" "lo < off + n" by linarith
  then show ?case
  proof cases
    case skip
    then show ?thesis
      using Cons.IH [OF Cons.prems(1-3) hi, of fin] lo tail by (auto simp: cs_def)
  next
    case past
    then show ?thesis using Cons.prems(1) lo by (auto simp: cs_def)
  next
    case copy
    obtain a dst len where cp: "copy_part cs off n lo = (a, dst, len)" by (metis prod_cases3)
    note e = copy_part_eq [OF copy cp] and b = copied_byte [OF copy cp x Cons.prems(3)]
    obtain d1 where d1: "I d1" "read_cluster B Ds cx c cbuf d = (Ok ?x, d1)"
      using read_cluster_serves [OF s Cons.prems(1) _ spc] Cons.prems(2) by (auto simp: cs_def)
    have nb: "n \<le> length (put_bytes dst (take len (drop a ?x)) buf)" using Cons.prems(3) b(1) by simp
    have st: "read_loop B Ds cx off n i (c # chain) cbuf buf fin d =
        read_loop B Ds cx off n (i + 1) chain ?x (put_bytes dst (take len (drop a ?x)) buf) (fin + len) d1"
      using copy d1(2) cp lo by (simp add: cs_def)
    obtain d2 buf2 where d2: "I d2" "read_loop B Ds cx off n i (c # chain) cbuf buf fin d =
        (Ok (fin + len + (min (off + n) tot - max off (lo + cs)), buf2), d2)" "length buf2 = length buf"
      "\<And>k. k < length buf \<Longrightarrow> buf2 ! k = (if lo + cs \<le> off + k \<and> off + k < min (off + n) tot
         then concat (map (cluster_data D cx) chain) ! (off + k - (lo + cs)) else put_bytes dst (take len (drop a ?x)) buf ! k)"
      using Cons.IH [OF d1(1) x nb hi, of "fin + len"] b(1) unfolding st by auto
    have "fin + len + (min (off + n) tot - max off (lo + cs)) = fin + (min (off + n) tot - max off lo)"
      using e(3) copy hi(2) by linarith
    moreover have "buf2 ! k = (if lo \<le> off + k \<and> off + k < min (off + n) tot
         then concat (map (cluster_data D cx) (c # chain)) ! (off + k - lo) else buf ! k)" if "k < length buf" for k
      using d2(4) [OF that] b(2) [OF that] tail [of k] hi(2) by auto
    ultimately show ?thesis using d2(1-3) by auto
  qed
qed

lemma unat_u32_u64: "unat (ucast (x :: u32) :: u64) = unat x"
proof -
  have "unat x < 2 ^ 32" using unsigned_less [of x] by simp
  then have "unat x < 2 ^ 64" by (rule less_trans) simp
  then show ?thesis by (simp add: unsigned_ucast_eq take_bit_nat_eq_self)
qed

lemma fat_file_read_serves:
  assumes s: "serves B Ds (fx_drive cx) D I" "unat (spc cx) < 2 ^ 16" and ch: "is_chain D cx c chain" "length chain \<le> 1000001"
    and sz: "unat fsize \<le> length chain * cluster_bytes cx" and d: "I d"
    and n: "n = min (length buf) (unat fsize - unat off)"
  shows "\<exists>d'. I d' \<and> fat_file_read B Ds cx c fsize off buf d =
    (Ok (n, take n (drop (unat off) (concat (map (cluster_data D cx) chain))) @ drop n buf), d')"
proof (cases "ucast fsize \<le> off \<or> buf = []")
  case True
  have "unat fsize \<le> unat off \<or> buf = []" using True by (auto simp: word_le_nat_alt unat_u32_u64)
  then have "n = 0" using n by auto
  then show ?thesis using True d by (auto simp: fat_file_read_def)
next
  case False
  let ?data = "concat (map (cluster_data D cx) chain)" and ?o = "unat off"
  have lt: "?o < unat fsize" using False by (simp add: word_le_nat_alt not_le unat_u32_u64)
  have ld: "length ?data = length chain * cluster_bytes cx"
    by (induction chain) (simp_all add: length_cluster_data [OF s(1)])
  obtain d1 where d1: "I d1" "cluster_chain B Ds cx c d = (Ok chain, d1)"
    using chain_from_serves [OF s(1) ch(1) _ d, of 0] ch(2) by (auto simp: cluster_chain_def)
  have nb: "n \<le> length buf" "?o + n \<le> length chain * cluster_bytes cx" using n lt sz by auto
  obtain d2 buf2 where d2: "I d2" "read_loop B Ds cx ?o n 0 chain (replicate (cluster_bytes cx) 0) buf 0 d1 = (Ok (n, buf2), d2)"
    "length buf2 = length buf" "\<And>k. k < length buf \<Longrightarrow> buf2 ! k = (if k < n then ?data ! (?o + k) else buf ! k)"
    using read_loop_serves [OF s d1(1) _ nb(1), of "replicate (cluster_bytes cx) 0" 0 0 "length chain * cluster_bytes cx" chain ?o 0] nb(2)
    by (auto simp: min_def)
  have "buf2 = take n (drop ?o ?data) @ drop n buf"
  proof (rule nth_equalityI)
    have l: "length (take n (drop ?o ?data)) = n" using nb(2) ld by simp
    then show "length buf2 = length (take n (drop ?o ?data) @ drop n buf)" using d2(3) nb(1) by (simp only: length_append length_drop)
    fix k assume "k < length buf2"
    then show "buf2 ! k = (take n (drop ?o ?data) @ drop n buf) ! k"
      using d2(3) d2(4) [of k] l ld nb by (simp add: nth_append del: length_take)
  qed
  then show ?thesis using False d1 d2(1,2) n by (auto simp: fat_file_read_def Let_def)
qed

section \<open>An example\<close>

text \<open>A drive all of whose words are \<open>w\<close>.\<close>

definition const_bus :: "u16 \<Rightarrow> unit bus" where
  "const_bus w = \<lparr>b_inb = (\<lambda>p d. (0x48, d)), b_outb = (\<lambda>p v d. d), b_inw = (\<lambda>p d. (w, d)),
     b_outw = (\<lambda>p v d. d), b_inl = (\<lambda>p d. (0, d)), b_outl = (\<lambda>p v d. d)\<rparr>"

lemma const_bsy: "run_state (wait_bsy (const_bus w) base) s = (True, ())"
proof -
  have "run_state (wait_bsy_loop (const_bus w) base (Suc n)) s = (True, ())" for n
    by (simp add: status_def const_bus_def SR_BSY_def)
  from this [of 99999] show ?thesis by (simp add: wait_bsy_def)
qed

lemma const_drq: "run_state (wait_drq (const_bus w) base) s = (Inr (), ())"
proof -
  have "run_state (wait_drq_loop (const_bus w) base (Suc n)) s = (Inr (), ())" for n
    by (simp add: status_def const_bus_def SR_ERR_def SR_DF_def SR_DRQ_def)
  from this [of 99999] show ?thesis by (simp add: wait_drq_def)
qed

lemma const_words: "run_state (io_map (\<lambda>_. inw (const_bus w) p) xs) s = (replicate (length xs) w, ())"
  by (induction xs) (simp_all add: split_beta const_bus_def)

lemma put_bytes_append:
  "off + length a + length b \<le> length buf \<Longrightarrow> put_bytes (off + length a) b (put_bytes off a buf) = put_bytes off (a @ b) buf"
  by (simp add: put_bytes_def ac_simps)

definition const_block :: "u16 \<Rightarrow> u8 list" where
  "const_block w = concat (replicate 256 (word_bytes w))"

lemma length_const_block [simp]: "length (const_block w) = 512"
  by (simp add: const_block_def length_concat sum_list_replicate word_bytes_def)

lemma set_const_block: "set (const_block w) \<subseteq> set (word_bytes w)"
  by (auto simp: const_block_def)

lemma const_read:
  "sec * 512 + n * 512 \<le> length buf \<Longrightarrow> run_state (read_secs (const_bus w) base ctrl sec n buf) s =
     ((Inr (), put_bytes (sec * 512) (concat (replicate n (const_block w))) buf), ())"
proof (induction n arbitrary: sec s buf)
  case 0
  then show ?case by (simp add: put_bytes_def)
next
  case (Suc n)
  let ?b = "put_bytes (sec * 512) (const_block w) buf"
  have b: "length ?b = length buf" using Suc.prems length_const_block by (intro length_put_bytes) simp
  have "run_state (read_secs (const_bus w) base ctrl sec (Suc n) buf) s = run_state (read_secs (const_bus w) base ctrl (Suc sec) n ?b) ()"
    by (simp add: split_beta const_bsy const_drq const_words SECTOR_SIZE_def const_block_def del: upt_rec_numeral)
  also have "\<dots> = ((Inr (), put_bytes (Suc sec * 512) (concat (replicate n (const_block w))) ?b), ())"
    by (rule Suc.IH) (use Suc.prems b in simp)
  also have "put_bytes (Suc sec * 512) (concat (replicate n (const_block w))) ?b =
      put_bytes (sec * 512) (concat (replicate (Suc n) (const_block w))) buf"
    using put_bytes_append [of "sec * 512" "const_block w" "concat (replicate n (const_block w))" buf] Suc.prems
    by (simp add: length_const_block length_concat sum_list_replicate add.commute)
  finally show ?case .
qed

lemma const_serves: "serves (const_bus w) [example_drive True] 0 (\<lambda>_. const_block w) (\<lambda>_. True)"
proof -
  have "put_bytes 0 (concat (replicate (unat n) (const_block w))) buf = sectors_of (\<lambda>_. const_block w) lba (unat n)"
    if "length buf = unat n * 512" for n :: u16 and buf lba
    using that by (simp add: put_bytes_def sectors_of_def length_concat sum_list_replicate length_const_block map_replicate_const
       )
  then show ?thesis
    using length_const_block
    by (auto simp: serves_def disk_read_def read_sectors_def read_lba48_def example_drive_def split_beta const_bsy
        const_read SECTOR_SIZE_def Let_def)
qed

definition example_ctx :: fat32_ctx where
  "example_ctx = \<lparr>fx_drive = 0, part_lba = 0, spc = 1, fat_start = 32, data_start = 64, root_cluster = 2\<rparr>"

lemma example_chain: "is_chain (\<lambda>_. const_block 0xFFFF) example_ctx 5 [5]"
proof -
  have b: "const_block 0xFFFF ! i = 0xFF" if "i < 512" for i
  proof -
    have "const_block 0xFFFF ! i \<in> set (const_block 0xFFFF)" using that by (intro nth_mem) (simp only: length_const_block)
    then show ?thesis using set_const_block [of "0xFFFF"] by (auto simp: word_bytes_def)
  qed
  have "fat_next (\<lambda>_. const_block 0xFFFF) example_ctx 5 = None"
    unfolding fat_next_def fat_entry_def Let_def by (subst b, simp)+ simp
  then show ?thesis by simp
qed

section \<open>Properties\<close>

text \<open>C39: \<open>cluster_chain\<close> ends on every disk, also on one whose allocation table runs in a circle: with
  any device and any answers it collects at most 1000001 clusters, none of them reserved.\<close>

theorem cluster_chain_ends:
  assumes "cluster_chain B Ds cx c d = (Ok chain, d')"
  shows "length chain \<le> 1000001 \<and> (\<forall>x\<in>set chain. 2 \<le> x)"
  using chain_from_bounded [of B Ds cx 0 c d chain d'] assms by (simp add: cluster_chain_def)

text \<open>C10: a read of a file on a working disk returns its bytes: from the given position as many as are
  asked for and left in the file, taken from the clusters in the order the allocation table links
  them.  The rest of the buffer is not touched.\<close>

theorem fat_file_read_correct:
  assumes "serves B Ds (fx_drive cx) D I" "unat (spc cx) < 2 ^ 16" "I d"
    and "is_chain D cx c chain" "length chain \<le> 1000001" "unat fsize \<le> length chain * cluster_bytes cx"
  shows "\<exists>d'. I d' \<and> fat_file_read B Ds cx c fsize offset buf d =
    (let n = min (length buf) (unat fsize - unat offset)
     in (Ok (n, take n (drop (unat offset) (concat (map (cluster_data D cx) chain))) @ drop n buf), d'))"
  using fat_file_read_serves [where buf = buf and off = offset, OF assms(1,2,4,5,6,3) refl] by (simp add: Let_def)

theorem cluster_chain_ends_witness:
  "\<exists>d'. cluster_chain (const_bus 0xFFFF) [example_drive True] example_ctx 5 () = (Ok [5], d') \<and> length [5 :: u32] \<le> 1000001"
proof -
  have s: "serves (const_bus 0xFFFF) [example_drive True] (fx_drive example_ctx) (\<lambda>_. const_block 0xFFFF) (\<lambda>_. True)"
    using const_serves by (simp add: example_ctx_def)
  obtain d' where r: "cluster_chain (const_bus 0xFFFF) [example_drive True] example_ctx 5 () = (Ok [5], d')"
    using chain_from_serves [OF s example_chain, where k = 0 and d = "()"] by (auto simp: cluster_chain_def)
  from cluster_chain_ends [OF r] show ?thesis using r by simp
qed

theorem fat_file_read_correct_witness:
  "\<exists>d'. fat_file_read (const_bus 0xFFFF) [example_drive True] example_ctx 5 300 298 [1, 2, 3] () = (Ok (2, [0xFF, 0xFF, 3]), d')"
proof -
  have s: "serves (const_bus 0xFFFF) [example_drive True] (fx_drive example_ctx) (\<lambda>_. const_block 0xFFFF) (\<lambda>_. True)"
    using const_serves by (simp add: example_ctx_def)
  have d: "cluster_data (\<lambda>_. const_block 0xFFFF) example_ctx 5 = replicate 512 0xFF"
  proof (rule replicate_eqI)
    have "cluster_data (\<lambda>_. const_block 0xFFFF) example_ctx 5 = const_block 0xFFFF"
      by (simp add: cluster_data_def sectors_of_def example_ctx_def)
    then show "length (cluster_data (\<lambda>_. const_block 0xFFFF) example_ctx 5) = 512"
      "\<And>y. y \<in> set (cluster_data (\<lambda>_. const_block 0xFFFF) example_ctx 5) \<Longrightarrow> y = 0xFF"
      using set_const_block [of "0xFFFF"] by (auto simp: word_bytes_def)
  qed
  show ?thesis
    using fat_file_read_correct [where fsize = 300 and offset = 298 and buf = "[1, 2, 3]", OF s _ _ example_chain, of "()"] d
    by (simp add: Let_def cluster_bytes_def example_ctx_def)
qed

end
