(* ===== verification/Inodes.thy ===== *)
theory Inodes
  imports Fat32 "HOL-Library.List_Lexorder"
begin

text \<open>
  Inodes (the trait \<open>InodeOps\<close> of \<open>fs/vfs.rs\<close>) and who implements it: the directories, files and links
  of the memory file system (\<open>fs/ramfs.rs\<close>) and the inodes of the FAT32 driver (\<open>fs/fat32.rs\<close>).  A
  shared inode is an index into the list of all inodes ever made, and a call through the trait is a
  case distinction on the inode.  A directory in memory is the sorted list of its entries.
\<close>

unbundle bit_operations_syntax

section \<open>The store of inodes\<close>

datatype inode_ops =
    RamDir u64 u32 "(u8 list \<times> nat) list"
  | RamFile u64 u32 "u8 list"
  | RamSymlink u64 "u8 list"
  | Fat32DirInode fat32_ctx u32 u64
  | Fat32FileInode fat32_ctx u32 u32 u64

record 'd fs =
  NEXT_INO :: u64
  inodes :: "inode_ops list"
  dev :: 'd

definition alloc_ino :: "'d fs \<Rightarrow> u64 \<times> 'd fs" where
  "alloc_ino s = (NEXT_INO s, s\<lparr>NEXT_INO := NEXT_INO s + 1\<rparr>)"

definition inode_new :: "inode_ops \<Rightarrow> 'd fs \<Rightarrow> nat \<times> 'd fs" where
  "inode_new node s = (length (inodes s), s\<lparr>inodes := inodes s @ [node]\<rparr>)"

definition set_inode :: "nat \<Rightarrow> inode_ops \<Rightarrow> 'd fs \<Rightarrow> 'd fs" where
  "set_inode i node s = s\<lparr>inodes := (inodes s)[i := node]\<rparr>"

definition on_dev :: "('d, 'a) op \<Rightarrow> ('d fs, 'a) op" where
  "on_dev m s = (case m (dev s) of (r, d) \<Rightarrow> (r, s\<lparr>dev := d\<rparr>))"

text \<open>A \<open>BTreeMap\<close>: its entries in the order of their keys.\<close>

fun bt_insert :: "'k::linorder \<Rightarrow> 'v \<Rightarrow> ('k \<times> 'v) list \<Rightarrow> ('k \<times> 'v) list" where
  "bt_insert k v [] = [(k, v)]"
| "bt_insert k v ((k1, v1) # m) =
     (if k < k1 then (k, v) # (k1, v1) # m
      else if k = k1 then (k, v) # m else (k1, v1) # bt_insert k v m)"

definition bt_remove :: "'k \<Rightarrow> ('k \<times> 'v) list \<Rightarrow> ('k \<times> 'v) list" where
  "bt_remove k m = filter (\<lambda>e. fst e \<noteq> k) m"

section \<open>Status\<close>

fun node_stat :: "inode_ops \<Rightarrow> stat_t" where
  "node_stat (RamDir i m ch) =
     \<lparr>st_ino = i, st_kind = Directory, st_size = 0, st_mode = m, st_nlink = 2, st_uid = 0, st_gid = 0\<rparr>"
| "node_stat (RamFile i m bs) =
     \<lparr>st_ino = i, st_kind = Regular, st_size = of_nat (length bs), st_mode = m, st_nlink = 1, st_uid = 0, st_gid = 0\<rparr>"
| "node_stat (RamSymlink i tgt) =
     \<lparr>st_ino = i, st_kind = Symlink, st_size = of_nat (length tgt), st_mode = 0x1FF, st_nlink = 1, st_uid = 0, st_gid = 0\<rparr>"
| "node_stat (Fat32DirInode cx c i) =
     \<lparr>st_ino = i, st_kind = Directory, st_size = 0, st_mode = 0x16D, st_nlink = 2, st_uid = 0, st_gid = 0\<rparr>"
| "node_stat (Fat32FileInode cx c n i) =
     \<lparr>st_ino = i, st_kind = Regular, st_size = ucast n, st_mode = 0x124, st_nlink = 1, st_uid = 0, st_gid = 0\<rparr>"

definition inode_stat :: "'d fs \<Rightarrow> nat \<Rightarrow> stat_t" where
  "inode_stat s i = node_stat (inodes s ! i)"

definition is_dir :: "'d fs \<Rightarrow> nat \<Rightarrow> bool" where
  "is_dir s i \<longleftrightarrow> st_kind (inode_stat s i) = Directory"

definition is_file :: "'d fs \<Rightarrow> nat \<Rightarrow> bool" where
  "is_file s i \<longleftrightarrow> st_kind (inode_stat s i) = Regular"

definition is_symlink :: "'d fs \<Rightarrow> nat \<Rightarrow> bool" where
  "is_symlink s i \<longleftrightarrow> st_kind (inode_stat s i) = Symlink"

section \<open>Directories\<close>

definition ramdir_new_inode :: "u32 \<Rightarrow> 'd fs \<Rightarrow> nat \<times> 'd fs" where
  "ramdir_new_inode mode s = (case alloc_ino s of (i, s1) \<Rightarrow> inode_new (RamDir i mode []) s1)"

definition make_inode :: "fat32_ctx \<Rightarrow> fat_dirent \<Rightarrow> 'd fs \<Rightarrow> nat \<times> 'd fs" where
  "make_inode cx e s =
     (case alloc_ino s of (i, s1) \<Rightarrow>
        inode_new (if fe_is_dir e then Fat32DirInode cx (first_cluster e) i
                   else Fat32FileInode cx (first_cluster e) (file_size e) i) s1)"

definition fat_dir_lookup :: "'d bus \<Rightarrow> drive list \<Rightarrow> fat32_ctx \<Rightarrow> u32 \<Rightarrow> u8 list \<Rightarrow> ('d fs, nat) op" where
  "fat_dir_lookup B Ds cx c name =
     bindE (on_dev (read_dir_entries B Ds cx c))
       (\<lambda>entries s1. case find (\<lambda>e. map lower_byte (fe_name e) = map lower_byte name) entries of
          None \<Rightarrow> (Err Errno_ENOENT, s1)
        | Some e \<Rightarrow> (case make_inode cx e s1 of (j, s2) \<Rightarrow> (Ok j, s2)))"

definition lookup :: "'d bus \<Rightarrow> drive list \<Rightarrow> nat \<Rightarrow> u8 list \<Rightarrow> ('d fs, nat) op" where
  "lookup B Ds i name s =
     (case inodes s ! i of
        RamDir _ _ ch \<Rightarrow> ((case map_of ch name of None \<Rightarrow> Err Errno_ENOENT | Some j \<Rightarrow> Ok j), s)
      | Fat32DirInode cx c _ \<Rightarrow> fat_dir_lookup B Ds cx c name s
      | _ \<Rightarrow> (Err Errno_ENOTDIR, s))"

definition fat_dir_readdir :: "'d bus \<Rightarrow> drive list \<Rightarrow> fat32_ctx \<Rightarrow> u32 \<Rightarrow> nat \<Rightarrow> ('d fs, dir_entry option) op" where
  "fat_dir_readdir B Ds cx c off =
     bindE (on_dev (read_dir_entries B Ds cx c))
       (\<lambda>entries s1.
          if off < length entries
          then let e = entries ! off
               in case alloc_ino s1 of (ino, s2) \<Rightarrow>
                    (Ok (Some \<lparr>de_name = fe_name e, de_ino = ino,
                           de_kind = (if fe_is_dir e then Directory else Regular)\<rparr>), s2)
          else (Ok None, s1))"

definition readdir :: "'d bus \<Rightarrow> drive list \<Rightarrow> nat \<Rightarrow> nat \<Rightarrow> ('d fs, dir_entry option) op" where
  "readdir B Ds i off s =
     (case inodes s ! i of
        RamDir _ _ ch \<Rightarrow>
          (Ok (if off < length ch
               then case ch ! off of (n, j) \<Rightarrow>
                 Some \<lparr>de_name = n, de_ino = st_ino (inode_stat s j), de_kind = st_kind (inode_stat s j)\<rparr>
               else None), s)
      | Fat32DirInode cx c _ \<Rightarrow> fat_dir_readdir B Ds cx c off s
      | _ \<Rightarrow> (Err Errno_ENOTDIR, s))"

text \<open>A new entry of a directory in memory, for the three operations that make one.\<close>

definition add_child :: "nat \<Rightarrow> u8 list \<Rightarrow> (u64 \<Rightarrow> inode_ops) \<Rightarrow> ('d fs, nat) op" where
  "add_child i name mk s =
     (case inodes s ! i of
        RamDir ino m ch \<Rightarrow>
          if map_of ch name \<noteq> None then (Err Errno_EEXIST, s)
          else (case alloc_ino s of (new_ino, s1) \<Rightarrow>
                (case inode_new (mk new_ino) s1 of (j, s2) \<Rightarrow>
                  (Ok j, set_inode i (RamDir ino m (bt_insert name j ch)) s2)))
      | Fat32DirInode _ _ _ \<Rightarrow> (Err Errno_ENOTSUP, s)
      | _ \<Rightarrow> (Err Errno_ENOTDIR, s))"

definition create :: "nat \<Rightarrow> u8 list \<Rightarrow> u32 \<Rightarrow> ('d fs, nat) op" where
  "create i name mode = add_child i name (\<lambda>ino. RamFile ino mode [])"

definition inode_mkdir :: "nat \<Rightarrow> u8 list \<Rightarrow> u32 \<Rightarrow> ('d fs, nat) op" where
  "inode_mkdir i name mode = add_child i name (\<lambda>ino. RamDir ino mode [])"

definition inode_symlink :: "nat \<Rightarrow> u8 list \<Rightarrow> u8 list \<Rightarrow> ('d fs, nat) op" where
  "inode_symlink i name target = add_child i name (\<lambda>ino. RamSymlink ino target)"

definition inode_unlink :: "nat \<Rightarrow> u8 list \<Rightarrow> ('d fs, unit) op" where
  "inode_unlink i name s =
     (case inodes s ! i of
        RamDir ino m ch \<Rightarrow>
          (case map_of ch name of
             None \<Rightarrow> (Err Errno_ENOENT, s)
           | Some j \<Rightarrow>
               if is_dir s j then (Err Errno_EISDIR, s)
               else (Ok (), set_inode i (RamDir ino m (bt_remove name ch)) s))
      | Fat32DirInode _ _ _ \<Rightarrow> (Err Errno_ENOTSUP, s)
      | _ \<Rightarrow> (Err Errno_ENOTDIR, s))"

text \<open>\<open>rmdir\<close> of a directory listed in itself takes the lock it already holds.\<close>

definition inode_rmdir :: "'d bus \<Rightarrow> drive list \<Rightarrow> nat \<Rightarrow> u8 list \<Rightarrow> ('d fs, unit) op" where
  "inode_rmdir B Ds i name s =
     (case inodes s ! i of
        RamDir ino m ch \<Rightarrow>
          (case map_of ch name of
             None \<Rightarrow> (Err Errno_ENOENT, s)
           | Some j \<Rightarrow>
               if \<not> is_dir s j then (Err Errno_ENOTDIR, s)
               else if j = i then (Panic, s)
               else bindE (readdir B Ds j 0)
                      (\<lambda>r s1. if r \<noteq> None then (Err Errno_ENOTEMPTY, s1)
                             else (Ok (), set_inode i (RamDir ino m (bt_remove name ch)) s1)) s)
      | Fat32DirInode _ _ _ \<Rightarrow> (Err Errno_ENOTSUP, s)
      | _ \<Rightarrow> (Err Errno_ENOTDIR, s))"

definition insert_child :: "nat \<Rightarrow> u8 list \<Rightarrow> nat \<Rightarrow> ('d fs, unit) op" where
  "insert_child i name child s =
     (case inodes s ! i of
        RamDir ino m ch \<Rightarrow> (Ok (), set_inode i (RamDir ino m (bt_insert name child ch)) s)
      | Fat32DirInode _ _ _ \<Rightarrow> (Err Errno_ENOTSUP, s)
      | _ \<Rightarrow> (Err Errno_ENOTDIR, s))"

definition inode_rename :: "nat \<Rightarrow> u8 list \<Rightarrow> nat \<Rightarrow> u8 list \<Rightarrow> ('d fs, unit) op" where
  "inode_rename i old_name new_dir new_name s =
     (case inodes s ! i of
        RamDir ino m ch \<Rightarrow>
          (case map_of ch old_name of
             None \<Rightarrow> (Err Errno_ENOENT, s)
           | Some j \<Rightarrow> insert_child new_dir new_name j (set_inode i (RamDir ino m (bt_remove old_name ch)) s))
      | Fat32DirInode _ _ _ \<Rightarrow> (Err Errno_ENOTSUP, s)
      | _ \<Rightarrow> (Err Errno_ENOTDIR, s))"

section \<open>Contents\<close>

definition inode_readlink :: "nat \<Rightarrow> ('d fs, u8 list) op" where
  "inode_readlink i s =
     (case inodes s ! i of RamSymlink _ target \<Rightarrow> (Ok target, s) | _ \<Rightarrow> (Err Errno_EINVAL, s))"

definition inode_read :: "'d bus \<Rightarrow> drive list \<Rightarrow> nat \<Rightarrow> u64 \<Rightarrow> u8 list \<Rightarrow> ('d fs, nat \<times> u8 list) op" where
  "inode_read B Ds i offset buf s =
     (case inodes s ! i of
        RamDir _ _ _ \<Rightarrow> (Err Errno_EISDIR, s)
      | RamFile _ _ bs \<Rightarrow>
          (let off = unat offset
           in if length bs \<le> off then (Ok (0, buf), s)
              else let n = min (length bs - off) (length buf)
                   in (Ok (n, take n (drop off bs) @ drop n buf), s))
      | RamSymlink _ _ \<Rightarrow> (Err Errno_EINVAL, s)
      | Fat32DirInode _ _ _ \<Rightarrow> (Err Errno_EISDIR, s)
      | Fat32FileInode cx c n _ \<Rightarrow> on_dev (fat_file_read B Ds cx c n offset buf) s)"

text \<open>
  \<open>Vec::resize\<close> with zeros.  A length of \<open>2 ^ 63\<close> or more overflows the capacity, and an end of the
  written range past \<open>2 ^ 64\<close> wraps to before its start; both panic.
\<close>

definition resize :: "'a list \<Rightarrow> nat \<Rightarrow> 'a \<Rightarrow> 'a list" where
  "resize bs n x = take n bs @ replicate (n - length bs) x"

definition inode_write :: "nat \<Rightarrow> u64 \<Rightarrow> u8 list \<Rightarrow> ('d fs, nat) op" where
  "inode_write i offset buf s =
     (case inodes s ! i of
        RamDir _ _ _ \<Rightarrow> (Err Errno_EISDIR, s)
      | RamFile ino m bs \<Rightarrow>
          (let off = unat offset; e = off + length buf
           in if 2 ^ 63 \<le> e then (Panic, s)
              else let bs1 = (if length bs < e then resize bs e 0 else bs)
                   in (Ok (length buf), set_inode i (RamFile ino m (put_bytes off buf bs1)) s))
      | RamSymlink _ _ \<Rightarrow> (Err Errno_EINVAL, s)
      | _ \<Rightarrow> (Err Errno_ENOTSUP, s))"

definition inode_truncate :: "nat \<Rightarrow> u64 \<Rightarrow> ('d fs, unit) op" where
  "inode_truncate i n s =
     (case inodes s ! i of
        RamDir _ _ _ \<Rightarrow> (Err Errno_EISDIR, s)
      | RamFile ino m bs \<Rightarrow>
          (if 2 ^ 63 \<le> unat n then (Panic, s)
           else (Ok (), set_inode i (RamFile ino m (resize bs (unat n) 0)) s))
      | RamSymlink _ _ \<Rightarrow> (Err Errno_EINVAL, s)
      | _ \<Rightarrow> (Err Errno_ENOTSUP, s))"

section \<open>Open files\<close>

record open_file =
  f_inode :: nat
  f_offset :: u64
  f_flags :: u32

definition file_new :: "nat \<Rightarrow> u32 \<Rightarrow> open_file" where
  "file_new i fl = \<lparr>f_inode = i, f_offset = 0, f_flags = fl\<rparr>"

definition file_read :: "'d bus \<Rightarrow> drive list \<Rightarrow> open_file \<Rightarrow> u8 list \<Rightarrow> ('d fs, nat \<times> u8 list \<times> open_file) op" where
  "file_read B Ds f buf =
     bindE (inode_read B Ds (f_inode f) (f_offset f) buf)
       (\<lambda>(n, buf1). okE (n, buf1, f\<lparr>f_offset := f_offset f + of_nat n\<rparr>))"

definition file_write :: "open_file \<Rightarrow> u8 list \<Rightarrow> ('d fs, nat \<times> open_file) op" where
  "file_write f buf s =
     (let off = (if f_flags f AND O_APPEND \<noteq> 0 then st_size (inode_stat s (f_inode f)) else f_offset f)
      in bindE (inode_write (f_inode f) off buf)
           (\<lambda>n. okE (n, f\<lparr>f_offset := off + of_nat n\<rparr>)) s)"

definition seek_set :: "open_file \<Rightarrow> u64 \<Rightarrow> open_file" where
  "seek_set f pos = f\<lparr>f_offset := pos\<rparr>"

definition tell :: "open_file \<Rightarrow> u64" where
  "tell f = f_offset f"

definition readdir_next :: "'d bus \<Rightarrow> drive list \<Rightarrow> open_file \<Rightarrow> ('d fs, dir_entry option \<times> open_file) op" where
  "readdir_next B Ds f =
     bindE (readdir B Ds (f_inode f) (unat (f_offset f)))
       (\<lambda>e. okE (e, if e \<noteq> None then f\<lparr>f_offset := f_offset f + 1\<rparr> else f))"

section \<open>File systems\<close>

definition new_ramfs :: "'d fs \<Rightarrow> nat \<times> 'd fs" where
  "new_ramfs s = ramdir_new_inode 0x1ED s"

text \<open>\<open>probe_drive\<close> with the root inode of the file system it finds.\<close>

definition probe_drive :: "'d bus \<Rightarrow> drive list \<Rightarrow> nat \<Rightarrow> ('d fs, nat option) op" where
  "probe_drive B Ds drv =
     bindE (on_dev (probe_drive_ctx B Ds drv))
       (\<lambda>r s. case r of
          None \<Rightarrow> (Ok None, s)
        | Some cx \<Rightarrow>
            (case alloc_ino s of (ino, s1) \<Rightarrow>
             (case inode_new (Fat32DirInode cx (root_cluster cx) ino) s1 of (j, s2) \<Rightarrow> (Ok (Some j), s2))))"

end
