(* ===== verification/Mount.thy ===== *)
theory Mount
  imports Inodes "HOL-Library.Monad_Syntax"
begin

text \<open>
  Paths (\<open>fs/path.rs\<close>), the mount table and the operations on files by name (\<open>fs/mount.rs\<close>), and the
  initial contents of the root file system (\<open>fs/mod.rs\<close>).
\<close>

unbundle bit_operations_syntax

section \<open>Path strings\<close>

text \<open>The byte 47 is the slash.\<close>

fun split_slash :: "u8 list \<Rightarrow> u8 list list" where
  "split_slash [] = [[]]"
| "split_slash (b # bs) =
     (if b = 47 then [] # split_slash bs
      else case split_slash bs of [] \<Rightarrow> [[b]] | c # cs \<Rightarrow> (b # c) # cs)"

definition components :: "u8 list \<Rightarrow> u8 list list" where
  "components path = filter (\<lambda>c. c \<noteq> []) (split_slash path)"

definition starts_with_slash :: "u8 list \<Rightarrow> bool" where
  "starts_with_slash path \<longleftrightarrow> path \<noteq> [] \<and> hd path = 47"

definition trim_slashes :: "u8 list \<Rightarrow> u8 list" where
  "trim_slashes path = rev (dropWhile (\<lambda>b. b = 47) (rev path))"

definition split_last :: "u8 list \<Rightarrow> u8 list \<times> u8 list" where
  "split_last path0 =
     (let path = trim_slashes path0;
          name = rev (takeWhile (\<lambda>b. b \<noteq> 47) (rev path));
          i = length path - length name - 1
      in if 47 \<notin> set path then ([], path)
         else if i = 0 then ([47], name)
         else (take i path, name))"

section \<open>Resolution\<close>

text \<open>
  The loop of \<open>resolve_inner\<close> over the components that are left, from the inode \<open>cur\<close>.  Following a
  link is a call one level deeper; the call returns error 40 when its depth exceeds 40.
\<close>

function resolve_from ::
  "'d bus \<Rightarrow> drive list \<Rightarrow> nat \<Rightarrow> nat \<Rightarrow> u8 list list \<Rightarrow> nat \<Rightarrow> ('d fs, nat) op" where
  "resolve_from B Ds root cur [] depth s = (Ok cur, s)"
| "resolve_from B Ds root cur (c # cs) depth s =
     (if c = [46] then resolve_from B Ds root cur cs depth s
      else if c = [46, 46]
      then (case lookup B Ds cur [46, 46] s of
              (Ok up, s1) \<Rightarrow> resolve_from B Ds root up cs depth s1
            | (Err _, s1) \<Rightarrow> resolve_from B Ds root root cs depth s1
            | (Panic, s1) \<Rightarrow> (Panic, s1))
      else if \<not> is_dir s cur then (Err Errno_ENOTDIR, s)
      else case lookup B Ds cur c s of
        (Err e, s1) \<Rightarrow> (Err e, s1)
      | (Panic, s1) \<Rightarrow> (Panic, s1)
      | (Ok next, s1) \<Rightarrow>
          if is_symlink s1 next
          then (case inode_readlink next s1 of
                  (Err e, s2) \<Rightarrow> (Err e, s2)
                | (Panic, s2) \<Rightarrow> (Panic, s2)
                | (Ok target, s2) \<Rightarrow>
                    if depth + 1 > 40 then (Err (Errno 40), s2)
                    else case resolve_from B Ds root (if starts_with_slash target then root else cur)
                           (components target) (depth + 1) s2 of
                      (Err e, s3) \<Rightarrow> (Err e, s3)
                    | (Panic, s3) \<Rightarrow> (Panic, s3)
                    | (Ok cur1, s3) \<Rightarrow> resolve_from B Ds root cur1 cs depth s3)
          else resolve_from B Ds root next cs depth s1)"
  by pat_completeness auto
termination
  by (relation "measures [\<lambda>(B, Ds, root, cur, cs, depth, s). 41 - depth, \<lambda>(B, Ds, root, cur, cs, depth, s). length cs]") auto

definition resolve_inner :: "'d bus \<Rightarrow> drive list \<Rightarrow> nat \<Rightarrow> nat \<Rightarrow> u8 list \<Rightarrow> nat \<Rightarrow> ('d fs, nat) op" where
  "resolve_inner B Ds root cwd path depth =
     (if depth > 40 then errE (Errno 40)
      else resolve_from B Ds root (if starts_with_slash path then root else cwd) (components path) depth)"

definition path_resolve :: "'d bus \<Rightarrow> drive list \<Rightarrow> nat \<Rightarrow> nat \<Rightarrow> u8 list \<Rightarrow> ('d fs, nat) op" where
  "path_resolve B Ds root cwd path = resolve_inner B Ds root cwd path 0"

definition resolve_parent :: "'d bus \<Rightarrow> drive list \<Rightarrow> nat \<Rightarrow> nat \<Rightarrow> u8 list \<Rightarrow> ('d fs, nat \<times> u8 list) op" where
  "resolve_parent B Ds root cwd path =
     (case split_last path of (parent_path, name) \<Rightarrow>
        if parent_path = [] then okE (cwd, name)
        else bindE (path_resolve B Ds root cwd parent_path) (\<lambda>p. okE (p, name)))"

section \<open>The context\<close>

record vfs_context =
  vfs_root :: nat
  vfs_cwd :: nat
  cwd_path :: "u8 list"
  mounts :: "(u8 list \<times> nat) list"

definition vfs_new :: "nat \<Rightarrow> vfs_context" where
  "vfs_new root = \<lparr>vfs_root = root, vfs_cwd = root, cwd_path = [47], mounts = []\<rparr>"

definition make_absolute :: "vfs_context \<Rightarrow> u8 list \<Rightarrow> u8 list" where
  "make_absolute v path =
     (if starts_with_slash path then path
      else if cwd_path v = [47] then 47 # path
      else cwd_path v @ [47] @ path)"

fun find_mount :: "(u8 list \<times> nat) list \<Rightarrow> u8 list \<Rightarrow> (nat \<times> u8 list) option" where
  "find_mount [] ap = None"
| "find_mount ((mp, fs_root) # ms) ap =
     (if ap = mp then Some (fs_root, [])
      else if take (length mp + 1) ap = mp @ [47] then Some (fs_root, drop (length mp) ap)
      else find_mount ms ap)"

definition resolve_abs :: "'d bus \<Rightarrow> drive list \<Rightarrow> vfs_context \<Rightarrow> u8 list \<Rightarrow> ('d fs, nat) op" where
  "resolve_abs B Ds v ap =
     (case find_mount (mounts v) ap of
        Some (fs_root, []) \<Rightarrow> okE fs_root
      | Some (fs_root, rel) \<Rightarrow> path_resolve B Ds fs_root fs_root rel
      | None \<Rightarrow> path_resolve B Ds (vfs_root v) (vfs_cwd v) ap)"

definition vfs_resolve :: "'d bus \<Rightarrow> drive list \<Rightarrow> vfs_context \<Rightarrow> u8 list \<Rightarrow> ('d fs, nat) op" where
  "vfs_resolve B Ds v path = resolve_abs B Ds v (make_absolute v path)"

section \<open>Operations\<close>

definition vfs_parent :: "'d bus \<Rightarrow> drive list \<Rightarrow> vfs_context \<Rightarrow> u8 list \<Rightarrow> ('d fs, nat \<times> u8 list) op" where
  "vfs_parent B Ds v path = resolve_parent B Ds (vfs_root v) (vfs_cwd v) path"

definition vfs_open :: "'d bus \<Rightarrow> drive list \<Rightarrow> vfs_context \<Rightarrow> u8 list \<Rightarrow> u32 \<Rightarrow> ('d fs, open_file) op" where
  "vfs_open B Ds v path fl s =
     (case vfs_resolve B Ds v path s of
        (Ok i, s1) \<Rightarrow>
          (if fl AND O_CREAT \<noteq> 0 \<and> fl AND O_TRUNC \<noteq> 0
           then bindE (inode_truncate i 0) (\<lambda>_. okE (file_new i fl)) s1
           else (Ok (file_new i fl), s1))
      | (Err e, s1) \<Rightarrow>
          (if e = Errno_ENOENT \<and> fl AND O_CREAT \<noteq> 0
           then bindE (vfs_parent B Ds v (make_absolute v path))
                  (\<lambda>(p, name). bindE (create p name 0x1A4) (\<lambda>i. okE (file_new i fl))) s1
           else (Err e, s1))
      | (Panic, s1) \<Rightarrow> (Panic, s1))"

definition vfs_mkdir :: "'d bus \<Rightarrow> drive list \<Rightarrow> vfs_context \<Rightarrow> u8 list \<Rightarrow> ('d fs, unit) op" where
  "vfs_mkdir B Ds v path =
     bindE (vfs_parent B Ds v (make_absolute v path))
       (\<lambda>(p, name). bindE (inode_mkdir p name 0x1ED) (\<lambda>_. okE ()))"

fun mkdir_p_from :: "'d bus \<Rightarrow> drive list \<Rightarrow> nat \<Rightarrow> u8 list list \<Rightarrow> ('d fs, unit) op" where
  "mkdir_p_from B Ds cur [] s = (Ok (), s)"
| "mkdir_p_from B Ds cur (c # cs) s =
     (case lookup B Ds cur c s of
        (Ok next, s1) \<Rightarrow>
          if \<not> is_dir s1 next then (Err Errno_ENOTDIR, s1) else mkdir_p_from B Ds next cs s1
      | (Err e, s1) \<Rightarrow>
          (if e = Errno_ENOENT
           then case inode_mkdir cur c 0x1ED s1 of
                  (Ok next, s2) \<Rightarrow> mkdir_p_from B Ds next cs s2
                | (Err e, s2) \<Rightarrow> (Err e, s2)
                | (Panic, s2) \<Rightarrow> (Panic, s2)
           else (Err e, s1))
      | (Panic, s1) \<Rightarrow> (Panic, s1))"

definition mkdir_p :: "'d bus \<Rightarrow> drive list \<Rightarrow> vfs_context \<Rightarrow> u8 list \<Rightarrow> ('d fs, unit) op" where
  "mkdir_p B Ds v path =
     mkdir_p_from B Ds (if starts_with_slash path then vfs_root v else vfs_cwd v) (components path)"

text \<open>The mount table is kept with the longest mount points first.\<close>

fun insert_mount :: "u8 list \<times> nat \<Rightarrow> (u8 list \<times> nat) list \<Rightarrow> (u8 list \<times> nat) list" where
  "insert_mount m [] = [m]"
| "insert_mount m (x # xs) = (if length (fst x) < length (fst m) then m # x # xs else x # insert_mount m xs)"

definition mount_point :: "u8 list \<Rightarrow> u8 list" where
  "mount_point mp =
     (if mp \<noteq> [] \<and> last mp = 47 \<and> mp \<noteq> [47] then trim_slashes mp else mp)"

definition vfs_mount ::
  "'d bus \<Rightarrow> drive list \<Rightarrow> vfs_context \<Rightarrow> u8 list \<Rightarrow> nat \<Rightarrow> ('d fs, vfs_context) op" where
  "vfs_mount B Ds v mountpoint fs_root s =
     (let mp = mount_point mountpoint
      in case mkdir_p B Ds v mp s of
           (Panic, s1) \<Rightarrow> (Panic, s1)
         | (_, s1) \<Rightarrow> (Ok (v\<lparr>mounts := insert_mount (mp, fs_root) (mounts v)\<rparr>), s1))"

definition vfs_umount :: "vfs_context \<Rightarrow> u8 list \<Rightarrow> errno + unit \<times> vfs_context" where
  "vfs_umount v mountpoint =
     (let ms = filter (\<lambda>m. fst m \<noteq> mountpoint) (mounts v)
      in if length ms = length (mounts v) then Inl Errno_ENOENT else Inr ((), v\<lparr>mounts := ms\<rparr>))"

definition list_mounts :: "vfs_context \<Rightarrow> u8 list list" where
  "list_mounts v = map fst (mounts v)"

definition vfs_unlink :: "'d bus \<Rightarrow> drive list \<Rightarrow> vfs_context \<Rightarrow> u8 list \<Rightarrow> ('d fs, unit) op" where
  "vfs_unlink B Ds v path =
     bindE (vfs_parent B Ds v (make_absolute v path)) (\<lambda>(p, name). inode_unlink p name)"

definition vfs_rmdir :: "'d bus \<Rightarrow> drive list \<Rightarrow> vfs_context \<Rightarrow> u8 list \<Rightarrow> ('d fs, unit) op" where
  "vfs_rmdir B Ds v path =
     bindE (vfs_parent B Ds v (make_absolute v path)) (\<lambda>(p, name). inode_rmdir B Ds p name)"

definition vfs_rename :: "'d bus \<Rightarrow> drive list \<Rightarrow> vfs_context \<Rightarrow> u8 list \<Rightarrow> u8 list \<Rightarrow> ('d fs, unit) op" where
  "vfs_rename B Ds v old new =
     bindE (vfs_parent B Ds v old) (\<lambda>(old_parent, old_name).
     bindE (vfs_parent B Ds v new) (\<lambda>(new_parent, new_name).
     inode_rename old_parent old_name new_parent new_name))"

definition vfs_symlink :: "'d bus \<Rightarrow> drive list \<Rightarrow> vfs_context \<Rightarrow> u8 list \<Rightarrow> u8 list \<Rightarrow> ('d fs, unit) op" where
  "vfs_symlink B Ds v target link_path =
     bindE (vfs_parent B Ds v link_path)
       (\<lambda>(p, name). bindE (inode_symlink p name target) (\<lambda>_. okE ()))"

definition vfs_stat :: "'d bus \<Rightarrow> drive list \<Rightarrow> vfs_context \<Rightarrow> u8 list \<Rightarrow> ('d fs, stat_t) op" where
  "vfs_stat B Ds v path = bindE (vfs_resolve B Ds v path) (\<lambda>i s. (Ok (inode_stat s i), s))"

definition vfs_cd :: "'d bus \<Rightarrow> drive list \<Rightarrow> vfs_context \<Rightarrow> u8 list \<Rightarrow> ('d fs, vfs_context) op" where
  "vfs_cd B Ds v path =
     bindE (vfs_resolve B Ds v path)
       (\<lambda>i s. if \<not> is_dir s i then (Err Errno_ENOTDIR, s)
             else let ap = make_absolute v path
                  in (Ok (v\<lparr>vfs_cwd := i, cwd_path := (if ap = [47] then ap else trim_slashes ap)\<rparr>), s))"

text \<open>
  The loop of \<open>readdir_all\<close>.  A directory that never runs out of entries would keep it going, so it is
  partial.
\<close>

partial_function (option) readdir_loop ::
  "'d bus \<Rightarrow> drive list \<Rightarrow> open_file \<Rightarrow> dir_entry list \<Rightarrow> 'd fs \<Rightarrow> (dir_entry list res \<times> 'd fs) option" where
  "readdir_loop B Ds f entries s =
     (case readdir_next B Ds f s of
        (Ok (Some e, f1), s1) \<Rightarrow> readdir_loop B Ds f1 (entries @ [e]) s1
      | (Ok (None, f1), s1) \<Rightarrow> Some (Ok entries, s1)
      | (Err e, s1) \<Rightarrow> Some (Err e, s1)
      | (Panic, s1) \<Rightarrow> Some (Panic, s1))"

definition readdir_all ::
  "'d bus \<Rightarrow> drive list \<Rightarrow> vfs_context \<Rightarrow> u8 list \<Rightarrow> 'd fs \<Rightarrow> (dir_entry list res \<times> 'd fs) option" where
  "readdir_all B Ds v path s =
     (case vfs_resolve B Ds v path s of
        (Err e, s1) \<Rightarrow> Some (Err e, s1)
      | (Panic, s1) \<Rightarrow> Some (Panic, s1)
      | (Ok i, s1) \<Rightarrow>
          if \<not> is_dir s1 i then Some (Err Errno_ENOTDIR, s1)
          else readdir_loop B Ds (file_new i 0) [] s1)"

definition write_file :: "'d bus \<Rightarrow> drive list \<Rightarrow> vfs_context \<Rightarrow> u8 list \<Rightarrow> u8 list \<Rightarrow> ('d fs, unit) op" where
  "write_file B Ds v path bs =
     bindE (vfs_open B Ds v path (O_WRONLY OR O_CREAT OR O_TRUNC))
       (\<lambda>f. bindE (file_write f bs) (\<lambda>_. okE ()))"

function read_all :: "'d bus \<Rightarrow> drive list \<Rightarrow> open_file \<Rightarrow> nat \<Rightarrow> nat \<Rightarrow> u8 list \<Rightarrow> ('d fs, u8 list) op" where
  "read_all B Ds f fsize sofar buf s =
     (if sofar < fsize
      then case file_read B Ds f (drop sofar buf) s of
             (Ok (n, rest, f1), s1) \<Rightarrow>
               if n = 0 then (Ok (take sofar buf), s1)
               else read_all B Ds f1 fsize (sofar + n) (take sofar buf @ rest) s1
           | (Err e, s1) \<Rightarrow> (Err e, s1)
           | (Panic, s1) \<Rightarrow> (Panic, s1)
      else (Ok (take sofar buf), s))"
  by pat_completeness auto
termination
  by (relation "measure (\<lambda>(B, Ds, f, fsize, sofar, buf, s). fsize - sofar)") auto

definition read_file :: "'d bus \<Rightarrow> drive list \<Rightarrow> vfs_context \<Rightarrow> u8 list \<Rightarrow> ('d fs, u8 list) op" where
  "read_file B Ds v path =
     bindE (vfs_open B Ds v path 0)
       (\<lambda>f s. let fsize = unat (st_size (inode_stat s (f_inode f)))
             in read_all B Ds f fsize 0 (replicate fsize 0) s)"

section \<open>The root file system\<close>

text \<open>The executable installed as \<open>/bin/hello\<close>.\<close>

definition HELLO_ELF :: "u8 list" where
  "HELLO_ELF =
    [0x7f,0x45,0x4c,0x46, 0x02,0x01,0x01,0x00, 0x00,0x00,0x00,0x00,0x00,0x00,0x00,0x00,
     0x02,0x00, 0x3e,0x00, 0x01,0x00,0x00,0x00,
     0x78,0x00,0x40,0x00,0x00,0x00,0x00,0x00,
     0x40,0x00,0x00,0x00,0x00,0x00,0x00,0x00,
     0x00,0x00,0x00,0x00,0x00,0x00,0x00,0x00,
     0x00,0x00,0x00,0x00, 0x40,0x00, 0x38,0x00, 0x01,0x00, 0x40,0x00, 0x00,0x00, 0x00,0x00,
     0x01,0x00,0x00,0x00, 0x05,0x00,0x00,0x00,
     0x00,0x00,0x00,0x00,0x00,0x00,0x00,0x00,
     0x00,0x00,0x40,0x00,0x00,0x00,0x00,0x00,
     0x00,0x00,0x40,0x00,0x00,0x00,0x00,0x00,
     0xa9,0x00,0x00,0x00,0x00,0x00,0x00,0x00,
     0xa9,0x00,0x00,0x00,0x00,0x00,0x00,0x00,
     0x00,0x10,0x00,0x00,0x00,0x00,0x00,0x00,
     0x48,0xc7,0xc0,0x01,0x00,0x00,0x00,
     0x48,0xc7,0xc7,0x01,0x00,0x00,0x00,
     0x48,0x8d,0x35,0x15,0x00,0x00,0x00,
     0x48,0xc7,0xc2,0x07,0x00,0x00,0x00,
     0x0f,0x05,
     0x48,0xc7,0xc0,0x3c,0x00,0x00,0x00,
     0x48,0x31,0xff,
     0x0f,0x05,
     0x48,0x65,0x6c,0x6c,0x6f,0x21,0x0a]"

text \<open>A sequence of operations whose errors are ignored; a panic ends it.\<close>

fun do_all :: "('s, unit) op list \<Rightarrow> ('s, unit) op" where
  "do_all [] s = (Ok (), s)"
| "do_all (f # fs) s = (case f s of (Panic, s1) \<Rightarrow> (Panic, s1) | (_, s1) \<Rightarrow> do_all fs s1)"

definition init_rootfs :: "'d bus \<Rightarrow> drive list \<Rightarrow> u8 list \<Rightarrow> ('d fs, vfs_context) op" where
  "init_rootfs B Ds image_bmp s =
     (case new_ramfs s of (root, s1) \<Rightarrow>
        let v = vfs_new root;
            dir = (\<lambda>p. vfs_mkdir B Ds v (str p));
            fil = (\<lambda>p bs. write_file B Ds v (str p) bs)
        in case do_all
             [dir ''/bin'', dir ''/etc'', dir ''/tmp'', dir ''/home'', dir ''/home/root'', dir ''/dev'',
              dir ''/proc'', dir ''/var'', dir ''/var/log'',
              fil ''/etc/hostname'' (str ''saros'' @ [10]),
              fil ''/etc/os-release'' (str ''NAME=SarOS'' @ [10] @ str ''VERSION=0.1'' @ [10]),
              fil ''/etc/motd'' (str ''Welcome to SarOS!'' @ [10] @
                str ''Type '' @ [39] @ str ''help'' @ [39] @ str '' for available commands.'' @ [10]),
              fil ''/bin/hello'' HELLO_ELF, dir ''/images'', fil ''/images/image.bmp'' image_bmp] s1 of
             (Panic, s2) \<Rightarrow> (Panic, s2)
           | (_, s2) \<Rightarrow> (Ok v, s2))"

end
