(* ===== verification/Resolve.thy ===== *)
theory Resolve
  imports Mount
begin

text \<open>
  Resolution of paths and contents of files in a file system in memory: a store that grows keeps every path
  that resolved, and a file that was written reads back.
\<close>

unbundle bit_operations_syntax

section \<open>Well-formed stores\<close>

text \<open>The entries of a directory are in order, without duplicates, and point at inodes that exist.\<close>

definition node_wf :: "nat \<Rightarrow> inode_ops \<Rightarrow> bool" where
  "node_wf n x \<longleftrightarrow> (case x of RamDir _ _ ch \<Rightarrow> sorted_wrt (<) (map fst ch) \<and> (\<forall>e\<in>set ch. snd e < n) | _ \<Rightarrow> True)"

definition fs_wf :: "'d fs \<Rightarrow> bool" where
  "fs_wf s \<longleftrightarrow> (\<forall>x\<in>set (inodes s). node_wf (length (inodes s)) x)"

fun ram_node :: "inode_ops \<Rightarrow> bool" where
  "ram_node (RamDir _ _ _) \<longleftrightarrow> True"
| "ram_node (RamFile _ _ _) \<longleftrightarrow> True"
| "ram_node (RamSymlink _ _) \<longleftrightarrow> True"
| "ram_node _ \<longleftrightarrow> False"

definition ram_only :: "'d fs \<Rightarrow> bool" where
  "ram_only s \<longleftrightarrow> (\<forall>x\<in>set (inodes s). ram_node x)"

abbreviation valid :: "'d fs \<Rightarrow> nat \<Rightarrow> bool" where
  "valid s i \<equiv> i < length (inodes s)"

lemma fs_wfD: "fs_wf s \<Longrightarrow> valid s i \<Longrightarrow> node_wf (length (inodes s)) (inodes s ! i)"
  by (simp add: fs_wf_def)

lemma child_valid: "fs_wf s \<Longrightarrow> valid s i \<Longrightarrow> inodes s ! i = RamDir a m ch \<Longrightarrow> map_of ch c = Some j \<Longrightarrow> valid s j"
  using fs_wfD [of s i] by (auto simp: node_wf_def dest!: map_of_SomeD)

lemma node_wf_mono: "node_wf n x \<Longrightarrow> n \<le> n' \<Longrightarrow> node_wf n' x"
  by (auto simp: node_wf_def split: inode_ops.splits)

lemma keys_bt_insert: "fst ` set (bt_insert k v m) = insert k (fst ` set m)"
  by (induction k v m rule: bt_insert.induct) (simp_all add: insert_commute)

lemma set_bt_insert: "set (bt_insert k v m) \<subseteq> insert (k, v) (set m)"
  by (induction k v m rule: bt_insert.induct) auto

lemma bt_insert_sorted: "sorted_wrt (<) (map fst m) \<Longrightarrow> sorted_wrt (<) (map fst (bt_insert k v m))"
proof (induction m)
  case (Cons e m)
  obtain k1 v1 where e: "e = (k1, v1)" by (cases e)
  have m: "sorted_wrt (<) (map fst m)" "\<forall>x\<in>fst ` set m. k1 < x" using Cons.prems e by auto
  have "\<forall>x\<in>fst ` set (bt_insert k v m). k1 < x" if "\<not> k < k1" "k \<noteq> k1" using that m(2) keys_bt_insert [of k v m] by auto
  then show ?case using Cons.IH [OF m(1)] m e by (auto intro: less_trans)
qed simp

lemma map_of_bt_insert: "map_of (bt_insert k v m) = (map_of m)(k \<mapsto> v)"
  if "sorted_wrt (<) (map fst m)"
  using that by (induction k v m rule: bt_insert.induct) (auto simp: fun_eq_iff)

lemma map_of_bt_remove: "map_of (bt_remove k m) = (map_of m)(k := None)"
  unfolding bt_remove_def by (induction m) auto

lemma sorted_bt_remove: "sorted_wrt (<) (map fst m) \<Longrightarrow> sorted_wrt (<) (map fst (bt_remove k m))"
  unfolding bt_remove_def by (induction m) auto

text \<open>In a file system in memory nothing but the store decides, and a lookup leaves it alone.\<close>

lemma lookup_ram:
  assumes "ram_only s" "valid s i"
  shows "lookup B Ds i c s = (case inodes s ! i of
      RamDir _ _ ch \<Rightarrow> ((case map_of ch c of None \<Rightarrow> Err Errno_ENOENT | Some j \<Rightarrow> Ok j), s) | _ \<Rightarrow> (Err Errno_ENOTDIR, s))"
proof -
  have "ram_node (inodes s ! i)" using assms by (simp add: ram_only_def)
  then show ?thesis by (cases "inodes s ! i") (simp_all add: lookup_def)
qed

lemma lookup_ram_Ok:
  assumes "ram_only s" "valid s i" "fs_wf s" "lookup B Ds i c s = (Ok j, s')"
  shows "s' = s" "valid s j" "\<exists>a m ch. inodes s ! i = RamDir a m ch \<and> map_of ch c = Some j"
proof -
  show k: "s' = s" "\<exists>a m ch. inodes s ! i = RamDir a m ch \<and> map_of ch c = Some j"
    using assms(4) unfolding lookup_ram [OF assms(1,2)] by (auto split: inode_ops.splits option.splits)
  show "valid s j" using k(2) child_valid [OF assms(3,2)] by blast
qed

lemma lookup_ram_state:
  assumes "ram_only s" "valid s i" shows "\<exists>r. lookup B Ds i c s = (r, s) \<and> r \<noteq> Panic"
  unfolding lookup_ram [OF assms] by (auto split: inode_ops.splits option.splits)

lemma readlink_Ok: "inode_readlink i s = (Ok t, s') \<longleftrightarrow> s' = s \<and> (\<exists>a. inodes s ! i = RamSymlink a t)"
  by (auto simp: inode_readlink_def split: inode_ops.splits)

lemma is_symlink_iff: "is_symlink s i \<longleftrightarrow> (\<exists>a t. inodes s ! i = RamSymlink a t)"
  by (cases "inodes s ! i") (auto simp: is_symlink_def inode_stat_def)

section \<open>Resolution in memory\<close>

declare resolve_from.simps [simp del] read_all.simps [simp del]

lemma resolve_Nil [simp]: "resolve_from B Ds root cur [] depth s = (Ok cur, s)"
  by (simp add: resolve_from.simps)

text \<open>One component, once the components before it are dealt with.\<close>

lemma resolve_append:
  "resolve_from B Ds root cur (cs @ cs') depth s =
     (case resolve_from B Ds root cur cs depth s of
        (Ok x, s1) \<Rightarrow> resolve_from B Ds root x cs' depth s1 | (Err e, s1) \<Rightarrow> (Err e, s1) | (Panic, s1) \<Rightarrow> (Panic, s1))"
proof (induction cs arbitrary: cur s)
  case (Cons c cs)
  show ?case
    by (simp add: resolve_from.simps(2) Cons.IH split: prod.split res.split)
qed simp

text \<open>
  Induction over a resolution: over the components, and over the depth for the target of a link.
\<close>

lemma resolve_induct [case_names Nil Cons]:
  assumes nil: "\<And>depth cur. P depth cur []"
    and cons: "\<And>depth cur c cs. (\<And>cur. P depth cur cs) \<Longrightarrow>
      (\<And>cur cs'. depth < 40 \<Longrightarrow> P (Suc depth) cur cs') \<Longrightarrow> P depth cur (c # cs)"
  shows "P depth cur cs"
proof (induction "41 - depth" arbitrary: depth cur cs rule: less_induct)
  case (less depth cur cs)
  have deeper: "P (Suc depth) cur cs'" if "depth < 40" for cur cs' using less that by simp
  show ?case
    by (induction cs arbitrary: cur) (use nil cons deeper in blast)+
qed

lemma resolve_ram:
  assumes r: "ram_only s" "fs_wf s" "valid s root"
  shows "valid s cur \<Longrightarrow> \<exists>r. resolve_from B Ds root cur cs depth s = (r, s) \<and> r \<noteq> Panic \<and> (\<forall>x. r = Ok x \<longrightarrow> valid s x)"
proof (induction depth cur cs rule: resolve_induct)
  case (Cons depth cur c cs)
  obtain r1 where lk: "lookup B Ds cur c s = (r1, s)" "r1 \<noteq> Panic" using lookup_ram_state [OF r(1) Cons.prems] by blast
  have ok: "valid s j" if "r1 = Ok j" for j using lookup_ram_Ok(2) [OF r(1) Cons.prems r(2)] lk(1) that by blast
  consider (dot) "c = [46]" | (up) "c = [46, 46]" | (name) "c \<noteq> [46]" "c \<noteq> [46, 46]" by blast
  then show ?case
  proof cases
    case dot
    then show ?thesis using Cons.IH(1) [OF Cons.prems] by (simp add: resolve_from.simps(2))
  next
    case up
    then show ?thesis
      using lk ok Cons.IH(1) [of root] Cons.IH(1) r(3) by (cases r1) (auto simp: resolve_from.simps(2))
  next
    case name
    show ?thesis
    proof (cases "\<exists>j. is_dir s cur \<and> r1 = Ok j \<and> is_symlink s j \<and> depth < 40")
      case True
      then obtain j where j: "is_dir s cur" "r1 = Ok j" "is_symlink s j" "depth < 40" by blast
      then obtain t where t: "inode_readlink j s = (Ok t, s)" by (auto simp: is_symlink_iff inode_readlink_def)
      define start where "start = (if starts_with_slash t then root else cur)"
      have "valid s start" using r(3) Cons.prems by (simp add: start_def)
      from Cons.IH(2) [OF j(4) this] obtain r2 where r2: "resolve_from B Ds root start (components t) (Suc depth) s = (r2, s)"
        "r2 \<noteq> Panic" "\<And>x. r2 = Ok x \<Longrightarrow> valid s x" by blast
      have "resolve_from B Ds root cur (c # cs) depth s =
          (case r2 of Ok x \<Rightarrow> resolve_from B Ds root x cs depth s | Err e \<Rightarrow> (Err e, s) | Panic \<Rightarrow> (Panic, s))"
        using name j lk(1) t r2(1) by (simp add: resolve_from.simps(2) start_def split: res.split)
      then show ?thesis using r2 Cons.IH(1) by (cases r2) auto
    next
      case False
      then show ?thesis
        using name lk ok Cons.IH(1) by (cases r1) (auto simp: resolve_from.simps(2) is_symlink_iff inode_readlink_def)
    qed
  qed
qed simp

text \<open>A store that has grown: what was there is still there, though files may have other contents.\<close>

fun ext_node :: "inode_ops \<Rightarrow> inode_ops \<Rightarrow> bool" where
  "ext_node (RamDir a m ch) x \<longleftrightarrow> (\<exists>ch'. x = RamDir a m ch' \<and> map_of ch \<subseteq>\<^sub>m map_of ch' \<and> map_of ch' [46, 46] = map_of ch [46, 46])"
| "ext_node (RamFile a m bs) x \<longleftrightarrow> (\<exists>bs'. x = RamFile a m bs')"
| "ext_node y x \<longleftrightarrow> x = y"

definition extends :: "'d fs \<Rightarrow> 'd fs \<Rightarrow> bool" where
  "extends s s' \<longleftrightarrow> length (inodes s) \<le> length (inodes s') \<and> (\<forall>i<length (inodes s). ext_node (inodes s ! i) (inodes s' ! i))"

lemma extendsD:
  assumes "extends s s'" "valid s i"
  shows "valid s' i" "ext_node (inodes s ! i) (inodes s' ! i)" "is_dir s' i = is_dir s i" "is_symlink s' i = is_symlink s i"
    "inode_readlink i s = (Ok t, s) \<Longrightarrow> inode_readlink i s' = (Ok t, s')"
proof -
  show v: "valid s' i" "ext_node (inodes s ! i) (inodes s' ! i)" using assms by (auto simp: extends_def)
  show "is_dir s' i = is_dir s i" "is_symlink s' i = is_symlink s i"
    "inode_readlink i s = (Ok t, s) \<Longrightarrow> inode_readlink i s' = (Ok t, s')"
    using v(2) by (cases "inodes s ! i"; auto simp: is_dir_def is_symlink_def inode_stat_def inode_readlink_def)+
qed

lemma lookup_extends:
  assumes r: "ram_only s" "ram_only s'" "extends s s'" "valid s i"
  shows "lookup B Ds i c s = (Ok j, s) \<Longrightarrow> lookup B Ds i c s' = (Ok j, s')"
    "lookup B Ds i [46, 46] s = (Err e, s) \<Longrightarrow> lookup B Ds i [46, 46] s' = (Err e, s')"
  using extendsD(2) [OF r(3,4)] unfolding lookup_ram [OF r(1,4)] lookup_ram [OF r(2) extendsD(1) [OF r(3,4)]]
  by (cases "inodes s ! i"; auto simp: map_le_def dom_def split: option.splits)+

lemma resolve_extends:
  assumes r: "ram_only s" "fs_wf s" "valid s root" "ram_only s'" "extends s s'"
  shows "valid s cur \<Longrightarrow> resolve_from B Ds root cur cs depth s = (Ok x, s) \<Longrightarrow> resolve_from B Ds root cur cs depth s' = (Ok x, s')"
proof (induction depth cur cs arbitrary: x rule: resolve_induct)
  case (Cons depth cur c cs)
  obtain r1 where lk: "lookup B Ds cur c s = (r1, s)" "r1 \<noteq> Panic" using lookup_ram_state [OF r(1) Cons.prems(1)] by blast
  have ok: "valid s j" "lookup B Ds cur c s' = (Ok j, s')" if "r1 = Ok j" for j
    using lookup_ram_Ok(2) [OF r(1) Cons.prems(1) r(2)] lookup_extends(1) [OF r(1,4,5) Cons.prems(1)] lk(1) that by blast+
  note d = extendsD [OF r(5) Cons.prems(1)]
  consider (dot) "c = [46]" | (up) "c = [46, 46]" | (name) "c \<noteq> [46]" "c \<noteq> [46, 46]" by blast
  then show ?case
  proof cases
    case dot
    then show ?thesis using Cons.IH(1) Cons.prems by (simp add: resolve_from.simps(2))
  next
    case up
    show ?thesis
    proof (cases r1)
      case (Ok j)
      then show ?thesis using up lk ok [OF Ok] Cons.IH(1) Cons.prems by (simp add: resolve_from.simps(2))
    next
      case (Err e)
      then have "lookup B Ds cur [46, 46] s' = (Err e, s')"
        using lookup_extends(2) [OF r(1,4,5) Cons.prems(1)] lk(1) up by simp
      then show ?thesis using up lk Err Cons.IH(1) [OF r(3)] Cons.prems by (simp add: resolve_from.simps(2))
    qed (use lk in simp)
  next
    case name
    then obtain j where j: "is_dir s cur" "r1 = Ok j" using Cons.prems(2) lk by (cases r1) (auto simp: resolve_from.simps(2) split: if_splits)
    note dj = extendsD [OF r(5) ok(1) [OF j(2)]]
    show ?thesis
    proof (cases "is_symlink s j")
      case True
      then obtain t where t: "inode_readlink j s = (Ok t, s)" by (auto simp: is_symlink_iff inode_readlink_def)
      define start where "start = (if starts_with_slash t then root else cur)"
      have st: "valid s start" using r(3) Cons.prems by (simp add: start_def)
      have dp: "depth < 40" using Cons.prems(2) name j lk t True by (auto simp: resolve_from.simps(2) split: if_splits)
      obtain r2 where r2: "resolve_from B Ds root start (components t) (Suc depth) s = (r2, s)" "\<And>y. r2 = Ok y \<Longrightarrow> valid s y"
        using resolve_ram [OF r(1-3) st] by blast
      then obtain y where y: "r2 = Ok y" "resolve_from B Ds root y cs depth s = (Ok x, s)"
        using Cons.prems(2) name j lk t True dp by (cases r2) (auto simp: resolve_from.simps(2) start_def)
      have "resolve_from B Ds root start (components t) (Suc depth) s' = (Ok y, s')"
        using Cons.IH(2) [OF dp st] r2(1) y(1) by simp
      moreover have "resolve_from B Ds root y cs depth s' = (Ok x, s')" using Cons.IH(1) [OF r2(2) [OF y(1)] y(2)] .
      ultimately show ?thesis using name j ok(2) [OF j(2)] d(3) dj(4,5) t True dp by (simp add: resolve_from.simps(2) start_def)
    next
      case False
      then have "resolve_from B Ds root j cs depth s = (Ok x, s)" using Cons.prems(2) name j lk by (simp add: resolve_from.simps(2))
      then have "resolve_from B Ds root j cs depth s' = (Ok x, s')" using Cons.IH(1) [OF ok(1) [OF j(2)]] by simp
      then show ?thesis using name j ok(2) [OF j(2)] d(3) dj(4) False by (simp add: resolve_from.simps(2))
    qed
  qed
qed simp

section \<open>Path strings\<close>

lemma split_slash_ne [simp]: "split_slash p \<noteq> []"
  by (induction p) (auto split: list.splits)

lemma split_slash_append: "split_slash (a @ 47 # b) = split_slash a @ split_slash b"
  by (induction a) (auto split: list.splits simp: append_eq_Cons_conv)

lemma split_slash_name: "47 \<notin> set n \<Longrightarrow> split_slash n = [n]"
  by (induction n) auto

lemma components_append: "components (a @ 47 # b) = components a @ components b"
  by (simp add: components_def split_slash_append)

lemma components_name: "47 \<notin> set n \<Longrightarrow> n \<noteq> [] \<Longrightarrow> components n = [n]"
  by (simp add: components_def split_slash_name)

lemma components_Nil [simp]: "components [] = []"
  by (simp add: components_def)

lemma components_slashes: "set sl \<subseteq> {47} \<Longrightarrow> components (p @ sl) = components p"
proof (induction sl arbitrary: p)
  case (Cons b sl)
  then have "components (p @ 47 # sl) = components p" using components_append [of p sl] Cons.IH [of "[]"] by simp
  then show ?case using Cons.prems by simp
qed simp

lemma trim_slashes_split:
  obtains sl where "path = trim_slashes path @ sl" "set sl \<subseteq> {47}"
proof
  show "path = trim_slashes path @ rev (takeWhile (\<lambda>b. b = 47) (rev path))"
    unfolding trim_slashes_def by (metis rev_append rev_rev_ident takeWhile_dropWhile_id)
  show "set (rev (takeWhile (\<lambda>b. b = 47) (rev path))) \<subseteq> {47}" by (auto dest: set_takeWhileD)
qed

lemma last_component:
  assumes "47 \<in> set p"
  obtains pre where "p = pre @ 47 # rev (takeWhile (\<lambda>b. b \<noteq> 47) (rev p))"
proof -
  have "dropWhile (\<lambda>b. b \<noteq> 47) (rev p) \<noteq> []" using assms by (simp add: dropWhile_eq_Nil_conv)
  then obtain q where q: "dropWhile (\<lambda>b. b \<noteq> 47) (rev p) = 47 # q"
    by (metis (mono_tags, lifting) hd_dropWhile list.collapse)
  have "p = rev (dropWhile (\<lambda>b. b \<noteq> 47) (rev p)) @ rev (takeWhile (\<lambda>b. b \<noteq> 47) (rev p))"
    by (metis rev_append rev_rev_ident takeWhile_dropWhile_id)
  then have "p = rev q @ 47 # rev (takeWhile (\<lambda>b. b \<noteq> 47) (rev p))" unfolding q by simp
  then show ?thesis by (rule that)
qed

text \<open>\<open>split_last\<close> cuts an absolute path before its last component.\<close>

lemma split_last_components:
  assumes "starts_with_slash path" "split_last path = (pp, name)" "name \<noteq> []"
  shows "starts_with_slash pp" "components path = components pp @ [name]"
proof -
  let ?p = "trim_slashes path"
  obtain sl where sl: "path = ?p @ sl" "set sl \<subseteq> {47}" by (rule trim_slashes_split)
  have c: "components path = components ?p" using components_slashes [OF sl(2), of ?p] sl(1) by simp
  have st: "starts_with_slash ?p" if "?p \<noteq> []" using assms(1) sl(1) that unfolding starts_with_slash_def by (metis hd_append2)
  have in47: "47 \<in> set ?p"
  proof (rule ccontr)
    assume n: "47 \<notin> set ?p"
    then have "?p \<noteq> []" using assms(2,3) by (auto simp: split_last_def Let_def)
    then show False using st n by (auto simp: starts_with_slash_def dest: hd_in_set)
  qed
  obtain pre where pre: "?p = pre @ 47 # rev (takeWhile (\<lambda>b. b \<noteq> 47) (rev ?p))" by (rule last_component [OF in47])
  define n where "n = rev (takeWhile (\<lambda>b. b \<noteq> 47) (rev ?p))"
  have n: "47 \<notin> set n" by (auto simp: n_def dest: set_takeWhileD)
  have pn: "?p = pre @ 47 # n" using pre by (simp add: n_def)
  then have i: "length ?p - length n - 1 = length pre" "take (length pre) ?p = pre" by simp_all
  have "split_last path = (if length pre = 0 then ([47], n) else (take (length pre) ?p, n))"
    unfolding split_last_def Let_def n_def [symmetric] i(1) using in47 by (simp only: not_True_eq_False if_False)
  then have r: "name = n" "pp = (if pre = [] then [47] else pre)"
    using assms(2) unfolding i(2) by (auto split: if_splits)
  have "components ?p = components pre @ [name]"
    using components_append [of pre n] components_name [OF n] r(1) assms(3) pn by simp
  then show "components path = components pp @ [name]" using c r(2) by (simp add: components_append [of "[]" "[]", simplified])
  show "starts_with_slash pp"
    using r(2) st pn by (cases pre) (auto simp: starts_with_slash_def)
qed

section \<open>Writing and reading back\<close>

definition vfs_ok :: "vfs_context \<Rightarrow> 'd fs \<Rightarrow> bool" where
  "vfs_ok v s \<longleftrightarrow> valid s (vfs_root v) \<and> valid s (vfs_cwd v) \<and> (cwd_path v = [] \<or> starts_with_slash (cwd_path v))"

lemma make_absolute_slash: "vfs_ok v s \<Longrightarrow> starts_with_slash (make_absolute v path)"
  by (auto simp: make_absolute_def vfs_ok_def starts_with_slash_def)

lemma vfs_resolve_ram:
  assumes "mounts v = []" "vfs_ok v s"
  shows "vfs_resolve B Ds v path = resolve_from B Ds (vfs_root v) (vfs_root v) (components (make_absolute v path)) 0"
  using assms make_absolute_slash [OF assms(2)]
  by (simp add: vfs_resolve_def resolve_abs_def path_resolve_def resolve_inner_def)

lemma inodes_set_inode [simp]: "inodes (set_inode i x s) = (inodes s)[i := x]"
  by (simp add: set_inode_def)

lemma ram_only_set: "ram_only s \<Longrightarrow> ram_node x \<Longrightarrow> ram_only (set_inode i x s)"
  unfolding ram_only_def using set_update_subset_insert by fastforce

lemma ext_node_refl [simp]: "ext_node x x"
  by (cases x) auto

lemma extends_set: "valid s i \<Longrightarrow> ext_node (inodes s ! i) x \<Longrightarrow> extends s (set_inode i x s)"
  by (simp add: extends_def nth_list_update)

lemma ext_node_trans:
  assumes "ext_node x y" "ext_node y z"
  shows "ext_node x z"
proof (cases x)
  case (RamDir a m ch)
  obtain ch1 where y: "y = RamDir a m ch1" "map_of ch \<subseteq>\<^sub>m map_of ch1" "map_of ch1 [46, 46] = map_of ch [46, 46]"
    using assms(1) RamDir by auto
  obtain ch2 where z: "z = RamDir a m ch2" "map_of ch1 \<subseteq>\<^sub>m map_of ch2" "map_of ch2 [46, 46] = map_of ch1 [46, 46]"
    using assms(2) y(1) by auto
  show ?thesis using RamDir z y(3) map_le_trans [OF y(2) z(2)] by simp
qed (use assms in auto)

lemma extends_trans: "extends s t \<Longrightarrow> extends t u \<Longrightarrow> extends s u"
  unfolding extends_def using ext_node_trans by (meson le_trans less_le_trans)

text \<open>The files other than \<open>i\<close> have the contents they had.\<close>

definition files_same :: "nat \<Rightarrow> 'd fs \<Rightarrow> 'd fs \<Rightarrow> bool" where
  "files_same i s s' \<longleftrightarrow> (\<forall>k a m c. valid s k \<longrightarrow> k \<noteq> i \<longrightarrow> inodes s ! k = RamFile a m c \<longrightarrow> inodes s' ! k = RamFile a m c)"

text \<open>A new entry of a directory, and what it leaves.\<close>

lemma add_child_Ok:
  assumes w: "fs_wf s" "valid s p" and a: "add_child p name mk s = (Ok j, s1)"
  obtains a m ch where "inodes s ! p = RamDir a m ch" "map_of ch name = None" "j = length (inodes s)"
    "inodes s1 = (inodes s)[p := RamDir a m (bt_insert name j ch)] @ [mk (NEXT_INO s)]"
    "map_of (bt_insert name j ch) = (map_of ch)(name \<mapsto> j)" "sorted_wrt (<) (map fst (bt_insert name j ch))"
proof -
  obtain i m ch where d: "inodes s ! p = RamDir i m ch" using a by (cases "inodes s ! p") (simp_all add: add_child_def)
  have e: "map_of ch name = None" "j = length (inodes s)"
    "inodes s1 = (inodes s)[p := RamDir i m (bt_insert name j ch)] @ [mk (NEXT_INO s)]"
    using a d w(2) by (auto simp: add_child_def alloc_ino_def inode_new_def list_update_append split: if_splits)
  have "sorted_wrt (<) (map fst ch)" using fs_wfD [OF w] d by (simp add: node_wf_def)
  then show ?thesis by (intro that [OF d e] map_of_bt_insert bt_insert_sorted)
qed

lemma add_child_extends:
  assumes "fs_wf s" "valid s p" "add_child p name mk s = (Ok j, s1)" "name \<noteq> [46, 46]"
  shows "extends s s1" "ram_only s \<Longrightarrow> (\<And>i. ram_node (mk i)) \<Longrightarrow> ram_only s1" "valid s1 j" "inodes s1 ! j = mk (NEXT_INO s)"
    "lookup B Ds p name s1 = (Ok j, s1)" "is_dir s1 p" "j = length (inodes s)" "files_same j s s1"
proof -
  obtain a m ch where d: "inodes s ! p = RamDir a m ch" "map_of ch name = None" "j = length (inodes s)"
    "inodes s1 = (inodes s)[p := RamDir a m (bt_insert name j ch)] @ [mk (NEXT_INO s)]"
    "map_of (bt_insert name j ch) = (map_of ch)(name \<mapsto> j)"
    by (rule add_child_Ok [OF assms(1-3)])
  have p: "inodes s1 ! p = RamDir a m (bt_insert name j ch)" using d(4) assms(2) by (simp add: nth_append)
  show "extends s s1"
    using d assms(2,4) by (auto simp: extends_def nth_append nth_list_update map_le_def dom_def)
  show "ram_only s \<Longrightarrow> (\<And>i. ram_node (mk i)) \<Longrightarrow> ram_only s1"
    using d(4) set_update_subset_insert [of "inodes s" p] by (fastforce simp: ram_only_def)
  show "valid s1 j" "inodes s1 ! j = mk (NEXT_INO s)" "j = length (inodes s)" using d(3,4) by (simp_all add: nth_append)
  show "lookup B Ds p name s1 = (Ok j, s1)" "is_dir s1 p"
    using p d(5) by (simp_all add: lookup_def is_dir_def inode_stat_def)
  show "files_same j s s1" using d(1,4) assms(2) by (auto simp: files_same_def nth_append nth_list_update)
qed

abbreviation W_FLAGS :: u32 where
  "W_FLAGS \<equiv> O_WRONLY OR O_CREAT OR O_TRUNC"

lemma w_flags: "W_FLAGS AND O_CREAT \<noteq> 0" "W_FLAGS AND O_TRUNC \<noteq> 0" "W_FLAGS AND O_APPEND = 0"
  by (simp_all add: O_WRONLY_def O_CREAT_def O_TRUNC_def O_APPEND_def)

text \<open>A write into an empty file, from its start.\<close>

lemma file_write_empty:
  assumes "inodes s ! i = RamFile a m []"
  shows "bindE (file_write (file_new i W_FLAGS) bs) (\<lambda>_. okE ()) s =
    (if 2 ^ 63 \<le> length bs then (Panic, s) else (Ok (), set_inode i (RamFile a m bs) s))"
  using assms w_flags(3)
  by (simp add: file_write_def file_new_def inode_write_def bindE_def resize_def put_bytes_def Let_def)

lemma truncate_Ok:
  assumes "inode_truncate i 0 s = (Ok (), s1)"
  obtains a m bs where "inodes s ! i = RamFile a m bs" "s1 = set_inode i (RamFile a m []) s"
  using assms by (cases "inodes s ! i") (auto simp: inode_truncate_def resize_def)

lemma write_existing:
  assumes r: "ram_only s" "valid s i" and w: "inode_truncate i 0 s = (Ok (), s1)"
    "bindE (file_write (file_new i W_FLAGS) bs) (\<lambda>_. okE ()) s1 = (Ok (), s2)"
  shows "\<exists>a m. extends s s2 \<and> ram_only s2 \<and> inodes s2 ! i = RamFile a m bs \<and> length bs < 2 ^ 63 \<and> files_same i s s2"
proof -
  obtain a m old where f: "inodes s ! i = RamFile a m old" "s1 = set_inode i (RamFile a m []) s" by (rule truncate_Ok [OF w(1)])
  have i1: "inodes s1 ! i = RamFile a m []" "valid s1 i" using f(2) r(2) by simp_all
  have s2: "s2 = set_inode i (RamFile a m bs) s1" "length bs < 2 ^ 63"
    using w(2) unfolding file_write_empty [OF i1(1)] by (auto split: if_splits)
  have "extends s s1" unfolding f(2) using f(1) r(2) by (intro extends_set) auto
  moreover have "extends s1 s2" unfolding s2(1) using i1 by (intro extends_set) auto
  moreover have "files_same i s s2" by (simp add: files_same_def s2(1) f(2))
  ultimately show ?thesis using s2 i1(2) r(1) f(2) extends_trans by (auto intro!: ram_only_set)
qed

lemma write_new:
  assumes r: "ram_only s" "fs_wf s" "valid s p" "name \<noteq> [46, 46]" and w: "create p name mode s = (Ok i, s1)"
    "bindE (file_write (file_new i W_FLAGS) bs) (\<lambda>_. okE ()) s1 = (Ok (), s2)"
  shows "\<exists>a m. extends s s2 \<and> ram_only s2 \<and> inodes s2 ! i = RamFile a m bs \<and> length bs < 2 ^ 63 \<and>
    is_dir s2 p \<and> lookup B Ds p name s2 = (Ok i, s2) \<and> valid s2 i \<and> files_same i s s2"
proof -
  note c = add_child_extends [OF r(2,3) w(1) [unfolded create_def] r(4)]
  have s2: "s2 = set_inode i (RamFile (NEXT_INO s) mode bs) s1" "length bs < 2 ^ 63"
    using w(2) unfolding file_write_empty [OF c(4)] by (auto split: if_splits)
  have e: "extends s1 s2" unfolding s2(1) using c(3,4) by (intro extends_set) auto
  have "ram_only s1" by (rule c(2)) (use r(1) in auto)
  moreover have p: "valid s1 p" using c(1) r(3) extendsD(1) by blast
  moreover have "ram_only s2" unfolding s2(1) using \<open>ram_only s1\<close> by (intro ram_only_set) auto
  moreover have "files_same i s s2"
    using c(8) by (auto simp: files_same_def s2(1))
  ultimately show ?thesis
    using extends_trans [OF c(1) e] s2 c(3) extendsD(3) [OF e p] c(6) lookup_extends(1) [OF _ _ e p c(5)] by auto
qed

lemma resolve_one:
  assumes "is_dir s p" "lookup B Ds p c s = (Ok i, s)" "\<not> is_symlink s i" "c \<noteq> [46]" "c \<noteq> [46, 46]"
  shows "resolve_from B Ds root p [c] depth s = (Ok i, s)"
  using assms by (simp add: resolve_from.simps(2))

lemma split_last_empty:
  assumes "split_last path = (pp, [])"
  shows "components path = []"
proof -
  let ?p = "trim_slashes path"
  obtain sl where sl: "path = ?p @ sl" "set sl \<subseteq> {47}" by (rule trim_slashes_split)
  have c: "components path = components ?p" using components_slashes [OF sl(2), of ?p] sl(1) by simp
  have "?p = []"
  proof (rule ccontr)
    assume p: "?p \<noteq> []"
    then have q: "dropWhile (\<lambda>b. b = 47) (rev path) \<noteq> []" by (simp add: trim_slashes_def)
    from hd_dropWhile [OF this] have h: "hd (rev ?p) \<noteq> 47" by (simp add: trim_slashes_def)
    have "takeWhile (\<lambda>b. b \<noteq> 47) (rev ?p) \<noteq> []" using h p by (cases "rev ?p") auto
    then show False using assms p by (auto simp: split_last_def Let_def split: if_splits)
  qed
  then show ?thesis using c by simp
qed

text \<open>When a path does not exist but its parent does, the last component is the name of a new entry.\<close>

lemma missing_parent:
  assumes r: "ram_only s" "fs_wf s" "valid s root" and ap: "starts_with_slash ap"
    and miss: "resolve_from B Ds root root (components ap) 0 s = (Err e, s)"
    and par: "resolve_parent B Ds root cwd ap s = (Ok (p, name), s1)"
  shows "s1 = s" "valid s p" "name \<noteq> [46]" "name \<noteq> [46, 46]"
    "\<exists>pp. components ap = components pp @ [name] \<and> resolve_from B Ds root root (components pp) 0 s = (Ok p, s)"
proof -
  obtain pp where sl: "split_last ap = (pp, name)"
    using par by (auto simp: resolve_parent_def bindE_Ok split: prod.splits if_splits)
  have "components ap \<noteq> []" using miss by auto
  then have "name \<noteq> []" using split_last_empty sl by blast
  note c = split_last_components [OF ap sl this]
  have "pp \<noteq> []" using c(1) by (auto simp: starts_with_slash_def)
  then have "resolve_from B Ds root root (components pp) 0 s = (Ok p, s1)"
    using par sl c(1) by (simp add: resolve_parent_def bindE_Ok path_resolve_def resolve_inner_def)
  moreover obtain r1 where "resolve_from B Ds root root (components pp) 0 s = (r1, s)" "\<And>x. r1 = Ok x \<Longrightarrow> valid s x"
    using resolve_ram [OF r r(3)] by blast
  ultimately show s: "s1 = s" "valid s p"
    and k: "\<exists>pp. components ap = components pp @ [name] \<and> resolve_from B Ds root root (components pp) 0 s = (Ok p, s)"
    using c(2) by auto
  have "resolve_from B Ds root p [name] 0 s = (Err e, s)"
    using miss k by (auto simp: resolve_append)
  moreover obtain r2 where "lookup B Ds p [46, 46] s = (r2, s)" "r2 \<noteq> Panic" using lookup_ram_state [OF r(1) s(2)] by blast
  ultimately show "name \<noteq> [46]" "name \<noteq> [46, 46]"
    by (cases r2; auto simp: resolve_from.simps(2))+
qed

lemma write_file_Ok:
  assumes r: "ram_only s" "fs_wf s" and v: "vfs_ok v s" "mounts v = []"
    and w: "write_file B Ds v path bs s = (Ok (), s2)"
  shows "\<exists>i a m. extends s s2 \<and> ram_only s2 \<and> vfs_resolve B Ds v path s2 = (Ok i, s2) \<and>
    inodes s2 ! i = RamFile a m bs \<and> length bs < 2 ^ 63 \<and> files_same i s s2 \<and>
    (vfs_resolve B Ds v path s = (Ok i, s) \<or> \<not> valid s i)"
proof -
  let ?root = "vfs_root v" and ?ap = "make_absolute v path"
  have root: "valid s ?root" "starts_with_slash ?ap" using v(1) make_absolute_slash by (auto simp: vfs_ok_def)
  obtain r0 where r0: "resolve_from B Ds ?root ?root (components ?ap) 0 s = (r0, s)" "r0 \<noteq> Panic" "\<And>x. r0 = Ok x \<Longrightarrow> valid s x"
    using resolve_ram [OF r root(1) root(1)] by blast
  have res: "vfs_resolve B Ds v path s' = resolve_from B Ds ?root ?root (components ?ap) 0 s'" for s'
    unfolding vfs_resolve_ram [OF v(2,1)] ..
  note wu = w [unfolded write_file_def bindE_Ok [of "vfs_open B Ds v path W_FLAGS"]]
  obtain f s1 where o: "vfs_open B Ds v path W_FLAGS s = (Ok f, s1)" "bindE (file_write f bs) (\<lambda>_. okE ()) s1 = (Ok (), s2)"
    using wu by blast
  note ou = o(1) [unfolded vfs_open_def res r0(1) prod.case]
  show ?thesis
  proof (cases r0)
    case (Ok i)
    have t: "inode_truncate i 0 s = (Ok (), s1)" "f = file_new i W_FLAGS"
      using ou Ok w_flags by (auto simp: bindE_Ok)
    obtain a m where s2: "extends s s2" "ram_only s2" "inodes s2 ! i = RamFile a m bs" "length bs < 2 ^ 63" "files_same i s s2"
      using write_existing [OF r(1) r0(3) [OF Ok] t(1) o(2) [unfolded t(2)]] by blast
    then show ?thesis
      using resolve_extends [OF r root(1) s2(2,1) root(1)] r0(1) Ok res by auto
  next
    case (Err e)
    obtain p name s' where c: "vfs_parent B Ds v ?ap s = (Ok (p, name), s')"
      "bindE (create p name 0x1A4) (\<lambda>i. okE (file_new i W_FLAGS)) s' = (Ok f, s1)"
      using ou Err by (auto simp: bindE_Ok split: if_splits)
    note m = missing_parent [OF r root r0(1) [unfolded Err] c(1) [unfolded vfs_parent_def]]
    obtain i where cr: "create p name 0x1A4 s = (Ok i, s1)" "f = file_new i W_FLAGS"
      using c(2) m(1) by (auto simp: bindE_Ok)
    obtain a m' where s2: "extends s s2" "ram_only s2" "inodes s2 ! i = RamFile a m' bs" "length bs < 2 ^ 63"
      "is_dir s2 p" "lookup B Ds p name s2 = (Ok i, s2)" "files_same i s s2"
      using write_new [OF r m(2,4) cr(1) o(2) [unfolded cr(2)]] by blast
    obtain pp where pp: "components ?ap = components pp @ [name]" "resolve_from B Ds ?root ?root (components pp) 0 s = (Ok p, s)"
      using m(5) by blast
    have "resolve_from B Ds ?root ?root (components pp) 0 s2 = (Ok p, s2)"
      by (rule resolve_extends [OF r root(1) s2(2,1) root(1) pp(2)])
    moreover have "resolve_from B Ds ?root p [name] 0 s2 = (Ok i, s2)"
      using s2 m(3,4) by (intro resolve_one) (auto simp: is_symlink_iff)
    moreover have "\<not> valid s i" using add_child_extends(7) [OF r(2) m(2) cr(1) [unfolded create_def] m(4)] by simp
    ultimately show ?thesis using s2 res pp(1) by (auto simp: resolve_append)
  qed (use r0 in simp)
qed

lemma read_file_Ok:
  assumes "vfs_resolve B Ds v path s = (Ok i, s)" "inodes s ! i = RamFile a m bs" "length bs < 2 ^ 63"
  shows "read_file B Ds v path s = (Ok bs, s)"
proof -
  have sz: "unat (of_nat (length bs) :: u64) = length bs" using assms(3) by (simp add: unat_of_nat)
  have o: "vfs_open B Ds v path 0 s = (Ok (file_new i 0), s)" using assms(1) by (simp add: vfs_open_def)
  have rd: "\<exists>f. file_read B Ds (file_new i 0) (replicate (length bs) 0) s = (Ok (length bs, bs, f), s)"
    using assms(2) by (auto simp: file_read_def inode_read_def file_new_def bindE_def Let_def)
  have fin: "read_all B Ds f (length bs) (length bs) bs s = (Ok bs, s)" for f by (subst read_all.simps) simp
  have "read_all B Ds (file_new i 0) (length bs) 0 (replicate (length bs) 0) s = (Ok bs, s)"
    by (subst read_all.simps) (use rd fin in auto)
  then show ?thesis using o sz assms(2) by (simp add: read_file_def inode_stat_def file_new_def Let_def)
qed

end
