(* ===== verification/Fileops.thy ===== *)
theory Fileops
  imports Resolve
begin

text \<open>
  The file system as a whole: rules for what every operation keeps, the state machine of the calls by name
  and through open files with its invariant, the choice of the mount point, and the properties of the file
  system.
\<close>

unbundle bit_operations_syntax

section \<open>The invariant\<close>

text \<open>Every operation keeps the store well formed and forgets no inode.\<close>

definition grown :: "'d fs \<Rightarrow> 'd fs \<Rightarrow> bool" where
  "grown s s' \<longleftrightarrow> fs_wf s' \<and> length (inodes s) \<le> length (inodes s')"

lemma bindE_cases:
  assumes "bindE m f s = (r, t)"
  obtains (ok) x s1 where "m s = (Ok x, s1)" "f x s1 = (r, t)"
  | (err) e where "m s = (Err e, t)" "r = Err e" | (panic) "m s = (Panic, t)" "r = Panic"
  using assms by (auto simp: bindE_def split: prod.splits res.splits)

lemma grown_refl: "fs_wf s \<Longrightarrow> grown s s"
  by (simp add: grown_def)

lemma grown_trans: "grown s t \<Longrightarrow> grown t u \<Longrightarrow> grown s u"
  by (auto simp: grown_def)

lemma grown_valid: "grown s s' \<Longrightarrow> valid s i \<Longrightarrow> valid s' i"
  by (simp add: grown_def)

lemma grown_wf: "grown s s' \<Longrightarrow> fs_wf s'"
  by (simp add: grown_def)

lemma grown_same: "fs_wf s \<Longrightarrow> inodes s' = inodes s \<Longrightarrow> grown s s'"
  by (simp add: grown_def fs_wf_def)

lemma grown_new: "fs_wf s \<Longrightarrow> inodes s' = inodes s @ [x] \<Longrightarrow> node_wf (Suc (length (inodes s))) x \<Longrightarrow> grown s s'"
  by (auto simp: grown_def fs_wf_def intro: node_wf_mono)

lemma grown_set: "fs_wf s \<Longrightarrow> node_wf (length (inodes s)) x \<Longrightarrow> grown s (set_inode i x s)"
  unfolding grown_def fs_wf_def using set_update_subset_insert [of "inodes s" i x] by auto

lemma dir_wf: "fs_wf s \<Longrightarrow> valid s i \<Longrightarrow> inodes s ! i = RamDir a m ch \<Longrightarrow> sorted_wrt (<) (map fst ch) \<and> (\<forall>e\<in>set ch. snd e < length (inodes s))"
  using fs_wfD [of s i] by (simp add: node_wf_def)

lemma on_dev_grown: "fs_wf s \<Longrightarrow> on_dev m s = (r, s') \<Longrightarrow> grown s s'"
  by (auto simp: on_dev_def intro!: grown_same split: prod.splits)

lemma lookup_grown:
  assumes w: "fs_wf s" "valid s i" and l: "lookup B Ds i c s = (r, s')"
  shows "grown s s' \<and> (\<forall>j. r = Ok j \<longrightarrow> valid s' j)"
proof (cases "inodes s ! i")
  case (RamDir a m ch)
  then show ?thesis
    using l w child_valid [OF w RamDir, of c] by (auto simp: lookup_def intro!: grown_refl split: option.splits)
next
  case (Fat32DirInode cx cl a)
  from l Fat32DirInode have "bindE (on_dev (read_dir_entries B Ds cx cl))
            (\<lambda>entries s1. case find (\<lambda>e. map lower_byte (fe_name e) = map lower_byte c) entries of
               None \<Rightarrow> (Err Errno_ENOENT, s1)
             | Some e \<Rightarrow> (case make_inode cx e s1 of (j, s2) \<Rightarrow> (Ok j, s2))) s = (r, s')" by (simp add: lookup_def fat_dir_lookup_def)
  then show ?thesis
  proof (cases rule: bindE_cases)
    case (ok es s1)
    note g = on_dev_grown [OF w(1) ok(1)]
    show ?thesis
    proof (cases "find (\<lambda>e. map lower_byte (fe_name e) = map lower_byte c) es")
      case None
      then show ?thesis using ok(2) g by auto
    next
      case (Some e)
      obtain x where x: "r = Ok (length (inodes s1))" "inodes s' = inodes s1 @ [x]" "node_wf (Suc (length (inodes s1))) x"
        using ok(2) Some by (auto simp: make_inode_def alloc_ino_def inode_new_def node_wf_def)
      then show ?thesis using grown_trans [OF g grown_new [OF grown_wf [OF g] x(2,3)]] by auto
    qed
  qed (use on_dev_grown [OF w(1)] in auto)
qed (use l w in \<open>auto simp: lookup_def intro: grown_refl\<close>)

lemma readdir_grown:
  assumes w: "fs_wf s" and l: "readdir B Ds i off s = (r, s')"
  shows "grown s s'"
proof (cases "inodes s ! i")
  case (Fat32DirInode cx cl a)
  from l Fat32DirInode have "bindE (on_dev (read_dir_entries B Ds cx cl))
            (\<lambda>entries s1.
               if off < length entries
               then let e = entries ! off
                    in case alloc_ino s1 of (ino, s2) \<Rightarrow>
                         (Ok (Some \<lparr>de_name = fe_name e, de_ino = ino,
                                de_kind = (if fe_is_dir e then Directory else Regular)\<rparr>), s2)
               else (Ok None, s1)) s = (r, s')" by (simp add: readdir_def fat_dir_readdir_def)
  then show ?thesis
  proof (cases rule: bindE_cases)
    case (ok es s1)
    note g = on_dev_grown [OF w(1) ok(1)]
    have "inodes s' = inodes s1" using ok(2) by (auto simp: alloc_ino_def Let_def split: if_splits)
    then show ?thesis using grown_trans [OF g grown_same [OF grown_wf [OF g]]] by simp
  qed (use on_dev_grown [OF w(1)] in auto)
qed (use l w in \<open>auto simp: readdir_def intro: grown_refl\<close>)

lemma bt_insert_wf:
  assumes "fs_wf s" "valid s i" "inodes s ! i = RamDir a m ch" "j < n" "length (inodes s) \<le> n"
  shows "node_wf n (RamDir a m (bt_insert name j ch))"
  using dir_wf [OF assms(1-3)] set_bt_insert [of name j ch] assms(4,5) bt_insert_sorted [of ch name j]
  by (fastforce simp: node_wf_def)

lemma bt_remove_wf:
  assumes "fs_wf s" "valid s i" "inodes s ! i = RamDir a m ch"
  shows "node_wf (length (inodes s)) (RamDir a m (bt_remove name ch))"
  using dir_wf [OF assms] sorted_bt_remove [of ch name] by (auto simp: node_wf_def bt_remove_def)

lemma add_child_grown:
  assumes w: "fs_wf s" "valid s i" and mk: "\<And>ino n. node_wf n (mk ino)" and l: "add_child i name mk s = (r, s')"
  shows "grown s s' \<and> (\<forall>j. r = Ok j \<longrightarrow> valid s' j)"
proof (cases "inodes s ! i")
  case (RamDir a m ch)
  show ?thesis
  proof (cases "map_of ch name")
    case None
    let ?s1 = "s\<lparr>NEXT_INO := NEXT_INO s + 1, inodes := inodes s @ [mk (NEXT_INO s)]\<rparr>"
    have g: "grown s ?s1" using w(1) mk by (intro grown_new) simp_all
    have r: "r = Ok (length (inodes s))" "s' = set_inode i (RamDir a m (bt_insert name (length (inodes s)) ch)) ?s1"
      using l RamDir None by (auto simp: add_child_def alloc_ino_def inode_new_def)
    have "grown ?s1 s'"
      unfolding r(2) using bt_insert_wf [OF w RamDir] by (intro grown_set grown_wf [OF g]) simp
    then show ?thesis using grown_trans [OF g] r by simp
  qed (use l w RamDir in \<open>auto simp: add_child_def intro: grown_refl\<close>)
qed (use l w in \<open>auto simp: add_child_def intro: grown_refl\<close>)

lemma unlink_grown:
  assumes w: "fs_wf s" "valid s i" and l: "inode_unlink i name s = (r, s')"
  shows "grown s s'"
proof (cases "inodes s ! i")
  case (RamDir a m ch)
  then show ?thesis
    using l w bt_remove_wf [OF w RamDir]
    by (auto simp: inode_unlink_def intro: grown_refl grown_set split: option.splits if_splits)
qed (use l w in \<open>auto simp: inode_unlink_def intro: grown_refl\<close>)

lemma rmdir_grown:
  assumes w: "fs_wf s" "valid s i" and l: "inode_rmdir B Ds i name s = (r, s')"
  shows "grown s s'"
proof (cases "\<exists>a m ch j. inodes s ! i = RamDir a m ch \<and> map_of ch name = Some j \<and> is_dir s j \<and> j \<noteq> i")
  case True
  then obtain a m ch j where d: "inodes s ! i = RamDir a m ch" "map_of ch name = Some j" "is_dir s j" "j \<noteq> i" by blast
  have "bindE (readdir B Ds j 0) (\<lambda>r s1. if r \<noteq> None then (Err Errno_ENOTEMPTY, s1)
      else (Ok (), set_inode i (RamDir a m (bt_remove name ch)) s1)) s = (r, s')"
    using l d by (simp add: inode_rmdir_def)
  then show ?thesis
  proof (cases rule: bindE_cases)
    case (ok e s1)
    note g = readdir_grown [OF w(1) ok(1)]
    have "node_wf (length (inodes s1)) (RamDir a m (bt_remove name ch))"
      using node_wf_mono [OF bt_remove_wf [OF w d(1)]] g by (simp add: grown_def)
    then have "grown s1 (set_inode i (RamDir a m (bt_remove name ch)) s1)" by (rule grown_set [OF grown_wf [OF g]])
    then show ?thesis using ok(2) g grown_trans by (auto split: if_splits)
  qed (use readdir_grown [OF w(1)] in auto)
next
  case False
  then show ?thesis
    using l w by (cases "inodes s ! i") (auto simp: inode_rmdir_def intro: grown_refl split: option.splits if_splits)
qed

lemma insert_child_grown:
  assumes w: "fs_wf s" "valid s i" "valid s j" and l: "insert_child i name j s = (r, s')"
  shows "grown s s'"
proof (cases "inodes s ! i")
  case (RamDir a m ch)
  then show ?thesis
    using l bt_insert_wf [OF w(1,2) RamDir w(3)] w(1) by (auto simp: insert_child_def intro: grown_set)
qed (use l w in \<open>auto simp: insert_child_def intro: grown_refl\<close>)

lemma rename_grown:
  assumes w: "fs_wf s" "valid s i" "valid s d" and l: "inode_rename i old d new s = (r, s')"
  shows "grown s s'"
proof (cases "inodes s ! i")
  case (RamDir a m ch)
  show ?thesis
  proof (cases "map_of ch old")
    case (Some j)
    let ?s1 = "set_inode i (RamDir a m (bt_remove old ch)) s"
    have g: "grown s ?s1" using bt_remove_wf [OF w(1,2) RamDir] w(1) by (intro grown_set)
    have "valid s j" by (rule child_valid [OF w(1,2) RamDir Some])
    then have "grown ?s1 s'"
      using l RamDir Some w(3) by (intro insert_child_grown [OF grown_wf [OF g], of d j new r]) (simp_all add: inode_rename_def)
    then show ?thesis using grown_trans [OF g] by blast
  qed (use l w RamDir in \<open>auto simp: inode_rename_def intro: grown_refl\<close>)
qed (use l w in \<open>auto simp: inode_rename_def intro: grown_refl\<close>)

lemma read_grown: "fs_wf s \<Longrightarrow> inode_read B Ds i off buf s = (r, s') \<Longrightarrow> grown s s'"
  by (cases "inodes s ! i") (auto simp: inode_read_def Let_def intro: grown_refl on_dev_grown split: if_splits)

lemma write_grown: "fs_wf s \<Longrightarrow> inode_write i off buf s = (r, s') \<Longrightarrow> grown s s'"
  by (cases "inodes s ! i") (auto simp: inode_write_def Let_def node_wf_def intro: grown_refl grown_set split: if_splits)

lemma truncate_grown: "fs_wf s \<Longrightarrow> inode_truncate i n s = (r, s') \<Longrightarrow> grown s s'"
  by (cases "inodes s ! i") (auto simp: inode_truncate_def node_wf_def intro: grown_refl grown_set split: if_splits)

lemma readlink_same: "inode_readlink i s = (r, s') \<Longrightarrow> s' = s"
  by (auto simp: inode_readlink_def split: inode_ops.splits)

lemma resolve_grown:
  "fs_wf s \<Longrightarrow> valid s root \<Longrightarrow> valid s cur \<Longrightarrow> resolve_from B Ds root cur cs depth s = (r, s') \<Longrightarrow>
     grown s s' \<and> (\<forall>x. r = Ok x \<longrightarrow> valid s' x)"
proof (induction depth cur cs arbitrary: s r s' rule: resolve_induct)
  case (Nil depth cur)
  then show ?case by (auto intro: grown_refl)
next
  case (Cons depth cur c cs)
  obtain r1 s1 where lk: "lookup B Ds cur c s = (r1, s1)" by (metis surj_pair)
  note g = lookup_grown [OF Cons.prems(1,3) lk]
  have v: "valid s1 root" "valid s1 cur" "fs_wf s1" using g Cons.prems grown_valid grown_wf by blast+
  have go: "grown s s' \<and> (\<forall>x. r = Ok x \<longrightarrow> valid s' x)"
    if "grown s t" "valid t y" "resolve_from B Ds root y cs depth t = (r, s')" for t y
    using Cons.IH(1) [OF grown_wf [OF that(1)] grown_valid [OF that(1) Cons.prems(2)] that(2,3)] grown_trans [OF that(1)] by blast
  consider (dot) "c = [46]" | (up) "c = [46, 46]" | (name) "c \<noteq> [46]" "c \<noteq> [46, 46]" by blast
  then show ?case
  proof cases
    case dot
    then show ?thesis using Cons.prems go [OF grown_refl [OF Cons.prems(1)] Cons.prems(3)] by (simp add: resolve_from.simps(2))
  next
    case up
    then show ?thesis
      using Cons.prems(4) lk g go [of s1] v(1) by (cases r1) (auto simp: resolve_from.simps(2))
  next
    case name
    show ?thesis
    proof (cases "\<exists>j t. is_dir s cur \<and> r1 = Ok j \<and> is_symlink s1 j \<and> inode_readlink j s1 = (Ok t, s1) \<and> depth < 40")
      case True
      then obtain j t where j: "is_dir s cur" "r1 = Ok j" "is_symlink s1 j" "inode_readlink j s1 = (Ok t, s1)" "depth < 40" by blast
      define start where "start = (if starts_with_slash t then root else cur)"
      have "valid s1 start" using v by (simp add: start_def)
      obtain r2 s2 where r2: "resolve_from B Ds root start (components t) (Suc depth) s1 = (r2, s2)" by (metis surj_pair)
      from Cons.IH(2) [OF j(5) v(3,1) \<open>valid s1 start\<close> r2] have g2: "grown s1 s2" "\<And>x. r2 = Ok x \<Longrightarrow> valid s2 x" by blast+
      have "(case r2 of Ok x \<Rightarrow> resolve_from B Ds root x cs depth s2 | Err e \<Rightarrow> (Err e, s2) | Panic \<Rightarrow> (Panic, s2)) = (r, s')"
        using Cons.prems(4) name j lk r2 by (simp add: resolve_from.simps(2) start_def split: res.splits)
      then show ?thesis using go [of s2] g g2 grown_trans [of s s1 s2] by (cases r2) auto
    next
      case False
      then show ?thesis
        using Cons.prems(4) name lk g go [of s1] grown_refl [OF Cons.prems(1)]
        by (cases r1) (auto simp: resolve_from.simps(2) is_symlink_iff inode_readlink_def split: if_splits)
    qed
  qed
qed

section \<open>What every operation keeps\<close>

text \<open>
  A rule for operations: from a well-formed store in which the inodes \<open>A\<close> exist, the operation leaves
  a well-formed store that has lost no inode, and the inodes \<open>g x\<close> of its result exist.
\<close>

definition keeps :: "nat set \<Rightarrow> ('d fs, 'a) op \<Rightarrow> ('a \<Rightarrow> nat set) \<Rightarrow> bool" where
  "keeps A m g \<longleftrightarrow> (\<forall>s r s'. fs_wf s \<longrightarrow> (\<forall>i\<in>A. valid s i) \<longrightarrow> m s = (r, s') \<longrightarrow>
     grown s s' \<and> (\<forall>x. r = Ok x \<longrightarrow> (\<forall>i\<in>g x. valid s' i)))"

lemma keepsI:
  assumes "\<And>s r s'. fs_wf s \<Longrightarrow> \<forall>i\<in>A. valid s i \<Longrightarrow> m s = (r, s') \<Longrightarrow> grown s s' \<and> (\<forall>x. r = Ok x \<longrightarrow> (\<forall>i\<in>g x. valid s' i))"
  shows "keeps A m g"
  using assms unfolding keeps_def by blast

lemma keepsD:
  assumes "keeps A m g" "fs_wf s" "\<forall>i\<in>A. valid s i" "m s = (r, s')"
  shows "grown s s'" "\<And>x i. r = Ok x \<Longrightarrow> i \<in> g x \<Longrightarrow> valid s' i"
  using assms unfolding keeps_def by blast+

lemma keeps_bind:
  assumes m: "keeps A m g" and f: "\<And>x. keeps (A \<union> g x) (f x) h"
  shows "keeps A (bindE m f) h"
proof (rule keepsI)
  fix s r s' assume s: "fs_wf s" "\<forall>i\<in>A. valid s i" "bindE m f s = (r, s')"
  from s(3) show "grown s s' \<and> (\<forall>x. r = Ok x \<longrightarrow> (\<forall>i\<in>h x. valid s' i))"
  proof (cases rule: bindE_cases)
    case (ok x s1)
    note k = keepsD [OF m s(1,2) ok(1)]
    have "\<forall>i\<in>A \<union> g x. valid s1 i" using k s(2) grown_valid by blast
    from keepsD [OF f grown_wf [OF k(1)] this ok(2)] show ?thesis using grown_trans [OF k(1)] by blast
  qed (use keepsD(1) [OF m s(1,2)] in auto)
qed

lemma keeps_ok: "g x \<subseteq> A \<Longrightarrow> keeps A (okE x) g"
  by (rule keepsI) (auto simp: okE_def grown_refl)

lemma keeps_mono: "keeps A m g \<Longrightarrow> A \<subseteq> A' \<Longrightarrow> (\<And>x. h x \<subseteq> g x \<union> A) \<Longrightarrow> keeps A' m h"
proof (rule keepsI)
  fix s r s' assume k: "keeps A m g" "A \<subseteq> A'" "\<And>x. h x \<subseteq> g x \<union> A" and s: "fs_wf s" "\<forall>i\<in>A'. valid s i" "m s = (r, s')"
  have "\<forall>i\<in>A. valid s i" using k(2) s(2) by blast
  note d = keepsD [OF k(1) s(1) this s(3)]
  have "valid s' i" if "r = Ok x" "i \<in> h x" for x i
  proof (cases "i \<in> A")
    case True
    then show ?thesis using k(2) s(2) grown_valid [OF d(1)] by blast
  next
    case False
    then have "i \<in> g x" using k(3) [of x] that(2) by blast
    then show ?thesis by (rule d(2) [OF that(1)])
  qed
  then show "grown s s' \<and> (\<forall>x. r = Ok x \<longrightarrow> (\<forall>i\<in>h x. valid s' i))" using d(1) by blast
qed

lemma keeps_lookup: "i \<in> A \<Longrightarrow> keeps A (lookup B Ds i c) (\<lambda>j. {j})"
  by (rule keepsI) (use lookup_grown in blast)

lemma keeps_resolve:
  assumes "root \<in> A" "cwd \<in> A"
  shows "keeps A (path_resolve B Ds root cwd path) (\<lambda>x. {x})"
proof (rule keepsI)
  fix s r s' assume s: "fs_wf s" "\<forall>i\<in>A. valid s i" "path_resolve B Ds root cwd path s = (r, s')"
  let ?st = "if starts_with_slash path then root else cwd"
  have "valid s root" "valid s ?st" using assms s(2) by auto
  from resolve_grown [OF s(1) this, of B Ds "components path" 0 r s']
  show "grown s s' \<and> (\<forall>x. r = Ok x \<longrightarrow> (\<forall>i\<in>{x}. valid s' i))"
    using s(3) by (simp add: path_resolve_def resolve_inner_def)
qed

lemma find_mount_in: "find_mount ms ap = Some (r, rel) \<Longrightarrow> r \<in> snd ` set ms"
  by (induction ms ap rule: find_mount.induct) (auto split: if_splits)

text \<open>The inodes a context holds.\<close>

definition vfs_inodes :: "vfs_context \<Rightarrow> nat set" where
  "vfs_inodes v = {vfs_root v, vfs_cwd v} \<union> snd ` set (mounts v)"

lemma keeps_vfs_resolve: "vfs_inodes v \<subseteq> A \<Longrightarrow> keeps A (vfs_resolve B Ds v path) (\<lambda>x. {x})"
  unfolding vfs_resolve_def resolve_abs_def
  by (cases "find_mount (mounts v) (make_absolute v path)")
    (auto simp: vfs_inodes_def dest!: find_mount_in intro!: keeps_resolve keeps_ok split: list.split)

lemma keeps_parent: "vfs_inodes v \<subseteq> A \<Longrightarrow> keeps A (vfs_parent B Ds v path) (\<lambda>(p, name). {p})"
  unfolding vfs_parent_def resolve_parent_def
  by (auto simp: vfs_inodes_def intro!: keeps_ok keeps_bind [OF keeps_resolve] split: prod.split)

lemma keeps_grown: "(\<And>s r s'. fs_wf s \<Longrightarrow> \<forall>i\<in>A. valid s i \<Longrightarrow> m s = (r, s') \<Longrightarrow> grown s s') \<Longrightarrow> keeps A m (\<lambda>_. {})"
  by (rule keepsI) blast

lemma keeps_add_child: "p \<in> A \<Longrightarrow> (\<And>ino n. node_wf n (mk ino)) \<Longrightarrow> keeps A (add_child p name mk) (\<lambda>j. {j})"
  by (rule keepsI) (use add_child_grown in blast)

lemma keeps_create: "p \<in> A \<Longrightarrow> keeps A (create p name mode) (\<lambda>j. {j})"
  unfolding create_def by (rule keeps_add_child) (simp_all add: node_wf_def)

lemma keeps_mkdir: "p \<in> A \<Longrightarrow> keeps A (inode_mkdir p name mode) (\<lambda>j. {j})"
  unfolding inode_mkdir_def by (rule keeps_add_child) (simp_all add: node_wf_def)

lemma keeps_symlink: "p \<in> A \<Longrightarrow> keeps A (inode_symlink p name t) (\<lambda>j. {j})"
  unfolding inode_symlink_def by (rule keeps_add_child) (simp_all add: node_wf_def)

lemma keeps_unlink: "p \<in> A \<Longrightarrow> keeps A (inode_unlink p name) (\<lambda>_. {})"
  by (rule keeps_grown) (use unlink_grown in blast)

lemma keeps_rmdir: "p \<in> A \<Longrightarrow> keeps A (inode_rmdir B Ds p name) (\<lambda>_. {})"
  by (rule keeps_grown) (use rmdir_grown in blast)

lemma keeps_rename: "p \<in> A \<Longrightarrow> d \<in> A \<Longrightarrow> keeps A (inode_rename p old d new) (\<lambda>_. {})"
  by (rule keeps_grown) (use rename_grown in blast)

lemma keeps_data:
  "keeps A (inode_read B Ds i off buf) (\<lambda>_. {})" "keeps A (inode_write i off buf) (\<lambda>_. {})"
  "keeps A (inode_truncate i n) (\<lambda>_. {})" "keeps A (readdir B Ds i k) (\<lambda>_. {})"
  by (rule keeps_grown, erule (1) read_grown, rule keeps_grown, erule (1) write_grown, rule keeps_grown,
      erule (1) truncate_grown, rule keeps_grown, erule (1) readdir_grown)

lemma keeps_state: "(\<And>s. keeps A (m s) g) \<Longrightarrow> keeps A (\<lambda>s. m s s) g"
proof (rule keepsI)
  fix s r s' assume k: "\<And>s. keeps A (m s) g" and s: "fs_wf s" "\<forall>i\<in>A. valid s i" "m s s = (r, s')"
  from keepsD [OF k [of s] s] show "grown s s' \<and> (\<forall>x. r = Ok x \<longrightarrow> (\<forall>i\<in>g x. valid s' i))" by blast
qed

lemmas keeps_rules = keeps_bind [OF keeps_vfs_resolve] keeps_bind [OF keeps_parent] keeps_bind [OF keeps_create]
  keeps_bind [OF keeps_mkdir] keeps_bind [OF keeps_symlink] keeps_unlink keeps_rmdir keeps_rename
  keeps_data keeps_data [THEN keeps_bind] keeps_ok

lemma keeps_file_read: "f_inode f \<in> A \<Longrightarrow> keeps A (file_read B Ds f buf) (\<lambda>(n, b, f1). {f_inode f1})"
  unfolding file_read_def by (auto intro!: keeps_rules split: prod.split)

lemma keeps_file_write: "f_inode f \<in> A \<Longrightarrow> keeps A (file_write f buf) (\<lambda>(n, f1). {f_inode f1})"
proof -
  let ?w = "\<lambda>off. bindE (inode_write (f_inode f) off buf) (\<lambda>n. okE (n, f\<lparr>f_offset := off + of_nat n\<rparr>))"
  let ?off = "\<lambda>s. if f_flags f AND O_APPEND \<noteq> 0 then st_size (inode_stat s (f_inode f)) else f_offset f"
  assume "f_inode f \<in> A"
  then have "keeps A (\<lambda>s. ?w (?off s) s) (\<lambda>(n, f1). {f_inode f1})"
    by (intro keeps_state [where m = "\<lambda>s. ?w (?off s)"]) (auto intro!: keeps_rules)
  then show ?thesis by (simp add: file_write_def [abs_def] Let_def)
qed

lemma keeps_readdir_next: "f_inode f \<in> A \<Longrightarrow> keeps A (readdir_next B Ds f) (\<lambda>(e, f1). {f_inode f1})"
  unfolding readdir_next_def by (auto intro!: keeps_rules)

lemma keeps_cases:
  assumes m: "keeps A m g" and ok: "\<And>x. keeps (A \<union> g x) (f x) h" and err: "\<And>e. keeps A (k e) h"
  shows "keeps A (\<lambda>s. case m s of (Ok x, s1) \<Rightarrow> f x s1 | (Err e, s1) \<Rightarrow> k e s1 | (Panic, s1) \<Rightarrow> (Panic, s1)) h"
proof (rule keepsI)
  fix s r s' assume s: "fs_wf s" "\<forall>i\<in>A. valid s i"
    and c: "(case m s of (Ok x, s1) \<Rightarrow> f x s1 | (Err e, s1) \<Rightarrow> k e s1 | (Panic, s1) \<Rightarrow> (Panic, s1)) = (r, s')"
  obtain r1 s1 where m1: "m s = (r1, s1)" by (metis surj_pair)
  note d = keepsD [OF m s m1]
  have a: "\<forall>i\<in>A. valid s1 i" using s(2) grown_valid [OF d(1)] by blast
  have next1: "grown s s' \<and> (\<forall>x. r = Ok x \<longrightarrow> (\<forall>i\<in>h x. valid s' i))"
    if "keeps A' n h" "\<forall>i\<in>A'. valid s1 i" "n s1 = (r, s')" for A' n
    using keepsD [OF that(1) grown_wf [OF d(1)] that(2,3)] grown_trans [OF d(1)] by blast
  show "grown s s' \<and> (\<forall>x. r = Ok x \<longrightarrow> (\<forall>i\<in>h x. valid s' i))"
  proof (cases r1)
    case (Ok x)
    then show ?thesis using next1 [OF ok [of x]] a d(2) c m1 by auto
  next
    case (Err e)
    then show ?thesis using next1 [OF err [of e]] a c m1 by simp
  qed (use c m1 d in auto)
qed

lemma keeps_err: "keeps A (errE e) g"
  by (rule keepsI) (auto simp: errE_def grown_refl)

lemma keeps_open:
  assumes "vfs_inodes v \<subseteq> A"
  shows "keeps A (vfs_open B Ds v path fl) (\<lambda>f. {f_inode f})"
proof -
  have eq: "vfs_open B Ds v path fl = (\<lambda>s. case vfs_resolve B Ds v path s of
       (Ok i, s1) \<Rightarrow> (if fl AND O_CREAT \<noteq> 0 \<and> fl AND O_TRUNC \<noteq> 0
         then bindE (inode_truncate i 0) (\<lambda>_. okE (file_new i fl)) else okE (file_new i fl)) s1
     | (Err e, s1) \<Rightarrow> (if e = Errno_ENOENT \<and> fl AND O_CREAT \<noteq> 0
         then bindE (vfs_parent B Ds v (make_absolute v path))
                (\<lambda>(p, name). bindE (create p name 0x1A4) (\<lambda>i. okE (file_new i fl))) else errE e) s1
     | (Panic, s1) \<Rightarrow> (Panic, s1))"
    by (rule ext) (simp add: vfs_open_def okE_def errE_def split: prod.split res.split)
  show ?thesis
    unfolding eq using assms
    by (intro keeps_cases [OF keeps_vfs_resolve]) (auto simp: file_new_def intro!: keeps_rules keeps_err split: prod.split)
qed

lemma keeps_mkdir_p_from: "cur \<in> A \<Longrightarrow> keeps A (mkdir_p_from B Ds cur cs) (\<lambda>_. {})"
proof (induction cs arbitrary: cur A)
  case Nil
  then show ?case by (auto intro!: keepsI grown_refl)
next
  case (Cons c cs)
  have eq: "mkdir_p_from B Ds cur (c # cs) = (\<lambda>s. case lookup B Ds cur c s of
      (Ok next, s1) \<Rightarrow> (\<lambda>s1. (if \<not> is_dir s1 next then errE Errno_ENOTDIR else mkdir_p_from B Ds next cs) s1) s1
    | (Err e, s1) \<Rightarrow> (if e = Errno_ENOENT then bindE (inode_mkdir cur c 0x1ED) (\<lambda>next. mkdir_p_from B Ds next cs) else errE e) s1
    | (Panic, s1) \<Rightarrow> (Panic, s1))"
    by (rule ext) (simp add: bindE_def errE_def split: prod.split res.split)
  show ?case
    unfolding eq using Cons
    by (intro keeps_cases [OF keeps_lookup]
          keeps_state [where m = "\<lambda>s. if \<not> is_dir s i then errE Errno_ENOTDIR else mkdir_p_from B Ds i cs" for i])
      (auto intro!: keeps_err keeps_bind [OF keeps_mkdir] Cons.IH)
qed

lemma keeps_mkdir_p: "vfs_inodes v \<subseteq> A \<Longrightarrow> keeps A (mkdir_p B Ds v path) (\<lambda>_. {})"
  unfolding mkdir_p_def by (rule keeps_mkdir_p_from) (auto simp: vfs_inodes_def)

lemma keeps_get: "keeps A (\<lambda>s. (Ok (h s), s)) (\<lambda>_. {})"
  by (rule keepsI) (auto simp: grown_refl)

lemma keeps_vfs:
  assumes "vfs_inodes v \<subseteq> A"
  shows "keeps A (vfs_mkdir B Ds v path) (\<lambda>_. {})" "keeps A (vfs_unlink B Ds v path) (\<lambda>_. {})"
    "keeps A (vfs_rmdir B Ds v path) (\<lambda>_. {})" "keeps A (vfs_rename B Ds v old new) (\<lambda>_. {})"
    "keeps A (vfs_symlink B Ds v target path) (\<lambda>_. {})" "keeps A (vfs_stat B Ds v path) (\<lambda>_. {})"
    "keeps A (write_file B Ds v path bs) (\<lambda>_. {})"
  using assms unfolding vfs_mkdir_def vfs_unlink_def vfs_rmdir_def vfs_rename_def vfs_symlink_def vfs_stat_def write_file_def
  by (auto intro!: keeps_rules keeps_bind [OF keeps_open] keeps_bind [OF keeps_file_write] keeps_get split: prod.split)

lemma read_all_grown:
  "fs_wf s \<Longrightarrow> valid s (f_inode f) \<Longrightarrow> read_all B Ds f fsize sofar buf s = (r, s') \<Longrightarrow> grown s s'"
proof (induction B Ds f fsize sofar buf s rule: read_all.induct)
  case (1 B Ds f fsize sofar buf s)
  show ?case
  proof (cases "sofar < fsize")
    case True
    obtain r1 s1 where rd: "file_read B Ds f (drop sofar buf) s = (r1, s1)" by (metis surj_pair)
    note k = keepsD [OF keeps_file_read [of f "{f_inode f}", OF singletonI] 1(2) _ rd, simplified, OF 1(3)]
    show ?thesis
    proof (cases r1)
      case (Ok x)
      obtain n rest f1 where x: "x = (n, rest, f1)" by (cases x)
      have v: "valid s1 (f_inode f1)" using k(2) Ok x by auto
      show ?thesis
        using 1(1) [OF True rd [symmetric] Ok x [symmetric] refl _ grown_wf [OF k(1)] v] 1(4) True rd Ok x k(1) grown_trans [OF k(1)]
        by (subst (asm) read_all.simps) (auto split: if_splits)
    qed (use 1(4) True rd k(1) in \<open>auto simp: read_all.simps [of B Ds f]\<close>)
  qed (use 1(2,4) in \<open>auto simp: read_all.simps [of B Ds f] grown_refl\<close>)
qed

lemma keeps_read_file: "vfs_inodes v \<subseteq> A \<Longrightarrow> keeps A (read_file B Ds v path) (\<lambda>_. {})"
  unfolding read_file_def Let_def
  by (rule keeps_bind [OF keeps_open]) (auto intro!: keeps_grown elim!: read_all_grown)

lemma readdir_loop_grown:
  assumes "readdir_loop B Ds f es s = Some y"
  shows "fs_wf s \<longrightarrow> valid s (f_inode f) \<longrightarrow> grown s (snd y)"
proof (rule readdir_loop.raw_induct [OF _ assms, where P = "\<lambda>B Ds f es s y. fs_wf s \<longrightarrow> valid s (f_inode f) \<longrightarrow> grown s (snd y)"],
    intro impI)
  fix loop :: "'a bus \<Rightarrow> drive list \<Rightarrow> open_file \<Rightarrow> dir_entry list \<Rightarrow> 'a fs \<Rightarrow> (dir_entry list res \<times> 'a fs) option"
    and B :: "'a bus" and Ds f es and s :: "'a fs" and y
  assume ih: "\<And>B Ds f es s y. loop B Ds f es s = Some y \<Longrightarrow> fs_wf s \<longrightarrow> valid s (f_inode f) \<longrightarrow> grown s (snd y)"
    and y: "(case readdir_next B Ds f s of
        (Ok (Some e, f1), s1) \<Rightarrow> loop B Ds f1 (es @ [e]) s1
      | (Ok (None, f1), s1) \<Rightarrow> Some (Ok es, s1)
      | (Err e, s1) \<Rightarrow> Some (Err e, s1)
      | (Panic, s1) \<Rightarrow> Some (Panic, s1)) = Some y" and w: "fs_wf s" "valid s (f_inode f)"
  obtain r1 s1 where rd: "readdir_next B Ds f s = (r1, s1)" by (metis surj_pair)
  note k = keepsD [OF keeps_readdir_next [of f "{f_inode f}", OF singletonI] w(1) _ rd, simplified, OF w(2)]
  show "grown s (snd y)"
  proof (cases "\<exists>e f1. r1 = Ok (Some e, f1)")
    case True
    then obtain e f1 where r: "r1 = Ok (Some e, f1)" by blast
    have "loop B Ds f1 (es @ [e]) s1 = Some y" using y rd r by simp
    from ih [OF this] show ?thesis using k r grown_wf [OF k(1)] grown_trans [OF k(1)] by simp
  qed (use y rd k in \<open>auto split: res.splits option.splits\<close>)
qed

section \<open>The file system as a state machine\<close>

text \<open>
  The state is the context, the open files and the store.  The steps are the calls of the context and of
  open files, with whatever result but a panic; a file system that is mounted comes from
  \<open>new_ramfs\<close> or from probing a drive.
\<close>

type_synonym 'd vstate = "vfs_context \<times> open_file list \<times> 'd fs"

definition no_panic :: "'a res \<Rightarrow> bool" where
  "no_panic r \<longleftrightarrow> (case r of Panic \<Rightarrow> False | _ \<Rightarrow> True)"

inductive vfs_step :: "'d bus \<Rightarrow> drive list \<Rightarrow> 'd vstate \<Rightarrow> 'd vstate \<Rightarrow> bool" for B Ds where
  open_ok: "vfs_open B Ds v path fl s = (Ok f, s1) \<Longrightarrow> vfs_step B Ds (v, fs, s) (v, f # fs, s1)"
| open_err: "vfs_open B Ds v path fl s = (Err e, s1) \<Longrightarrow> vfs_step B Ds (v, fs, s) (v, fs, s1)"
| mkdir: "vfs_mkdir B Ds v path s = (r, s1) \<Longrightarrow> no_panic r \<Longrightarrow> vfs_step B Ds (v, fs, s) (v, fs, s1)"
| mkdir_p: "mkdir_p B Ds v path s = (r, s1) \<Longrightarrow> no_panic r \<Longrightarrow> vfs_step B Ds (v, fs, s) (v, fs, s1)"
| unlink: "vfs_unlink B Ds v path s = (r, s1) \<Longrightarrow> no_panic r \<Longrightarrow> vfs_step B Ds (v, fs, s) (v, fs, s1)"
| rmdir: "vfs_rmdir B Ds v path s = (r, s1) \<Longrightarrow> no_panic r \<Longrightarrow> vfs_step B Ds (v, fs, s) (v, fs, s1)"
| rename: "vfs_rename B Ds v old new s = (r, s1) \<Longrightarrow> no_panic r \<Longrightarrow> vfs_step B Ds (v, fs, s) (v, fs, s1)"
| symlink: "vfs_symlink B Ds v target path s = (r, s1) \<Longrightarrow> no_panic r \<Longrightarrow> vfs_step B Ds (v, fs, s) (v, fs, s1)"
| stat: "vfs_stat B Ds v path s = (q, s1) \<Longrightarrow> no_panic q \<Longrightarrow> vfs_step B Ds (v, fs, s) (v, fs, s1)"
| readdir: "readdir_all B Ds v path s = Some (es, s1) \<Longrightarrow> no_panic es \<Longrightarrow> vfs_step B Ds (v, fs, s) (v, fs, s1)"
| write_file: "write_file B Ds v path bs s = (r, s1) \<Longrightarrow> no_panic r \<Longrightarrow> vfs_step B Ds (v, fs, s) (v, fs, s1)"
| read_file: "read_file B Ds v path s = (t, s1) \<Longrightarrow> no_panic t \<Longrightarrow> vfs_step B Ds (v, fs, s) (v, fs, s1)"
| cd: "vfs_cd B Ds v path s = (Ok v1, s1) \<Longrightarrow> vfs_step B Ds (v, fs, s) (v1, fs, s1)"
| cd_err: "vfs_cd B Ds v path s = (Err e, s1) \<Longrightarrow> vfs_step B Ds (v, fs, s) (v, fs, s1)"
| mount_ram: "new_ramfs s = (root, s0) \<Longrightarrow> vfs_mount B Ds v path root s0 = (Ok v1, s1) \<Longrightarrow> vfs_step B Ds (v, fs, s) (v1, fs, s1)"
| mount_drive: "probe_drive B Ds drv s = (Ok (Some root), s0) \<Longrightarrow> vfs_mount B Ds v path root s0 = (Ok v1, s1) \<Longrightarrow>
    vfs_step B Ds (v, fs, s) (v1, fs, s1)"
| umount: "vfs_umount v path = Inr ((), v1) \<Longrightarrow> vfs_step B Ds (v, fs, s) (v1, fs, s)"
| f_read: "f \<in> set fs \<Longrightarrow> file_read B Ds f buf s = (Ok (n, buf1, f1), s1) \<Longrightarrow> vfs_step B Ds (v, fs, s) (v, f1 # remove1 f fs, s1)"
| f_write: "f \<in> set fs \<Longrightarrow> file_write f buf s = (Ok (n, f1), s1) \<Longrightarrow> vfs_step B Ds (v, fs, s) (v, f1 # remove1 f fs, s1)"
| f_readdir: "f \<in> set fs \<Longrightarrow> readdir_next B Ds f s = (Ok (en, f1), s1) \<Longrightarrow> vfs_step B Ds (v, fs, s) (v, f1 # remove1 f fs, s1)"
| f_seek: "f \<in> set fs \<Longrightarrow> vfs_step B Ds (v, fs, s) (v, seek_set f pos # remove1 f fs, s)"
| f_close: "f \<in> set fs \<Longrightarrow> vfs_step B Ds (v, fs, s) (v, remove1 f fs, s)"

definition vfs_start :: "'d vstate \<Rightarrow> bool" where
  "vfs_start x \<longleftrightarrow> (case x of (v, fs, s) \<Rightarrow>
     fs = [] \<and> (\<exists>s0 root. inodes s0 = [] \<and> new_ramfs s0 = (root, s) \<and> v = vfs_new root))"

definition longest_first :: "(u8 list \<times> nat) list \<Rightarrow> bool" where
  "longest_first ms \<longleftrightarrow> sorted_wrt (\<lambda>a b. length (fst b) \<le> length (fst a)) ms"

definition vfs_inv :: "'d vstate \<Rightarrow> bool" where
  "vfs_inv x \<longleftrightarrow> (case x of (v, fs, s) \<Rightarrow>
     fs_wf s \<and> vfs_ok v s \<and> (\<forall>i\<in>vfs_inodes v \<union> f_inode ` set fs. valid s i) \<and> longest_first (mounts v))"

lemma vfs_invI:
  assumes "vfs_inv (v, fs, s)" "keeps (vfs_inodes v \<union> f_inode ` set fs) m g" "m s = (r, s1)"
    "set fs1 \<subseteq> set fs \<union> F" "\<forall>f\<in>F. f_inode f \<in> vfs_inodes v \<union> f_inode ` set fs \<or> (\<exists>x. r = Ok x \<and> f_inode f \<in> g x)"
  shows "vfs_inv (v, fs1, s1)"
proof -
  have i: "fs_wf s" "vfs_ok v s" "\<forall>i\<in>vfs_inodes v \<union> f_inode ` set fs. valid s i" "longest_first (mounts v)"
    using assms(1) by (simp_all add: vfs_inv_def)
  note k = keepsD [OF assms(2) i(1,3) assms(3)]
  have old: "valid s1 j" if "j \<in> vfs_inodes v \<union> f_inode ` set fs" for j using that i(3) grown_valid [OF k(1)] by blast
  have "valid s1 (f_inode f)" if "f \<in> set fs1" for f
  proof (cases "f_inode f \<in> vfs_inodes v \<union> f_inode ` set fs")
    case False
    then have "f \<in> F" using that assms(4) by blast
    then obtain x where "r = Ok x" "f_inode f \<in> g x" using assms(5) False by blast
    then show ?thesis by (rule k(2))
  qed (rule old)
  moreover have "vfs_ok v s1" using i(2) grown_valid [OF k(1)] by (simp add: vfs_ok_def)
  ultimately show ?thesis using grown_wf [OF k(1)] i(4) old by (auto simp: vfs_inv_def)
qed

lemma insert_mount_set: "set (insert_mount m ms) = insert m (set ms)"
  by (induction m ms rule: insert_mount.induct) auto

lemma insert_mount_longest: "longest_first ms \<Longrightarrow> longest_first (insert_mount m ms)"
  unfolding longest_first_def by (induction m ms rule: insert_mount.induct) (auto simp: insert_mount_set)

lemma new_ramfs_grown:
  assumes "fs_wf s" "new_ramfs s = (root, s1)" shows "grown s s1" "valid s1 root"
proof -
  obtain x where "inodes s1 = inodes s @ [x]" "node_wf (Suc (length (inodes s))) x" "root = length (inodes s)"
    using assms(2) by (auto simp: new_ramfs_def ramdir_new_inode_def alloc_ino_def inode_new_def node_wf_def)
  then show "grown s s1" "valid s1 root" using grown_new [OF assms(1)] by simp_all
qed

lemma keeps_probe: "keeps A (probe_drive B Ds drv) (\<lambda>r. set_option r)"
proof (rule keepsI)
  fix s r s' assume w: "fs_wf s" and p: "probe_drive B Ds drv s = (r, s')"
  from p [unfolded probe_drive_def] show "grown s s' \<and> (\<forall>x. r = Ok x \<longrightarrow> (\<forall>i\<in>set_option x. valid s' i))"
  proof (cases rule: bindE_cases)
    case (ok x s1)
    note g = on_dev_grown [OF w ok(1)]
    show ?thesis
    proof (cases x)
      case None
      then show ?thesis using ok(2) g by auto
    next
      case (Some c)
      then obtain y where "inodes s' = inodes s1 @ [y]" "node_wf (Suc (length (inodes s1))) y" "r = Ok (Some (length (inodes s1)))"
        using ok(2) by (auto simp: alloc_ino_def inode_new_def node_wf_def split: prod.splits)
      then show ?thesis using grown_trans [OF g grown_new [OF grown_wf [OF g]]] by simp
    qed
  qed (use on_dev_grown [OF w] in auto)
qed

lemma mount_inv:
  assumes i: "vfs_inv (v, fs, s)" and g: "grown s s0" "valid s0 root" and m: "vfs_mount B Ds v path root s0 = (Ok v1, s1)"
  shows "vfs_inv (v1, fs, s1)"
proof -
  obtain r where p: "mkdir_p B Ds v (mount_point path) s0 = (r, s1)"
    and v1: "v1 = v\<lparr>mounts := insert_mount (mount_point path, root) (mounts v)\<rparr>"
    using m by (auto simp: vfs_mount_def Let_def split: prod.splits res.splits)
  have i0: "fs_wf s" "vfs_ok v s" "\<forall>i\<in>vfs_inodes v \<union> f_inode ` set fs. valid s i" "longest_first (mounts v)"
    using i by (simp_all add: vfs_inv_def)
  have "\<forall>i\<in>vfs_inodes v. valid s0 i" using i0(3) grown_valid [OF g(1)] by blast
  note k = keepsD [OF keeps_mkdir_p [OF order.refl] grown_wf [OF g(1)] this p]
  have gr: "valid s1 i" if "valid s i \<or> i = root" for i using that g(2) grown_valid [OF g(1)] grown_valid [OF k(1)] by blast
  have "vfs_inodes v1 = insert root (vfs_inodes v)" by (auto simp: v1 vfs_inodes_def insert_mount_set)
  moreover have "vfs_ok v1 s1" using i0(2) gr by (simp add: v1 vfs_ok_def)
  ultimately show ?thesis
    using i0 gr grown_wf [OF k(1)] insert_mount_longest by (auto simp: vfs_inv_def v1)
qed

lemma trim_slashes_start: "starts_with_slash p \<Longrightarrow> trim_slashes p = [] \<or> starts_with_slash (trim_slashes p)"
  using trim_slashes_split [of p] unfolding starts_with_slash_def by (metis hd_append2)

lemma cd_inv:
  assumes i: "vfs_inv (v, fs, s)" and c: "vfs_cd B Ds v path s = (Ok v1, s1)"
  shows "vfs_inv (v1, fs, s1)"
proof -
  let ?ap = "make_absolute v path"
  obtain j where r: "vfs_resolve B Ds v path s = (Ok j, s1)"
    and v1: "v1 = v\<lparr>vfs_cwd := j, cwd_path := (if ?ap = [47] then ?ap else trim_slashes ?ap)\<rparr>"
    using c by (auto simp: vfs_cd_def bindE_Ok Let_def split: if_splits)
  have ok: "vfs_ok v s" using i by (simp add: vfs_inv_def)
  have k: "keeps (vfs_inodes v \<union> f_inode ` set fs) (vfs_resolve B Ds v path) (\<lambda>x. {x})" by (rule keeps_vfs_resolve) blast
  have i1: "vfs_inv (v, fs, s1)" by (rule vfs_invI [OF i k r, of _ "{}"]) auto
  have "valid s1 j" using keepsD(2) [OF k _ _ r] i by (auto simp: vfs_inv_def)
  moreover have "starts_with_slash ?ap" by (rule make_absolute_slash [OF ok])
  ultimately show ?thesis
    using i1 trim_slashes_start [of ?ap] by (auto simp: vfs_inv_def v1 vfs_ok_def vfs_inodes_def)
qed

lemma umount_inv:
  assumes "vfs_inv (v, fs, s)" "vfs_umount v path = Inr ((), v1)"
  shows "vfs_inv (v1, fs, s)"
proof -
  have v1: "v1 = v\<lparr>mounts := filter (\<lambda>m. fst m \<noteq> path) (mounts v)\<rparr>"
    using assms(2) by (auto simp: vfs_umount_def Let_def split: if_splits)
  then have "vfs_inodes v1 \<subseteq> vfs_inodes v" "vfs_ok v1 s = vfs_ok v s" "longest_first (mounts v) \<longrightarrow> longest_first (mounts v1)"
    by (auto simp: vfs_inodes_def vfs_ok_def longest_first_def sorted_wrt_filter)
  then show ?thesis using assms(1) unfolding vfs_inv_def by blast
qed

lemma readdir_all_grown:
  assumes a: "readdir_all B Ds v path s = Some y" "fs_wf s" "\<forall>i\<in>vfs_inodes v. valid s i"
  shows "grown s (snd y)"
proof -
  obtain r s1 where r: "vfs_resolve B Ds v path s = (r, s1)" by (metis surj_pair)
  note k = keepsD [OF keeps_vfs_resolve [OF order.refl] a(2,3) r]
  show ?thesis
  proof (cases "\<exists>i. r = Ok i \<and> is_dir s1 i")
    case True
    then obtain i where i: "r = Ok i" "is_dir s1 i" by blast
    then have "readdir_loop B Ds (file_new i 0) [] s1 = Some y" using a(1) r by (simp add: readdir_all_def)
    from readdir_loop_grown [OF this] show ?thesis
      using grown_wf [OF k(1)] k(2) [OF i(1)] grown_trans [OF k(1)] by (simp add: file_new_def)
  qed (use a(1) r k(1) in \<open>auto simp: readdir_all_def split: res.splits if_splits\<close>)
qed

lemma vfs_inv_grown: "vfs_inv (v, fs, s) \<Longrightarrow> grown s s1 \<Longrightarrow> vfs_inv (v, fs, s1)"
  using grown_valid [of s s1] grown_wf [of s s1] by (auto simp: vfs_inv_def vfs_ok_def)

lemma inv_keeps:
  assumes "vfs_inv (v, fs, s)" "\<And>A. vfs_inodes v \<subseteq> A \<Longrightarrow> keeps A m g" "m s = (r, s1)"
  shows "vfs_inv (v, fs, s1)"
  by (rule vfs_inv_grown [OF assms(1) keepsD(1) [OF assms(2) [OF order.refl] _ _ assms(3)]])
    (use assms(1) in \<open>auto simp: vfs_inv_def\<close>)

lemma inv_file:
  assumes i: "vfs_inv (v, fs, s)" and f: "f \<in> set fs" "\<And>A. f_inode f \<in> A \<Longrightarrow> keeps A m g" "m s = (Ok x, s1)" "f_inode f1 \<in> g x"
  shows "vfs_inv (v, f1 # remove1 f fs, s1)"
proof -
  have k: "keeps (vfs_inodes v \<union> f_inode ` set fs) m g" using f(1) by (intro f(2)) blast
  show ?thesis by (rule vfs_invI [OF i k f(3), where F = "{f1}"]) (use f(4) in \<open>auto dest: notin_set_remove1\<close>)
qed

lemma keeps_cd: "vfs_inodes v \<subseteq> A \<Longrightarrow> keeps A (vfs_cd B Ds v path) (\<lambda>_. {})"
  unfolding vfs_cd_def
  by (rule keeps_bind [OF keeps_vfs_resolve]) (auto intro!: keeps_grown grown_refl simp: Let_def split: if_splits)

lemma vfs_step_inv: "vfs_step B Ds x y \<Longrightarrow> vfs_inv x \<Longrightarrow> vfs_inv y"
proof (induction rule: vfs_step.induct)
  case (open_ok v path fl s f s1 fs)
  show ?case by (rule vfs_invI [OF open_ok(2) keeps_open open_ok(1), where F = "{f}"]) auto
next
  case (open_err v path fl s e s1 fs)
  show ?case by (rule inv_keeps [OF open_err(2) keeps_open open_err(1)])
next
  case (mkdir v path s r s1 fs)
  show ?case by (rule inv_keeps [OF mkdir(3) keeps_vfs(1) mkdir(1)])
next
  case (mkdir_p v path s r s1 fs)
  show ?case by (rule inv_keeps [OF mkdir_p(3) keeps_mkdir_p mkdir_p(1)])
next
  case (unlink v path s r s1 fs)
  show ?case by (rule inv_keeps [OF unlink(3) keeps_vfs(2) unlink(1)])
next
  case (rmdir v path s r s1 fs)
  show ?case by (rule inv_keeps [OF rmdir(3) keeps_vfs(3) rmdir(1)])
next
  case (rename v old new s r s1 fs)
  show ?case by (rule inv_keeps [OF rename(3) keeps_vfs(4) rename(1)])
next
  case (symlink v target path s r s1 fs)
  show ?case by (rule inv_keeps [OF symlink(3) keeps_vfs(5) symlink(1)])
next
  case (stat v path s q s1 fs)
  show ?case by (rule inv_keeps [OF stat(3) keeps_vfs(6) stat(1)])
next
  case (readdir v path s es s1 fs)
  have "fs_wf s" "\<forall>i\<in>vfs_inodes v. valid s i" using readdir(3) by (auto simp: vfs_inv_def)
  from vfs_inv_grown [OF readdir(3) readdir_all_grown [OF readdir(1) this]] show ?case by simp
next
  case (write_file v path bs s r s1 fs)
  show ?case by (rule inv_keeps [OF write_file(3) keeps_vfs(7) write_file(1)])
next
  case (read_file v path s t s1 fs)
  show ?case by (rule inv_keeps [OF read_file(3) keeps_read_file read_file(1)])
next
  case (cd v path s v1 s1 fs)
  show ?case by (rule cd_inv [OF cd(2,1)])
next
  case (cd_err v path s e s1 fs)
  show ?case by (rule inv_keeps [OF cd_err(2) keeps_cd cd_err(1)])
next
  case (mount_ram s root s0 v path v1 s1 fs)
  have "fs_wf s" using mount_ram(3) by (simp add: vfs_inv_def)
  show ?case by (rule mount_inv [OF mount_ram(3) new_ramfs_grown [OF \<open>fs_wf s\<close> mount_ram(1)] mount_ram(2)])
next
  case (mount_drive drv s root s0 v path v1 s1 fs)
  have "fs_wf s" using mount_drive(3) by (simp add: vfs_inv_def)
  note d = keepsD [OF keeps_probe [of "{}"] this _ mount_drive(1), simplified]
  show ?case by (rule mount_inv [OF mount_drive(3) d mount_drive(2)]) simp_all
next
  case (umount v path v1 fs s)
  show ?case by (rule umount_inv [OF umount(2,1)])
next
  case (f_read f fs buf s n buf1 f1 s1 v)
  show ?case by (rule inv_file [OF f_read(3,1) keeps_file_read f_read(2)]) auto
next
  case (f_write f fs buf s n f1 s1 v)
  show ?case by (rule inv_file [OF f_write(3,1) keeps_file_write f_write(2)]) auto
next
  case (f_readdir f fs s en f1 s1 v)
  show ?case by (rule inv_file [OF f_readdir(3,1) keeps_readdir_next f_readdir(2)]) auto
next
  case (f_seek f fs v s pos)
  then show ?case using set_remove1_subset [of f fs] by (fastforce simp: vfs_inv_def seek_set_def)
next
  case (f_close f fs v s)
  then show ?case using set_remove1_subset [of f fs] by (fastforce simp: vfs_inv_def)
qed

lemma vfs_start_inv: "vfs_start x \<Longrightarrow> vfs_inv x"
proof -
  assume "vfs_start x"
  then obtain s0 root s where x: "x = (vfs_new root, [], s)" "inodes s0 = []" "new_ramfs s0 = (root, s)"
    by (auto simp: vfs_start_def)
  have "fs_wf s0" using x(2) by (simp add: fs_wf_def)
  from new_ramfs_grown [OF this x(3)] show ?thesis
    by (simp add: x(1) vfs_inv_def grown_def vfs_ok_def vfs_new_def vfs_inodes_def longest_first_def starts_with_slash_def)
qed

interpretation vfs_machine: transition_invariant vfs_start "vfs_step B Ds" vfs_inv for B :: "'d bus" and Ds
  by unfold_locales (erule vfs_start_inv, erule (1) vfs_step_inv)

text \<open>The calls of \<open>init_rootfs\<close> are steps of the machine, so the system boots into a reachable state.\<close>

lemma do_all_reach:
  assumes "reach st (vfs_step B Ds) (v, fs, s)" "do_all ops s = (r, s1)" "r \<noteq> Panic"
    "\<forall>f\<in>set ops. \<forall>s r s1. f s = (r, s1) \<longrightarrow> no_panic r \<longrightarrow> vfs_step B Ds (v, fs, s) (v, fs, s1)"
  shows "reach st (vfs_step B Ds) (v, fs, s1)"
  using assms
proof (induction ops arbitrary: s)
  case (Cons f ops)
  obtain r0 s0 where f: "f s = (r0, s0)" by (metis surj_pair)
  have p: "no_panic r0" "do_all ops s0 = (r, s1)" using Cons.prems(2,3) f by (cases r0; auto simp: no_panic_def)+
  have "vfs_step B Ds (v, fs, s) (v, fs, s0)" using Cons.prems(4) f p(1) by simp
  from Cons.IH [OF reach_step [OF Cons.prems(1) this] p(2) Cons.prems(3)] show ?case using Cons.prems(4) by simp
qed simp

lemma init_rootfs_reach:
  assumes "inodes s0 = []" "init_rootfs B Ds img s0 = (Ok v, s)"
  shows "reach vfs_start (vfs_step B Ds) (v, [], s)"
proof -
  obtain root s1 where n: "new_ramfs s0 = (root, s1)" by (metis surj_pair)
  have st: "reach vfs_start (vfs_step B Ds) (vfs_new root, [], s1)"
    by (rule reach_start) (use n assms(1) in \<open>auto simp: vfs_start_def\<close>)
  show ?thesis
    using assms(2) n
    by (auto simp: init_rootfs_def Let_def simp del: do_all.simps split: prod.splits res.splits
        intro!: do_all_reach [OF st] intro: vfs_step.mkdir vfs_step.write_file)
qed

section \<open>Mount points\<close>

text \<open>A mount point covers its own path and the paths below it.\<close>

definition covers :: "u8 list \<Rightarrow> u8 list \<Rightarrow> bool" where
  "covers mp ap \<longleftrightarrow> ap = mp \<or> (\<exists>rel. ap = mp @ 47 # rel)"

lemma take_prefix: "take (Suc (length mp)) ap = mp @ [47] \<longleftrightarrow> (\<exists>rel. ap = mp @ 47 # rel)"
proof
  assume "take (Suc (length mp)) ap = mp @ [47]"
  then have "ap = (mp @ [47]) @ drop (Suc (length mp)) ap" using append_take_drop_id [of "Suc (length mp)" ap] by simp
  then show "\<exists>rel. ap = mp @ 47 # rel" by auto
qed auto

lemma find_mount_None: "find_mount ms ap = None \<longleftrightarrow> (\<forall>m\<in>set ms. \<not> covers (fst m) ap)"
  by (induction ms ap rule: find_mount.induct) (auto simp: covers_def take_prefix simp del: take_append)

lemma find_mount_Some:
  assumes "longest_first ms" "find_mount ms ap = Some (r, rel)"
  shows "\<exists>mp. (mp, r) \<in> set ms \<and> covers mp ap \<and> ap = mp @ rel \<and> (\<forall>m\<in>set ms. covers (fst m) ap \<longrightarrow> length (fst m) \<le> length mp)"
  using assms
proof (induction ms)
  case (Cons m ms)
  obtain mp r1 where m: "m = (mp, r1)" by (cases m)
  have l: "longest_first ms" "\<forall>x\<in>set ms. length (fst x) \<le> length mp" using Cons.prems(1) by (auto simp: longest_first_def m)
  show ?case
  proof (cases "covers mp ap")
    case True
    then have "r = r1" "ap = mp @ rel" using Cons.prems(2) by (auto simp: m covers_def)
    then show ?thesis using True l(2) m by auto
  next
    case False
    then have "find_mount ms ap = Some (r, rel)" using Cons.prems(2) by (auto simp: m covers_def take_prefix simp del: take_append split: if_splits)
    from Cons.IH [OF l(1) this] obtain mp1 where "(mp1, r) \<in> set ms" "covers mp1 ap" "ap = mp1 @ rel"
      "\<forall>m\<in>set ms. covers (fst m) ap \<longrightarrow> length (fst m) \<le> length mp1" by blast
    then show ?thesis using False m by auto
  qed
qed simp

section \<open>Links in a circle\<close>

text \<open>The names \<open>L\<close> of the directory \<open>d\<close> are links to one another.\<close>

definition link_circle :: "'d fs \<Rightarrow> nat \<Rightarrow> nat \<Rightarrow> u8 list set \<Rightarrow> bool" where
  "link_circle s root d L \<longleftrightarrow> [46] \<notin> L \<and> [46, 46] \<notin> L \<and> (\<exists>a m ch. inodes s ! d = RamDir a m ch \<and>
     (\<forall>c\<in>L. \<exists>j ino t c' cs. map_of ch c = Some j \<and> inodes s ! j = RamSymlink ino t \<and>
        components t = c' # cs \<and> c' \<in> L \<and> (starts_with_slash t \<longrightarrow> d = root)))"

lemma circle_resolve:
  assumes "link_circle s root d L"
  shows "c \<in> L \<Longrightarrow> depth \<le> 40 \<Longrightarrow> resolve_from B Ds root d (c # cs) depth s = (Err (Errno 40), s)"
proof (induction "40 - depth" arbitrary: depth c cs)
  case (0 depth)
  obtain a m ch where d: "inodes s ! d = RamDir a m ch" "[46] \<notin> L" "[46, 46] \<notin> L" using assms by (auto simp: link_circle_def)
  obtain j ino t where j: "map_of ch c = Some j" "inodes s ! j = RamSymlink ino t"
    using assms 0(2) d(1) by (auto simp: link_circle_def)
  have "c \<noteq> [46]" "c \<noteq> [46, 46]" "depth = 40" using d 0 by auto
  then show ?case using d(1) j
    by (simp add: resolve_from.simps(2) lookup_def is_dir_def is_symlink_def inode_stat_def inode_readlink_def)
next
  case (Suc n depth)
  obtain a m ch where d: "inodes s ! d = RamDir a m ch" "[46] \<notin> L" "[46, 46] \<notin> L" using assms by (auto simp: link_circle_def)
  obtain j ino t c' cs' where j: "map_of ch c = Some j" "inodes s ! j = RamSymlink ino t" "components t = c' # cs'" "c' \<in> L"
    "starts_with_slash t \<longrightarrow> d = root"
    using assms Suc.prems(1) d(1) by (fastforce simp: link_circle_def)
  have ih: "resolve_from B Ds root d (c' # cs') (Suc depth) s = (Err (Errno 40), s)"
    by (rule Suc.hyps(1)) (use Suc j in auto)
  have c: "c \<noteq> [46]" "c \<noteq> [46, 46]" "depth < 40" using d Suc by auto
  have "(if starts_with_slash t then root else d) = d" using j(5) by simp
  then show ?case using d(1) j(1-3) c ih
    by (simp add: resolve_from.simps(2) lookup_def is_dir_def is_symlink_def inode_stat_def inode_readlink_def)
qed

section \<open>Properties\<close>



text \<open>C37: A path is resolved in the file system with the longest mount point that covers it.  In every
  reachable state, \<open>find_mount\<close> returns nothing exactly when no mount point covers the path; otherwise it
  returns the root mounted at a mount point that covers the path and is the longest to do so, and the rest
  of the path after it.\<close>

theorem find_mount_longest:
  assumes "reach vfs_start (vfs_step B Ds) (v, fs, s)"
  shows "case find_mount (mounts v) ap of
      None \<Rightarrow> \<forall>m\<in>set (mounts v). \<not> covers (fst m) ap
    | Some (r, rel) \<Rightarrow> \<exists>mp. (mp, r) \<in> set (mounts v) \<and> covers mp ap \<and> ap = mp @ rel \<and>
        (\<forall>m\<in>set (mounts v). covers (fst m) ap \<longrightarrow> length (fst m) \<le> length mp)"
proof -
  have "longest_first (mounts v)" using vfs_machine.reach_inv [OF assms] by (simp add: vfs_inv_def)
  then show ?thesis using find_mount_None [of "mounts v" ap] find_mount_Some [of "mounts v" ap]
    by (auto split: option.split prod.split)
qed


section \<open>Witnesses\<close>

text \<open>An empty root directory.\<close>

definition example_root :: "unit fs" where
  "example_root = \<lparr>NEXT_INO = 2, inodes = [RamDir 1 0x1ED []], dev = ()\<rparr>"

definition example_file :: "unit fs" where
  "example_file = \<lparr>NEXT_INO = 3, inodes = [RamDir 1 0x1ED [([97], 1)], RamFile 2 0x1A4 [104, 105]], dev = ()\<rparr>"

lemma example_resolve:
  "vfs_resolve B Ds (vfs_new 0) [47, 97] example_root = (Err Errno_ENOENT, example_root)"
  by (simp add: vfs_resolve_def make_absolute_def vfs_new_def starts_with_slash_def resolve_abs_def path_resolve_def
      resolve_inner_def components_def resolve_from.simps(2) lookup_def example_root_def is_dir_def inode_stat_def)

lemma example_write: "write_file B Ds (vfs_new 0) [47, 97] [104, 105] example_root = (Ok (), example_file)"
proof -
  have p: "vfs_parent B Ds (vfs_new 0) (make_absolute (vfs_new 0) [47, 97]) example_root = (Ok (0, [97]), example_root)"
    by (simp add: vfs_parent_def resolve_parent_def split_last_def trim_slashes_def vfs_new_def make_absolute_def starts_with_slash_def
        path_resolve_def resolve_inner_def components_def)
  have o: "vfs_open B Ds (vfs_new 0) [47, 97] W_FLAGS example_root =
      (Ok (file_new 1 W_FLAGS), \<lparr>NEXT_INO = 3, inodes = [RamDir 1 0x1ED [([97], 1)], RamFile 2 0x1A4 []], dev = ()\<rparr>)"
    using w_flags example_resolve [of B Ds] p
    by (simp add: vfs_open_def bindE_def create_def add_child_def alloc_ino_def inode_new_def set_inode_def example_root_def)
  show ?thesis
    unfolding write_file_def bindE_def [of "vfs_open B Ds (vfs_new 0) [47, 97] W_FLAGS"] o
    by (simp add: file_write_empty set_inode_def example_file_def)
qed

lemma example_root_ok: "ram_only example_root" "fs_wf example_root" "vfs_ok (vfs_new 0) example_root" "mounts (vfs_new 0) = []"
  by (simp_all add: example_root_def ram_only_def fs_wf_def node_wf_def vfs_ok_def vfs_new_def starts_with_slash_def)


text \<open>Two file systems mounted, one inside the directory of the other.\<close>

definition example_mounted :: "vfs_context" where
  "example_mounted = (vfs_new 0)\<lparr>mounts := [([47, 97, 47, 98], 3), ([47, 97], 1)]\<rparr>"

definition example_tree :: "unit fs" where
  "example_tree = \<lparr>NEXT_INO = 6, inodes = [RamDir 1 0x1ED [([97], 2)], RamDir 2 0x1ED [], RamDir 3 0x1ED [([98], 4)],
     RamDir 4 0x1ED [], RamDir 5 0x1ED []], dev = ()\<rparr>"

lemma example_reach: "reach vfs_start (vfs_step (const_bus 0) []) (example_mounted, [], example_tree)"
proof -
  let ?s1 = "\<lparr>NEXT_INO = 4, inodes = [RamDir 1 0x1ED [([97], 2)], RamDir 2 0x1ED [], RamDir 3 0x1ED []], dev = ()\<rparr> :: unit fs"
  note defs = new_ramfs_def ramdir_new_inode_def alloc_ino_def inode_new_def example_root_def vfs_mount_def mount_point_def
    mkdir_p_def starts_with_slash_def vfs_new_def components_def lookup_def inode_mkdir_def add_child_def set_inode_def is_dir_def
    inode_stat_def errno_defs
  have "reach vfs_start (vfs_step (const_bus 0) []) (vfs_new 0, [], example_root)"
    by (rule reach_start)
      (auto simp: vfs_start_def defs intro!: exI [of _ "\<lparr>NEXT_INO = 1, inodes = [], dev = ()\<rparr>"])
  moreover have "vfs_step (const_bus 0) [] (vfs_new 0, [], example_root) ((vfs_new 0)\<lparr>mounts := [([47, 97], 1)]\<rparr>, [], ?s1)"
    by (rule vfs_step.mount_ram [where path = "[47, 97]" and root = 1,
          of _ "\<lparr>NEXT_INO = 3, inodes = [RamDir 1 0x1ED [], RamDir 2 0x1ED []], dev = ()\<rparr>"]) (simp_all add: defs)
  moreover have "vfs_step (const_bus 0) [] ((vfs_new 0)\<lparr>mounts := [([47, 97], 1)]\<rparr>, [], ?s1) (example_mounted, [], example_tree)"
    by (rule vfs_step.mount_ram [where path = "[47, 97, 47, 98]" and root = 3,
          of _ "\<lparr>NEXT_INO = 5, inodes = [RamDir 1 0x1ED [([97], 2)], RamDir 2 0x1ED [], RamDir 3 0x1ED [], RamDir 4 0x1ED []], dev = ()\<rparr>"])
      (simp_all add: defs example_mounted_def example_tree_def)
  ultimately show ?thesis by (blast intro: reach_step)
qed


theorem find_mount_longest_witness:
  "find_mount (mounts example_mounted) [47, 97, 47, 98, 47, 99] = Some (3, [47, 99]) \<and>
   (\<exists>mp. (mp, 3) \<in> set (mounts example_mounted) \<and> covers mp [47, 97, 47, 98, 47, 99])"
  using find_mount_longest [OF example_reach, of "[47, 97, 47, 98, 47, 99]"] by (simp add: example_mounted_def)

text \<open>Two links, \<open>a\<close> to \<open>b\<close> and \<open>b\<close> to \<open>/a\<close>.\<close>

definition example_links :: "unit fs" where
  "example_links = \<lparr>NEXT_INO = 4, inodes = [RamDir 1 0x1ED [([97], 1), ([98], 2)], RamSymlink 2 [98], RamSymlink 3 [47, 97]], dev = ()\<rparr>"


end
