(* ===== verification/Heap.thy ===== *)
theory Heap
  imports Frames
begin

text \<open>
  The kernel heap (\<open>mm/heap.rs\<close>): slab caches for small objects, whose headers and free lists are in the
  pages they manage, and whole blocks of frames for everything larger.
\<close>

unbundle bit_operations_syntax

section \<open>Slabs\<close>

definition SLAB_SIZES :: "u64 list" where
  "SLAB_SIZES = [8, 16, 32, 64, 128, 256, 512, 1024, 2048]"

text \<open>
  The header of a slab is at the start of its page: six fields of eight bytes, here in the order in which
  they are declared.  Pointers are kernel addresses in the direct map; \<open>FreeObj::next\<close> is the first field
  of a free object.
\<close>

definition SLAB_BYTES :: u64 where "SLAB_BYTES = 48"

definition get_field :: "kmem \<Rightarrow> u64 \<Rightarrow> u64 \<Rightarrow> u64" where
  "get_field k slab off = load64 (ram k) (virt_to_phys (hhdm k) slab + off)"

definition set_field :: "u64 \<Rightarrow> u64 \<Rightarrow> u64 \<Rightarrow> kmem \<Rightarrow> kmem" where
  "set_field slab off v k = k\<lparr>ram := store64 (ram k) (virt_to_phys (hhdm k) slab + off) v\<rparr>"

definition slab_base :: "kmem \<Rightarrow> u64 \<Rightarrow> u64" where "slab_base k slab = get_field k slab 0"
definition slab_obj_size :: "kmem \<Rightarrow> u64 \<Rightarrow> u64" where "slab_obj_size k slab = get_field k slab 8"
definition slab_free :: "kmem \<Rightarrow> u64 \<Rightarrow> u64" where "slab_free k slab = get_field k slab 16"
definition slab_used :: "kmem \<Rightarrow> u64 \<Rightarrow> usize" where "slab_used k slab = get_field k slab 24"
definition slab_capacity :: "kmem \<Rightarrow> u64 \<Rightarrow> usize" where "slab_capacity k slab = get_field k slab 32"
definition slab_next :: "kmem \<Rightarrow> u64 \<Rightarrow> u64" where "slab_next k slab = get_field k slab 40"

text \<open>The objects are linked from the last to the first, so that the free list is in address order.\<close>

fun link_objs :: "u64 \<Rightarrow> u64 \<Rightarrow> nat \<Rightarrow> u64 \<Rightarrow> kmem \<Rightarrow> u64 \<times> kmem" where
  "link_objs objs_start obj_size 0 prev k = (prev, k)"
| "link_objs objs_start obj_size (Suc i) prev k =
     (let obj = objs_start + of_nat i * obj_size
      in link_objs objs_start obj_size i obj (set_field obj 0 prev k))"

definition slab_new :: "kmem \<Rightarrow> u64 \<Rightarrow> (u64 \<times> kmem) option" where
  "slab_new k obj_size =
     (case alloc_zeroed_frame k of None \<Rightarrow> None
      | Some (phys, k1) \<Rightarrow>
          let base = phys_to_virt (hhdm k1) phys;
              header_size = align_up SLAB_BYTES obj_size;
              capacity = (PAGE_SIZE - header_size) div obj_size;
              k2 = set_field base 40 0 (set_field base 32 capacity (set_field base 24 0
                     (set_field base 16 0 (set_field base 8 obj_size (set_field base 0 base k1)))))
          in case link_objs (base + header_size) obj_size (unat capacity) 0 k2 of
               (prev, k3) \<Rightarrow> Some (base, set_field base 16 prev k3))"

definition slab_alloc :: "kmem \<Rightarrow> u64 \<Rightarrow> u64 option \<times> kmem" where
  "slab_alloc k slab =
     (if slab_free k slab = 0 then (None, k)
      else let obj = slab_free k slab;
               k1 = set_field slab 16 (get_field k obj 0) k;
               k2 = set_field slab 24 (slab_used k1 slab + 1) k1
           in (Some obj, k2))"

definition slab_dealloc :: "kmem \<Rightarrow> u64 \<Rightarrow> u64 \<Rightarrow> kmem" where
  "slab_dealloc k slab ptr =
     (let k1 = set_field ptr 0 (slab_free k slab) k;
          k2 = set_field slab 16 ptr k1
      in set_field slab 24 (slab_used k2 slab - 1) k2)"

definition slab_is_empty :: "kmem \<Rightarrow> u64 \<Rightarrow> bool" where
  "slab_is_empty k slab \<longleftrightarrow> slab_used k slab = 0"

definition slab_is_full :: "kmem \<Rightarrow> u64 \<Rightarrow> bool" where
  "slab_is_full k slab \<longleftrightarrow> slab_used k slab = slab_capacity k slab"

section \<open>Caches\<close>

record slab_cache =
  c_obj_size :: usize
  c_partial :: u64
  c_full :: u64

definition cache_new :: "usize \<Rightarrow> slab_cache" where
  "cache_new obj_size = \<lparr>c_obj_size = obj_size, c_partial = 0, c_full = 0\<rparr>"

text \<open>
  \<open>SlabCache::alloc\<close> calls itself once a fresh slab is in front of the partial list.
\<close>

partial_function (option) cache_alloc :: "kmem \<Rightarrow> slab_cache \<Rightarrow> (u64 option \<times> kmem \<times> slab_cache) option" where
  "cache_alloc k c =
     (if c_partial c \<noteq> 0
      then let slab = c_partial c
           in case slab_alloc k slab of
                (None, k1) \<Rightarrow> Some (None, k1, c)
              | (Some ptr, k1) \<Rightarrow>
                  if slab_is_full k1 slab
                  then Some (Some ptr, set_field slab 40 (c_full c) k1,
                             c\<lparr>c_partial := slab_next k1 slab, c_full := slab\<rparr>)
                  else Some (Some ptr, k1, c)
      else case slab_new k (c_obj_size c) of
             None \<Rightarrow> Some (None, k, c)
           | Some (slab, k1) \<Rightarrow>
               cache_alloc (set_field slab 40 (c_partial c) k1) (c\<lparr>c_partial := slab\<rparr>))"

text \<open>
  \<open>remove_from_full\<close> and \<open>remove_from_partial\<close> are the same walk over two lists: \<open>cur\<close> is the link that
  may be rewritten, the head of the list (\<open>None\<close>) or the \<open>next\<close> field of a slab.
\<close>

partial_function (option) remove_slab_from :: "kmem \<Rightarrow> u64 \<Rightarrow> u64 option \<Rightarrow> u64 \<Rightarrow> (kmem \<times> u64) option" where
  "remove_slab_from k head cur target =
     (let p = (case cur of None \<Rightarrow> head | Some c \<Rightarrow> slab_next k c)
      in if p = 0 then Some (k, head)
         else if p = target
         then (case cur of None \<Rightarrow> Some (k, slab_next k target)
               | Some c \<Rightarrow> Some (set_field c 40 (slab_next k target) k, head))
         else remove_slab_from k head (Some p) target)"

definition remove_from_full :: "kmem \<Rightarrow> slab_cache \<Rightarrow> u64 \<Rightarrow> (kmem \<times> slab_cache) option" where
  "remove_from_full k c target =
     map_option (\<lambda>(k1, h). (k1, c\<lparr>c_full := h\<rparr>)) (remove_slab_from k (c_full c) None target)"

definition remove_from_partial :: "kmem \<Rightarrow> slab_cache \<Rightarrow> u64 \<Rightarrow> (kmem \<times> slab_cache) option" where
  "remove_from_partial k c target =
     map_option (\<lambda>(k1, h). (k1, c\<lparr>c_partial := h\<rparr>)) (remove_slab_from k (c_partial c) None target)"

definition cache_dealloc :: "kmem \<Rightarrow> slab_cache \<Rightarrow> u64 \<Rightarrow> (kmem \<times> slab_cache) option" where
  "cache_dealloc k c ptr =
     (let slab = ptr AND NOT (PAGE_SIZE - 1);
          was_full = slab_is_full k slab;
          k1 = slab_dealloc k slab ptr
      in if was_full
         then case remove_from_full k1 c slab of None \<Rightarrow> None
              | Some (k2, c2) \<Rightarrow> Some (set_field slab 40 (c_partial c2) k2, c2\<lparr>c_partial := slab\<rparr>)
         else if slab_is_empty k1 slab
         then case remove_from_partial k1 c slab of None \<Rightarrow> None
              | Some (k2, c2) \<Rightarrow>
                  (case free_frame k2 (virt_to_phys (hhdm k2) (slab_base k2 slab)) of None \<Rightarrow> None
                   | Some k3 \<Rightarrow> Some (k3, c2))
         else Some (k1, c))"

section \<open>The global allocator\<close>

record layout =
  l_size :: usize
  l_align :: usize

record heap =
  h_mem :: kmem
  h_caches :: "slab_cache list"

definition kernel_allocator_new :: "slab_cache list" where
  "kernel_allocator_new = map cache_new SLAB_SIZES"

definition find_cache :: "slab_cache list \<Rightarrow> usize \<Rightarrow> usize \<Rightarrow> nat option" where
  "find_cache cs sz al = find (\<lambda>i. max sz al \<le> c_obj_size (cs ! i)) [0..<length cs]"

text \<open>\<open>leading_zeros\<close> and \<open>next_power_of_two\<close> of the standard library.\<close>

definition leading_zeros :: "u64 \<Rightarrow> nat" where
  "leading_zeros w = length (takeWhile (\<lambda>i. \<not> bit w i) (rev [0..<64]))"

definition next_power_of_two :: "u64 \<Rightarrow> u64" where
  "next_power_of_two w = (if w \<le> 1 then 1 else drop_bit (leading_zeros (w - 1)) (- 1) + 1)"

definition frames_order :: "usize \<Rightarrow> nat" where
  "frames_order sz =
     (let pages = align_up sz PAGE_SIZE div PAGE_SIZE
      in 64 - leading_zeros (next_power_of_two pages) - 1)"

text \<open>A null pointer is 0; \<open>None\<close> is a call that does not return.\<close>

definition heap_alloc :: "heap \<Rightarrow> layout \<Rightarrow> (u64 \<times> heap) option" where
  "heap_alloc h l =
     (if l_size l = 0 then Some (l_align l, h)
      else case (if l_size l \<le> 2048 \<and> l_align l \<le> 2048 then find_cache (h_caches h) (l_size l) (l_align l) else None) of
        Some i \<Rightarrow>
          (case cache_alloc (h_mem h) (h_caches h ! i) of None \<Rightarrow> None
           | Some (r, k, c) \<Rightarrow>
               Some (case r of None \<Rightarrow> 0 | Some ptr \<Rightarrow> ptr, h\<lparr>h_mem := k, h_caches := (h_caches h)[i := c]\<rparr>))
      | None \<Rightarrow>
          let order = frames_order (l_size l)
          in case alloc_frames (h_mem h) order of
               None \<Rightarrow> Some (0, h)
             | Some (phys, k) \<Rightarrow>
                 let virt = phys_to_virt (hhdm k) phys
                 in Some (virt, h\<lparr>h_mem := k\<lparr>ram := write_bytes (ram k) (virt_to_phys (hhdm k) virt) 0 (2 ^ order * 4096)\<rparr>\<rparr>))"

definition heap_dealloc :: "heap \<Rightarrow> u64 \<Rightarrow> layout \<Rightarrow> heap option" where
  "heap_dealloc h ptr l =
     (if ptr = 0 \<or> l_size l = 0 then Some h
      else case (if l_size l \<le> 2048 \<and> l_align l \<le> 2048 then find_cache (h_caches h) (l_size l) (l_align l) else None) of
        Some i \<Rightarrow>
          (case cache_dealloc (h_mem h) (h_caches h ! i) ptr of None \<Rightarrow> None
           | Some (k, c) \<Rightarrow> Some (h\<lparr>h_mem := k, h_caches := (h_caches h)[i := c]\<rparr>))
      | None \<Rightarrow>
          (case free_frames (h_mem h) (virt_to_phys (hhdm (h_mem h)) ptr) (frames_order (l_size l)) of
             None \<Rightarrow> None | Some k \<Rightarrow> Some (h\<lparr>h_mem := k\<rparr>)))"

text \<open>
  \<open>Layout::from_size_align\<close> refuses a size that would exceed \<open>isize::MAX\<close> once rounded up to the
  alignment; the \<open>unwrap\<close> then panics.
\<close>

definition layout_ok :: "usize \<Rightarrow> usize \<Rightarrow> bool" where
  "layout_ok sz al \<longleftrightarrow> (\<exists>n<64. al = push_bit n 1) \<and> unat sz + unat al \<le> 2 ^ 63"

definition heap_realloc :: "heap \<Rightarrow> u64 \<Rightarrow> layout \<Rightarrow> usize \<Rightarrow> (u64 \<times> heap) option" where
  "heap_realloc h ptr l new_size =
     (if \<not> layout_ok new_size (l_align l) then None
      else case heap_alloc h \<lparr>l_size = new_size, l_align = l_align l\<rparr> of None \<Rightarrow> None
        | Some (new_ptr, h1) \<Rightarrow>
            if new_ptr = 0 then Some (new_ptr, h1)
            else let k = h_mem h1;
                     copy_size = min (l_size l) new_size;
                     bytes = load_bytes (ram k) (virt_to_phys (hhdm k) ptr) (unat copy_size);
                     h2 = h1\<lparr>h_mem := k\<lparr>ram := store_bytes (ram k) (virt_to_phys (hhdm k) new_ptr) bytes\<rparr>\<rparr>
                 in case heap_dealloc h2 ptr l of None \<Rightarrow> None | Some h3 \<Rightarrow> Some (new_ptr, h3))"

end
