(* ===== verification/Slab.thy ===== *)
theory Slab
  imports Heap
begin

text \<open>
  The slabs of the kernel heap in memory: what a slab, a list of slabs and a cache look like in the pages
  they occupy, and what \<open>alloc\<close> and \<open>dealloc\<close> of a cache do to them.
\<close>

unbundle bit_operations_syntax

section \<open>Cells\<close>

text \<open>Every field of a slab and every link of a free object is an aligned cell of eight bytes.\<close>

lemma load_store_cell:
  assumes "aligned 3 a" "aligned 3 b"
  shows "load64 (store64 m a v) b = (if a = b then v else load64 m b)"
proof (cases "a = b")
  case False
  have "span a 8 \<inter> span b 8 = {}" using aligned_span_disjoint [OF assms False] by simp
  then show ?thesis using False aligned_bound [OF assms(1)] aligned_bound [OF assms(2)] by (simp add: load64_store64_disjoint)
qed (simp add: load64_store64_same)

lemma aligned_add:
  assumes "aligned k a" "2 ^ k dvd n" "unat a + n < 2 ^ 64"
  shows "aligned k (a + of_nat n)" "unat (a + of_nat n) = unat a + n"
  using assms unat_plus_of_nat [of a n] by (simp_all add: aligned_def)

lemma page_cells:
  assumes "aligned 12 p" "off < 4096" "8 dvd off"
  shows "aligned 3 (p + of_nat off)" "unat (p + of_nat off) = unat p + off"
proof -
  have b: "unat p + 4096 \<le> 2 ^ 64" using aligned_bound [OF assms(1)] by simp
  have "aligned 3 p" using aligned_mono [OF assms(1)] by simp
  from aligned_add [OF this, of off] b assms(2,3)
  show "aligned 3 (p + of_nat off)" "unat (p + of_nat off) = unat p + off" by simp_all
qed

lemma header_cells:
  assumes "aligned 12 p"
  shows "aligned 3 p" "aligned 3 (p + 8)" "aligned 3 (p + 16)" "aligned 3 (p + 24)" "aligned 3 (p + 32)" "aligned 3 (p + 40)"
    "unat (p + 8) = unat p + 8" "unat (p + 16) = unat p + 16" "unat (p + 24) = unat p + 24"
    "unat (p + 32) = unat p + 32" "unat (p + 40) = unat p + 40"
  using page_cells [OF assms, of 0] page_cells [OF assms, of 8] page_cells [OF assms, of 16] page_cells [OF assms, of 24]
    page_cells [OF assms, of 32] page_cells [OF assms, of 40] by simp_all

section \<open>Object sizes\<close>

definition cap :: "u64 \<Rightarrow> nat" where
  "cap sz = unat ((PAGE_SIZE - align_up SLAB_BYTES sz) div sz)"

definition hdr :: "u64 \<Rightarrow> nat" where
  "hdr sz = unat (align_up SLAB_BYTES sz)"

lemma sizes:
  assumes "sz \<in> set SLAB_SIZES"
  shows "48 \<le> hdr sz" "hdr sz + cap sz * unat sz \<le> 4096" "unat sz dvd hdr sz" "8 dvd unat sz" "unat sz dvd 4096"
    "0 < cap sz" "cap sz < 4096" "8 \<le> unat sz" "unat sz \<le> 2048"
  using assms by (auto simp: SLAB_SIZES_def hdr_def cap_def align_up_def SLAB_BYTES_def PAGE_SIZE_def)

definition objs :: "u64 \<Rightarrow> u64 \<Rightarrow> u64 set" where
  "objs sz p = (\<lambda>i. p + align_up SLAB_BYTES sz + of_nat i * sz) ` {..<cap sz}"

lemma obj_addr:
  assumes "sz \<in> set SLAB_SIZES" "aligned 12 p" "i < cap sz"
  shows "unat (p + align_up SLAB_BYTES sz + of_nat i * sz) = unat p + hdr sz + i * unat sz"
proof -
  note z = sizes [OF assms(1)]
  have "Suc i * unat sz \<le> cap sz * unat sz" using assms(3) by (intro mult_le_mono1) simp
  then have le: "hdr sz + i * unat sz + unat sz \<le> 4096" using z(2) by simp
  have b: "unat p + 4096 \<le> 2 ^ 64" using aligned_bound [OF assms(2)] by simp
  have "p + align_up SLAB_BYTES sz + of_nat i * sz = p + of_nat (hdr sz + i * unat sz)"
    by (simp add: hdr_def)
  moreover have "unat p + (hdr sz + i * unat sz) < 2 ^ 64" using le b z(8) by linarith
  ultimately show ?thesis using unat_plus_of_nat [of p "hdr sz + i * unat sz"] by (simp only: add.assoc)
qed

lemma obj_range:
  assumes "sz \<in> set SLAB_SIZES" "aligned 12 p" "x \<in> objs sz p"
  shows "unat p + 48 \<le> unat x" "unat x + unat sz \<le> unat p + 4096" "unat sz dvd unat x" "aligned 3 x"
    "span x (unat sz) \<subseteq> span p 4096"
proof -
  note z = sizes [OF assms(1)]
  obtain i where i: "i < cap sz" "x = p + align_up SLAB_BYTES sz + of_nat i * sz" using assms(3) by (auto simp: objs_def)
  have u: "unat x = unat p + hdr sz + i * unat sz" using obj_addr [OF assms(1,2) i(1)] i(2) by simp
  have "Suc i * unat sz \<le> cap sz * unat sz" using i(1) by (intro mult_le_mono1) simp
  then show r: "unat p + 48 \<le> unat x" "unat x + unat sz \<le> unat p + 4096" using u z(1,2) by simp_all
  have "unat sz dvd unat p" using assms(2) z(5) by (auto simp: aligned_def intro: dvd_trans)
  then show d: "unat sz dvd unat x" unfolding u using z(3) by simp
  then have "8 dvd unat x" using z(4) dvd_trans by blast
  then show "aligned 3 x" by (simp add: aligned_def)
  show "span x (unat sz) \<subseteq> span p 4096" using r by (auto simp: span_def)
qed

lemma objs_disjoint:
  assumes "sz \<in> set SLAB_SIZES" "aligned 12 p" "x \<in> objs sz p" "y \<in> objs sz p" "x \<noteq> y"
  shows "span x (unat sz) \<inter> span y (unat sz) = {}"
proof -
  obtain i j where ij: "i < cap sz" "x = p + align_up SLAB_BYTES sz + of_nat i * sz"
    "j < cap sz" "y = p + align_up SLAB_BYTES sz + of_nat j * sz" using assms(3,4) by (auto simp: objs_def)
  have u: "unat x = unat p + hdr sz + i * unat sz" "unat y = unat p + hdr sz + j * unat sz"
    using obj_addr [OF assms(1,2)] ij by simp_all
  have "i \<noteq> j" using ij assms(5) by auto
  then have "Suc i \<le> j \<or> Suc j \<le> i" by linarith
  then have "Suc i * unat sz \<le> j * unat sz \<or> Suc j * unat sz \<le> i * unat sz" using mult_le_mono1 by blast
  then show ?thesis using u by (auto simp: span_def)
qed

section \<open>A slab in memory\<close>

text \<open>\<open>linked hh nx h xs\<close>: from the pointer \<open>h\<close>, the links \<open>nx\<close> visit the physical addresses \<open>xs\<close>.\<close>

fun linked :: "u64 \<Rightarrow> (u64 \<Rightarrow> u64) \<Rightarrow> u64 \<Rightarrow> u64 list \<Rightarrow> bool" where
  "linked hh nx h [] \<longleftrightarrow> h = 0"
| "linked hh nx h (x # xs) \<longleftrightarrow> h = x + hh \<and> h \<noteq> 0 \<and> linked hh nx (nx x) xs"

lemma linked_cong: "linked hh nx h xs \<Longrightarrow> \<forall>x\<in>set xs. nx' x = nx x \<Longrightarrow> linked hh nx' h xs"
  by (induction xs arbitrary: h) auto

lemma linked_null: "linked hh nx h xs \<Longrightarrow> h = 0 \<longleftrightarrow> xs = []"
  by (cases xs) auto

definition slab_rep :: "u64 \<Rightarrow> ram \<Rightarrow> u64 \<Rightarrow> u64 \<Rightarrow> u64 list \<Rightarrow> bool" where
  "slab_rep hh m sz p fl \<longleftrightarrow> load64 m p = p + hh \<and> load64 m (p + 8) = sz \<and>
     linked hh (load64 m) (load64 m (p + 16)) fl \<and> load64 m (p + 24) + of_nat (length fl) = of_nat (cap sz) \<and>
     load64 m (p + 32) = of_nat (cap sz) \<and> distinct fl \<and> set fl \<subseteq> objs sz p"

lemma field_simps [simp]:
  "get_field k (p + hhdm k) off = load64 (ram k) (p + off)"
  "set_field (p + hhdm k) off v k = k\<lparr>ram := store64 (ram k) (p + off) v\<rparr>"
  by (simp_all add: get_field_def set_field_def virt_to_phys_def)

lemma set_field_hhdm: "hh = hhdm k \<Longrightarrow> set_field (p + hh) off v k = k\<lparr>ram := store64 (ram k) (p + off) v\<rparr>"
  by simp

text \<open>The bytes a slab's representation rests on: five fields, and the links of the free objects.\<close>

definition slab_cells :: "u64 \<Rightarrow> u64 list \<Rightarrow> nat set" where
  "slab_cells p fl = span p 40 \<union> (\<Union>x\<in>set fl. span x 8)"

lemma load64_same:
  assumes "aligned 3 a" "\<And>y. unat y \<in> span a 8 \<Longrightarrow> m' y = m y"
  shows "load64 m' a = load64 m a"
  using assms aligned_bound [OF assms(1)] by (intro load64_cong) auto

lemma slab_rep_cong:
  assumes r: "slab_rep hh m sz p fl" and sz: "sz \<in> set SLAB_SIZES" "aligned 12 p"
    and same: "\<And>y. unat y \<in> slab_cells p fl \<Longrightarrow> m' y = m y"
  shows "slab_rep hh m' sz p fl"
proof -
  note c = header_cells [OF sz(2)]
  have f: "load64 m' a = load64 m a" if "aligned 3 a" "span a 8 \<subseteq> slab_cells p fl" for a
    using that same by (intro load64_same) auto
  have h: "load64 m' p = load64 m p" "load64 m' (p + 8) = load64 m (p + 8)" "load64 m' (p + 16) = load64 m (p + 16)"
    "load64 m' (p + 24) = load64 m (p + 24)" "load64 m' (p + 32) = load64 m (p + 32)"
    using c by (auto intro!: f simp: slab_cells_def span_def)
  have "load64 m' x = load64 m x" if "x \<in> set fl" for x
    using that r obj_range(4) [OF sz] by (intro f) (auto simp: slab_rep_def slab_cells_def)
  then show ?thesis using r h linked_cong [of hh "load64 m" _ fl "load64 m'"] by (simp add: slab_rep_def)
qed

lemma slab_cells_page:
  assumes "sz \<in> set SLAB_SIZES" "aligned 12 p" "set fl \<subseteq> objs sz p"
  shows "slab_cells p fl \<subseteq> span p 4096"
proof -
  have "span x 8 \<subseteq> span p 4096" if "x \<in> set fl" for x
    using span_mono [of 8 "unat sz" x] sizes(8) [OF assms(1)] obj_range(5) [OF assms(1,2)] that assms(3) by blast
  then show ?thesis using span_mono [of 40 4096 p] by (auto simp: slab_cells_def)
qed

lemma slab_alloc_empty: "slab_rep (hhdm k) (ram k) sz p [] \<Longrightarrow> slab_alloc k (p + hhdm k) = (None, k)"
  by (simp add: slab_alloc_def slab_free_def slab_rep_def)

lemma free_count:
  assumes "slab_rep hh m sz p fl" "sz \<in> set SLAB_SIZES" "aligned 12 p"
  shows "length fl \<le> cap sz" "unat (load64 m (p + 24)) = cap sz - length fl"
proof -
  have "card (objs sz p) \<le> cap sz" unfolding objs_def by (rule order.trans [OF card_image_le]) simp_all
  moreover have "length fl = card (set fl)" using assms(1) by (simp add: slab_rep_def distinct_card)
  moreover have "card (set fl) \<le> card (objs sz p)"
    using assms(1) by (intro card_mono) (auto simp: slab_rep_def objs_def)
  ultimately show le: "length fl \<le> cap sz" by simp
  have "load64 m (p + 24) = of_nat (cap sz - length fl)"
    using assms(1) le by (simp add: slab_rep_def of_nat_diff eq_diff_eq)
  then show "unat (load64 m (p + 24)) = cap sz - length fl" using sizes(7) [OF assms(2)] by (simp add: unat_of_nat)
qed

lemma slab_alloc_rep:
  assumes r: "slab_rep (hhdm k) (ram k) sz p (x # xs)" and sz: "sz \<in> set SLAB_SIZES" "aligned 12 p"
  shows "\<exists>m. slab_alloc k (p + hhdm k) = (Some (x + hhdm k), k\<lparr>ram := m\<rparr>) \<and> slab_rep (hhdm k) m sz p xs \<and>
    (\<forall>y. unat y \<notin> span (p + 16) 16 \<longrightarrow> m y = ram k y) \<and>
    (slab_is_full (k\<lparr>ram := m\<rparr>) (p + hhdm k) \<longleftrightarrow> xs = [])"
proof -
  note c = header_cells [OF sz(2)] and o = obj_range [OF sz]
  have b: "unat p + 4096 \<le> 2 ^ 64" using aligned_bound [OF sz(2)] by simp
  let ?hh = "hhdm k" and ?old = "ram k"
  let ?mid = "store64 ?old (p + 16) (load64 ?old x)"
  let ?new = "store64 ?mid (p + 24) (load64 ?mid (p + 24) + 1)"
  have x: "x \<in> objs sz p" "x + ?hh \<noteq> 0" "load64 ?old (p + 16) = x + ?hh" using r by (auto simp: slab_rep_def)
  have al: "slab_alloc k (p + ?hh) = (Some (x + ?hh), k\<lparr>ram := ?new\<rparr>)"
    using x field_simps(1) [of k x 0] set_field_hhdm [of ?hh "k\<lparr>ram := ?mid\<rparr>" p 24]
    by (simp add: slab_alloc_def slab_free_def slab_used_def Let_def get_field_def virt_to_phys_def)
  have ld: "load64 ?new a = (if a = p + 24 then load64 ?old (p + 24) + 1 else if a = p + 16 then load64 ?old x else load64 ?old a)"
    if "aligned 3 a" for a
    using that c by (auto simp: load_store_cell)
  have ox: "y \<noteq> p + 16" "y \<noteq> p + 24" if "y \<in> objs sz p" for y using o(1) [OF that] c(8,9) by auto
  have xs: "\<forall>y\<in>set xs. load64 ?new y = load64 ?old y"
  proof
    fix y assume "y \<in> set xs"
    then have y: "y \<in> objs sz p" using r by (auto simp: slab_rep_def)
    show "load64 ?new y = load64 ?old y" unfolding ld [OF o(4) [OF y]] using ox [OF y] by simp
  qed
  have "linked ?hh (load64 ?old) (load64 ?old x) xs" using r by (simp add: slab_rep_def)
  then have "linked ?hh (load64 ?new) (load64 ?old x) xs" using xs by (rule linked_cong)
  moreover have "load64 ?new p = load64 ?old p" "load64 ?new (p + 8) = load64 ?old (p + 8)" "load64 ?new (p + 16) = load64 ?old x"
    "load64 ?new (p + 24) = load64 ?old (p + 24) + 1" "load64 ?new (p + 32) = load64 ?old (p + 32)"
    unfolding ld [OF c(1)] ld [OF c(2)] ld [OF c(3)] ld [OF c(4)] ld [OF c(5)] by simp_all
  moreover have "load64 ?old (p + 24) + 1 + of_nat (length xs) = of_nat (cap sz)" using r by (simp add: slab_rep_def add.assoc)
  ultimately have rep: "slab_rep ?hh ?new sz p xs" using r by (simp add: slab_rep_def)
  have same: "?new y = ?old y" if "unat y \<notin> span (p + 16) 16" for y
    using that c(8,9) b by (auto simp: store64_other span_def)
  have "slab_is_full (k\<lparr>ram := ?new\<rparr>) (p + ?hh) \<longleftrightarrow> load64 ?new (p + 24) = load64 ?new (p + 32)"
    using field_simps(1) [of "k\<lparr>ram := ?new\<rparr>" p] by (simp add: slab_is_full_def slab_used_def slab_capacity_def)
  also have "\<dots> \<longleftrightarrow> unat (load64 ?new (p + 24)) = cap sz"
    using rep sizes(7) [OF sz(1)] by (simp add: slab_rep_def word_unat_eq_iff unat_of_nat)
  also have "\<dots> \<longleftrightarrow> xs = []" using free_count [OF rep sz] sizes(6) [OF sz(1)] by (cases xs) auto
  finally show ?thesis using al rep same by blast
qed

lemma slab_counts:
  assumes "slab_rep (hhdm k) (ram k) sz p fl" "sz \<in> set SLAB_SIZES" "aligned 12 p"
  shows "slab_is_full k (p + hhdm k) \<longleftrightarrow> fl = []" "slab_is_empty k (p + hhdm k) \<longleftrightarrow> length fl = cap sz"
    "slab_base k (p + hhdm k) = p + hhdm k"
proof -
  note f = free_count [OF assms] and z = sizes [OF assms(2)]
  have "slab_is_full k (p + hhdm k) \<longleftrightarrow> unat (load64 (ram k) (p + 24)) = cap sz"
    using assms(1) z(7) by (simp add: slab_is_full_def slab_used_def slab_capacity_def slab_rep_def word_unat_eq_iff unat_of_nat)
  also have "\<dots> \<longleftrightarrow> fl = []" using f z(6) by (cases fl) auto
  finally show "slab_is_full k (p + hhdm k) \<longleftrightarrow> fl = []" .
  have "slab_is_empty k (p + hhdm k) \<longleftrightarrow> unat (load64 (ram k) (p + 24)) = 0"
    by (simp add: slab_is_empty_def slab_used_def word_unat_eq_iff)
  then show "slab_is_empty k (p + hhdm k) \<longleftrightarrow> length fl = cap sz" using f by auto
  show "slab_base k (p + hhdm k) = p + hhdm k"
    using assms(1) field_simps(1) [of k p 0] by (simp add: slab_base_def slab_rep_def)
qed

lemma slab_dealloc_rep:
  assumes r: "slab_rep (hhdm k) (ram k) sz p fl" and sz: "sz \<in> set SLAB_SIZES" "aligned 12 p"
    and x: "x \<in> objs sz p" "x \<notin> set fl" "x + hhdm k \<noteq> 0"
  shows "\<exists>m. slab_dealloc k (p + hhdm k) (x + hhdm k) = k\<lparr>ram := m\<rparr> \<and> slab_rep (hhdm k) m sz p (x # fl) \<and>
    (\<forall>y. unat y \<notin> span (p + 16) 16 \<union> span x 8 \<longrightarrow> m y = ram k y)"
proof -
  note c = header_cells [OF sz(2)] and o = obj_range [OF sz]
  have b: "unat p + 4096 \<le> 2 ^ 64" using aligned_bound [OF sz(2)] by simp
  let ?hh = "hhdm k" and ?old = "ram k"
  let ?mid = "store64 (store64 ?old x (load64 ?old (p + 16))) (p + 16) (x + ?hh)"
  let ?new = "store64 ?mid (p + 24) (load64 ?mid (p + 24) - 1)"
  have d: "slab_dealloc k (p + ?hh) (x + ?hh) = k\<lparr>ram := ?new\<rparr>"
    by (simp add: slab_dealloc_def slab_free_def slab_used_def Let_def get_field_def set_field_def virt_to_phys_def)
  have ax: "aligned 3 x" by (rule o(4) [OF x(1)])
  have ox: "y \<noteq> p + 16" "y \<noteq> p + 24" "y \<noteq> p" "y \<noteq> p + 8" "y \<noteq> p + 32" if "y \<in> objs sz p" for y
    using o(1) [OF that] c(7-11) by auto
  have ld: "load64 ?new a = (if a = p + 24 then load64 ?old (p + 24) - 1 else if a = p + 16 then x + ?hh
      else if a = x then load64 ?old (p + 16) else load64 ?old a)" if "aligned 3 a" for a
    using that c(3,4) ax ox(1,2) [OF x(1)] by (simp add: load_store_cell)
  have xs: "\<forall>y\<in>set fl. load64 ?new y = load64 ?old y"
  proof
    fix y assume "y \<in> set fl"
    then have y: "y \<in> objs sz p" "y \<noteq> x" using r x(2) by (auto simp: slab_rep_def)
    show "load64 ?new y = load64 ?old y" unfolding ld [OF o(4) [OF y(1)]] using ox(1,2) [OF y(1)] y(2) by simp
  qed
  have "linked ?hh (load64 ?old) (load64 ?old (p + 16)) fl" using r by (simp add: slab_rep_def)
  then have "linked ?hh (load64 ?new) (load64 ?old (p + 16)) fl" using xs by (rule linked_cong)
  moreover have "load64 ?new p = load64 ?old p" "load64 ?new (p + 8) = load64 ?old (p + 8)" "load64 ?new (p + 16) = x + ?hh"
    "load64 ?new (p + 24) = load64 ?old (p + 24) - 1" "load64 ?new (p + 32) = load64 ?old (p + 32)"
    "load64 ?new x = load64 ?old (p + 16)"
    unfolding ld [OF c(1)] ld [OF c(2)] ld [OF c(3)] ld [OF c(4)] ld [OF c(5)] ld [OF ax] using ox [OF x(1)] by auto
  moreover have "load64 ?old (p + 24) - 1 + of_nat (length (x # fl)) = of_nat (cap sz)" using r by (simp add: slab_rep_def)
  ultimately have rep: "slab_rep ?hh ?new sz p (x # fl)" using r x by (simp add: slab_rep_def)
  have "?new y = ?old y" if "unat y \<notin> span (p + 16) 16 \<union> span x 8" for y
    using that c(8,9) b aligned_bound [OF ax] by (auto simp: store64_other span_def)
  then show ?thesis using d rep by blast
qed

text \<open>A fresh slab.\<close>

lemma link_objs_rep:
  assumes sz: "sz \<in> set SLAB_SIZES" "aligned 12 p" and n: "n \<le> cap sz" and k: "hh = hhdm k"
    and nn: "\<And>x. x \<in> objs sz p \<Longrightarrow> x + hh \<noteq> 0"
    and l: "linked hh (load64 (ram k)) prev (map (\<lambda>i. p + align_up SLAB_BYTES sz + of_nat i * sz) [n..<cap sz])"
  shows "\<exists>h m. link_objs (p + hh + align_up SLAB_BYTES sz) sz n prev k = (h, k\<lparr>ram := m\<rparr>) \<and>
    linked hh (load64 m) h (map (\<lambda>i. p + align_up SLAB_BYTES sz + of_nat i * sz) [0..<cap sz]) \<and>
    (\<forall>y. unat y \<notin> (\<Union>x\<in>objs sz p. span x 8) \<longrightarrow> m y = ram k y)"
  using n k l
proof (induction n arbitrary: prev k)
  case 0
  then show ?case by (intro exI [of _ prev] exI [of _ "ram k"]) simp
next
  case (Suc n)
  let ?at = "\<lambda>i. p + align_up SLAB_BYTES sz + of_nat i * sz"
  have x: "?at n \<in> objs sz p" using Suc.prems(1) by (simp add: objs_def)
  note ax = obj_range(4) [OF sz x]
  let ?k = "k\<lparr>ram := store64 (ram k) (?at n) prev\<rparr>"
  have ob: "p + hh + align_up SLAB_BYTES sz + of_nat n * sz = ?at n + hh" by simp
  have st: "link_objs (p + hh + align_up SLAB_BYTES sz) sz (Suc n) prev k =
      link_objs (p + hh + align_up SLAB_BYTES sz) sz n (?at n + hh) ?k"
    unfolding link_objs.simps Let_def ob using set_field_hhdm [OF Suc.prems(2), of "?at n" 0 prev] by simp
  have ne: "?at i \<noteq> ?at n" if "i \<in> set [Suc n..<cap sz]" for i
  proof
    assume eq: "?at i = ?at n"
    have i: "i < cap sz" "n < cap sz" "i \<noteq> n" using that by auto
    have "unat p + hdr sz + i * unat sz = unat p + hdr sz + n * unat sz"
      unfolding obj_addr [OF sz i(1), symmetric] obj_addr [OF sz i(2), symmetric] eq ..
    then show False using i(3) sizes(8) [OF sz(1)] by simp
  qed
  have "linked hh (load64 (ram ?k)) (?at n + hh) (map ?at [n..<cap sz])"
  proof -
    have "[n..<cap sz] = n # [Suc n..<cap sz]" using Suc.prems(1) by (simp add: upt_conv_Cons)
    moreover have "linked hh (load64 (ram ?k)) prev (map ?at [Suc n..<cap sz])"
    proof (rule linked_cong [OF Suc.prems(3)], rule ballI)
      fix y assume "y \<in> set (map ?at [Suc n..<cap sz])"
      then obtain i where i: "i \<in> set [Suc n..<cap sz]" "y = ?at i" by auto
      then have "y \<in> objs sz p" by (auto simp: objs_def)
      then show "load64 (ram ?k) y = load64 (ram k) y"
        using ne [OF i(1)] i(2) ax obj_range(4) [OF sz] by (auto simp: load_store_cell)
    qed
    ultimately show ?thesis using nn [OF x] by (simp add: load64_store64_same)
  qed
  from Suc.IH [OF _ _ this] Suc.prems(1,2) obtain h m where m: "link_objs (p + hh + align_up SLAB_BYTES sz) sz n (?at n + hh) ?k = (h, ?k\<lparr>ram := m\<rparr>)"
    "linked hh (load64 m) h (map ?at [0..<cap sz])" "\<forall>y. unat y \<notin> (\<Union>x\<in>objs sz p. span x 8) \<longrightarrow> m y = ram ?k y" by auto
  have "m y = ram k y" if "unat y \<notin> (\<Union>x\<in>objs sz p. span x 8)" for y
    using that m(3) x store64_other [of "?at n" y] aligned_bound [OF ax] by auto
  then show ?case unfolding st using m(1,2) by auto
qed

lemma slab_new_rep:
  assumes F: "free_space k F" and n: "slab_new k sz = Some (b, k1)" and sz: "sz \<in> set SLAB_SIZES"
  shows "\<exists>p fl. b = p + hhdm k \<and> is_frame k p \<and> span p 4096 \<subseteq> F \<and> free_space k1 (F - span p 4096) \<and> hhdm k1 = hhdm k \<and>
    slab_rep (hhdm k) (ram k1) sz p fl \<and> set fl = objs sz p \<and> fl \<noteq> [] \<and> (\<forall>y. unat y \<notin> F \<longrightarrow> ram k1 y = ram k y)"
proof -
  let ?hh = "hhdm k"
  obtain p k0 where a: "alloc_zeroed_frame k = Some (p, k0)" using n by (auto simp: slab_new_def split: option.splits)
  note z = alloc_zeroed_frame_law [OF F a]
  have fr: "is_frame k p" using z(1) is_frame_hhdm [OF z(4)] by simp
  then have al: "aligned 12 p" by (simp add: is_frame_def)
  have bd: "unat p + 4096 \<le> 2 ^ 64" using aligned_bound [OF al] by simp
  note c = header_cells [OF al] and o = obj_range [OF sz al]
  let ?sf = "\<lambda>off v m. store64 m (p + off) v"
  define hm where "hm = ?sf 40 0 (?sf 32 (of_nat (cap sz)) (?sf 24 0 (?sf 16 0 (?sf 8 sz (?sf 0 (p + ?hh) (ram k0))))))"
  let ?k2 = "k0\<lparr>ram := hm\<rparr>" and ?at = "\<lambda>i. p + align_up SLAB_BYTES sz + of_nat i * sz"
  have nn: "x + ?hh \<noteq> 0" if "x \<in> objs sz p" for x
  proof
    assume "x + ?hh = 0"
    then have "x = - ?hh" by (simp add: eq_neg_iff_add_eq_0)
    then show False using fr o(1,2) [OF that] sizes(8) [OF sz] by (auto simp: is_frame_def span_def)
  qed
  have cp: "(PAGE_SIZE - align_up SLAB_BYTES sz) div sz = of_nat (cap sz)" "unat (of_nat (cap sz) :: u64) = cap sz"
    using sizes(7) [OF sz] by (simp_all add: cap_def)
  obtain h m where m: "link_objs (p + ?hh + align_up SLAB_BYTES sz) sz (cap sz) 0 ?k2 = (h, ?k2\<lparr>ram := m\<rparr>)"
    "linked ?hh (load64 m) h (map ?at [0..<cap sz])" "\<forall>y. unat y \<notin> (\<Union>x\<in>objs sz p. span x 8) \<longrightarrow> m y = hm y"
    using link_objs_rep [OF sz al order.refl _ nn, of ?k2 0] z(4) by auto
  have res: "b = p + ?hh" "k1 = k0\<lparr>ram := store64 m (p + 16) h\<rparr>"
    using n a m(1) z(4) unfolding slab_new_def Let_def cp by (auto simp: hm_def phys_to_virt_def set_field_def virt_to_phys_def)
  have hd: "load64 m a = load64 hm a" if "aligned 3 a" "unat a < unat p + 48" for a
  proof (rule load64_same [OF that(1)])
    fix y :: u64 assume y: "unat y \<in> span a 8"
    have "8 dvd unat a" "8 dvd unat p" using that(1) al by (auto simp: aligned_def)
    then have "unat a + 8 \<le> unat p + 48" using that(2) by presburger
    then have "unat y \<notin> span x 8" if "x \<in> objs sz p" for x using y o(1) [OF that] by (auto simp: span_def)
    then show "m y = hm y" using m(3) by blast
  qed
  have lh: "load64 hm p = p + ?hh" "load64 hm (p + 8) = sz" "load64 hm (p + 24) = 0" "load64 hm (p + 32) = of_nat (cap sz)"
    using c(1-6) by (simp_all add: hm_def load_store_cell)
  have lk: "load64 (store64 m (p + 16) h) a = (if a = p + 16 then h else load64 m a)" if "aligned 3 a" for a
    using that c(3) by (simp add: load_store_cell)
  let ?fl = "map ?at [0..<cap sz]"
  have set: "set ?fl = objs sz p" by (auto simp: objs_def)
  have "linked ?hh (load64 (store64 m (p + 16) h)) h ?fl"
  proof (rule linked_cong [OF m(2)], rule ballI)
    fix x assume "x \<in> set ?fl"
    then have x: "x \<in> objs sz p" using set by simp
    show "load64 (store64 m (p + 16) h) x = load64 m x" unfolding lk [OF o(4) [OF x]] using o(1) [OF x] c(8) by auto
  qed
  moreover have "distinct ?fl"
  proof (simp add: distinct_map, rule inj_onI)
    fix i j assume ij: "i \<in> {0..<cap sz}" "j \<in> {0..<cap sz}" "?at i = ?at j"
    have "unat p + hdr sz + i * unat sz = unat p + hdr sz + j * unat sz"
      using obj_addr [OF sz al, of i, symmetric] obj_addr [OF sz al, of j] ij by (simp del: of_nat_mult add_right_cancel add_left_cancel)
    then show "i = j" using sizes(8) [OF sz] by simp
  qed
  moreover have "load64 (store64 m (p + 16) h) p = p + ?hh" "load64 (store64 m (p + 16) h) (p + 8) = sz"
    "load64 (store64 m (p + 16) h) (p + 16) = h" "load64 (store64 m (p + 16) h) (p + 24) = 0"
    "load64 (store64 m (p + 16) h) (p + 32) = of_nat (cap sz)"
    unfolding lk [OF c(1)] lk [OF c(2)] lk [OF c(3)] lk [OF c(4)] lk [OF c(5)]
    using hd [OF c(1)] hd [OF c(2)] hd [OF c(4)] hd [OF c(5)] c lh by simp_all
  ultimately have rep: "slab_rep ?hh (ram k1) sz p ?fl" using set by (simp add: slab_rep_def res(2))
  have out: "ram k1 y = ram k0 y" if "unat y \<notin> span p 4096" for y
  proof -
    have "unat y \<notin> span x 8" if "x \<in> objs sz p" for x
      using o(5) [OF that] span_mono [of 8 "unat sz" x] sizes(8) [OF sz] \<open>unat y \<notin> span p 4096\<close> by blast
    then have "m y = hm y" using m(3) by blast
    moreover have "unat y \<notin> span (p + of_nat i) 8" if "i \<in> {0, 8, 16, 24, 32, 40}" for i
      using \<open>unat y \<notin> span p 4096\<close> that c(7-11) by (auto simp: span_def)
    from this [of 0] this [of 8] this [of 16] this [of 24] this [of 32] this [of 40]
    have "hm y = ram k0 y" "store64 m (p + 16) h y = m y" using c(7-11) bd by (simp_all add: hm_def store64_other)
    ultimately show ?thesis by (simp add: res(2))
  qed
  have fs: "free_space k1 (F - span p 4096)"
    unfolding res(2) by (rule pmm_mem.set_mem_free [OF z(3)]) (use out in \<open>simp add: res(2)\<close>)
  have mem: "ram k1 y = ram k y" if "unat y \<notin> F" for y using out [of y] z(2) z(6) [OF that] that by auto
  have "?fl \<noteq> []" using sizes(6) [OF sz] by simp
  then show ?thesis using res z(2,4) fr fs rep set mem by (intro exI [of _ p] exI [of _ ?fl]) simp
qed

section \<open>A cache in memory\<close>

text \<open>The slabs of a cache with their free objects: the partial ones, then the full ones.\<close>

type_synonym acache = "(u64 \<times> u64 list) list \<times> u64 list"

definition slabs :: "acache \<Rightarrow> (u64 \<times> u64 list) list" where
  "slabs a = fst a @ map (\<lambda>p. (p, [])) (snd a)"

definition pages :: "acache \<Rightarrow> u64 list" where
  "pages a = map fst (fst a) @ snd a"

definition live :: "u64 \<Rightarrow> acache \<Rightarrow> u64 set" where
  "live sz a = (\<Union>(p, fl)\<in>set (slabs a). objs sz p - set fl)"

definition nxt :: "ram \<Rightarrow> u64 \<Rightarrow> u64" where
  "nxt m p = load64 m (p + 40)"

definition cache_rep :: "u64 \<Rightarrow> ram \<Rightarrow> slab_cache \<Rightarrow> acache \<Rightarrow> bool" where
  "cache_rep hh m c a \<longleftrightarrow> c_obj_size c \<in> set SLAB_SIZES \<and>
     linked hh (nxt m) (c_partial c) (map fst (fst a)) \<and> linked hh (nxt m) (c_full c) (snd a) \<and>
     (\<forall>(p, fl)\<in>set (slabs a). slab_rep hh m (c_obj_size c) p fl) \<and> (\<forall>(p, fl)\<in>set (fst a). fl \<noteq> []) \<and>
     distinct (pages a) \<and> (\<forall>p\<in>set (pages a). aligned 12 p)"

lemma pages_slabs: "set (pages a) = fst ` set (slabs a)"
  by (force simp: pages_def slabs_def)

definition headers :: "acache \<Rightarrow> nat set" where
  "headers a = (\<Union>p\<in>set (pages a). span p 48)"

lemma other_page:
  assumes "aligned 12 p" "aligned 12 q" "p \<noteq> q"
  shows "span p 4096 \<inter> span q 4096 = {}"
  using aligned_span_disjoint [OF assms] by simp

lemma frame_slab:
  assumes "slab_rep hh m sz q fl" "sz \<in> set SLAB_SIZES" "aligned 12 q"
    and "\<And>y. unat y \<in> span q 4096 \<Longrightarrow> m' y = m y"
  shows "slab_rep hh m' sz q fl" "nxt m' q = nxt m q"
proof -
  have sub: "slab_cells q fl \<subseteq> span q 4096"
    using assms(1) by (intro slab_cells_page [OF assms(2,3)]) (simp add: slab_rep_def)
  show "slab_rep hh m' sz q fl" by (rule slab_rep_cong [OF assms(1-3)]) (use sub assms(4) in blast)
  have "span (q + 40) 8 \<subseteq> span q 4096" using header_cells(11) [OF assms(3)] by (auto simp: span_def)
  then show "nxt m' q = nxt m q"
    unfolding nxt_def using header_cells(6) [OF assms(3)] assms(4) by (intro load64_same) auto
qed

lemma next_cell:
  assumes "slab_rep hh m sz p fl" "sz \<in> set SLAB_SIZES" "aligned 12 p"
  shows "slab_rep hh (store64 m (p + 40) v) sz p fl" "nxt (store64 m (p + 40) v) p = v"
proof -
  note c = header_cells [OF assms(3)]
  have b: "unat (p + 40) + 8 \<le> 2 ^ 64" using aligned_bound [OF assms(3)] c(11) by simp
  have "unat y \<notin> span (p + 40) 8" if "unat y \<in> slab_cells p fl" for y :: u64
    using that c(11) assms(1) obj_range(1) [OF assms(2,3)] by (fastforce simp: slab_cells_def span_def slab_rep_def)
  then show "slab_rep hh (store64 m (p + 40) v) sz p fl"
    using b by (intro slab_rep_cong [OF assms]) (simp add: store64_other)
  show "nxt (store64 m (p + 40) v) p = v" by (simp add: nxt_def load64_store64_same)
qed

text \<open>Changes inside one page, seen by the other slabs of the cache.\<close>

lemma frame_slabs:
  assumes "\<forall>(q, fl)\<in>S. slab_rep hh m sz q fl" "sz \<in> set SLAB_SIZES" "\<forall>q\<in>fst ` S. aligned 12 q \<and> q \<noteq> p" "aligned 12 p"
    and "\<And>y. unat y \<notin> span p 4096 \<Longrightarrow> m' y = m y"
  shows "\<forall>(q, fl)\<in>S. slab_rep hh m' sz q fl" "\<forall>q\<in>fst ` S. nxt m' q = nxt m q"
proof -
  have k: "slab_rep hh m' sz q fl \<and> nxt m' q = nxt m q" if s: "(q, fl) \<in> S" for q fl
  proof -
    have q: "aligned 12 q" "q \<noteq> p" "slab_rep hh m sz q fl" using assms(1,3) s by force+
    have "m' y = m y" if "unat y \<in> span q 4096" for y using other_page [OF q(1) assms(4) q(2)] that assms(5) by blast
    from frame_slab [OF q(3) assms(2) q(1) this] show ?thesis by blast
  qed
  then show "\<forall>(q, fl)\<in>S. slab_rep hh m' sz q fl" "\<forall>q\<in>fst ` S. nxt m' q = nxt m q" by auto
qed

lemma cache_take:
  assumes r: "cache_rep (hhdm k) (ram k) c ((p, x # xs) # ps, fs)"
  shows "\<exists>m c'. cache_alloc k c = Some (Some (x + hhdm k), k\<lparr>ram := m\<rparr>, c') \<and>
    cache_rep (hhdm k) m c' (if xs = [] then (ps, p # fs) else ((p, xs) # ps, fs)) \<and> c_obj_size c' = c_obj_size c \<and>
    (\<forall>y. unat y \<notin> span p 48 \<longrightarrow> m y = ram k y)"
proof -
  let ?hh = "hhdm k" and ?sz = "c_obj_size c"
  have sz: "?sz \<in> set SLAB_SIZES" "aligned 12 p" and rp: "slab_rep ?hh (ram k) ?sz p (x # xs)"
    using r by (auto simp: cache_rep_def pages_def slabs_def)
  have lp: "c_partial c = p + ?hh" "p + ?hh \<noteq> 0" "linked ?hh (nxt (ram k)) (nxt (ram k) p) (map fst ps)"
    using r by (auto simp: cache_rep_def)
  obtain m1 where m1: "slab_alloc k (p + ?hh) = (Some (x + ?hh), k\<lparr>ram := m1\<rparr>)" "slab_rep ?hh m1 ?sz p xs"
    "\<forall>y. unat y \<notin> span (p + 16) 16 \<longrightarrow> m1 y = ram k y" "slab_is_full (k\<lparr>ram := m1\<rparr>) (p + ?hh) \<longleftrightarrow> xs = []"
    using slab_alloc_rep [OF rp sz] by blast
  note c = header_cells [OF sz(2)]
  have b: "unat (p + 40) + 8 \<le> 2 ^ 64" using aligned_bound [OF sz(2)] c(11) by simp
  have n1: "nxt m1 p = nxt (ram k) p"
    unfolding nxt_def using c(6,8,11) m1(3) by (intro load64_same) (auto simp: span_def)
  define m where "m = (if xs = [] then store64 m1 (p + 40) (c_full c) else m1)"
  have out: "m y = ram k y" if "unat y \<notin> span p 48" for y
    using that m1(3) c(8,11) b by (auto simp: m_def span_def store64_other)
  then have out4: "m y = ram k y" if "unat y \<notin> span p 4096" for y using that span_mono [of 48 4096 p] by auto
  let ?S = "set ps \<union> (\<lambda>q. (q, [])) ` set fs"
  have S: "\<forall>(q, fl)\<in>?S. slab_rep ?hh (ram k) ?sz q fl" "\<forall>q\<in>fst ` ?S. aligned 12 q \<and> q \<noteq> p"
    using r by (auto simp: cache_rep_def pages_def slabs_def)
  note f = frame_slabs [OF S(1) sz(1) S(2) sz(2) out4]
  have fn: "\<forall>q\<in>set (map fst ps). nxt m q = nxt (ram k) q" "\<forall>q\<in>set fs. nxt m q = nxt (ram k) q" using f(2) by force+
  have lps: "linked ?hh (nxt m) h (map fst ps)" if "linked ?hh (nxt (ram k)) h (map fst ps)" for h
    by (rule linked_cong [OF that fn(1)])
  have "linked ?hh (nxt (ram k)) (c_full c) fs" using r by (simp add: cache_rep_def)
  then have lfs: "linked ?hh (nxt m) (c_full c) fs" using fn(2) by (rule linked_cong)
  have al: "cache_alloc k c = Some (Some (x + ?hh), k\<lparr>ram := m\<rparr>,
      if xs = [] then c\<lparr>c_partial := nxt m1 p, c_full := p + ?hh\<rparr> else c)"
    by (subst cache_alloc.simps)
      (use lp(1,2) m1(1,4) set_field_hhdm [of ?hh "k\<lparr>ram := m1\<rparr>" p 40] field_simps(1) [of "k\<lparr>ram := m1\<rparr>" p 40] in
        \<open>auto simp: Let_def m_def slab_next_def nxt_def\<close>)
  have rest: "distinct (p # map fst ps @ fs)" "\<forall>q\<in>set (p # map fst ps @ fs). aligned 12 q" "\<forall>(q, fl)\<in>set ps. fl \<noteq> []"
    using r by (auto simp: cache_rep_def pages_def)
  show ?thesis
  proof (cases "xs = []")
    case True
    have "slab_rep ?hh m ?sz p []" "nxt m p = c_full c"
      using next_cell [OF m1(2) sz, of "c_full c"] True by (simp_all add: m_def)
    then have "cache_rep ?hh m (c\<lparr>c_partial := nxt m1 p, c_full := p + ?hh\<rparr>) (ps, p # fs)"
      using f(1) lps [of "nxt m1 p"] lp n1 lfs rest sz(1) unfolding cache_rep_def by (auto simp: pages_def slabs_def)
    then show ?thesis using al out True by auto
  next
    case False
    then have "slab_rep ?hh m ?sz p xs" "nxt m p = nxt (ram k) p" using m1(2) n1 by (simp_all add: m_def)
    then have "cache_rep ?hh m c ((p, xs) # ps, fs)"
      using f(1) lps [of "nxt m p"] lp lfs rest sz(1) False unfolding cache_rep_def by (auto simp: pages_def slabs_def)
    then show ?thesis using al out False by auto
  qed
qed

lemma objs_page:
  assumes "sz \<in> set SLAB_SIZES" "aligned 12 p" "aligned 12 q" "x \<in> objs sz p" "x \<in> objs sz q"
  shows "p = q"
proof (rule ccontr)
  assume "p \<noteq> q"
  then have "span p 4096 \<inter> span q 4096 = {}" using other_page assms(2,3) by blast
  moreover have "unat x \<in> span x (unat sz)" using sizes(8) [OF assms(1)] by simp
  ultimately show False using obj_range(5) [OF assms(1,2,4)] obj_range(5) [OF assms(1,3,5)] by blast
qed

lemma live_take:
  assumes "cache_rep hh m c ((p, x # xs) # ps, fs)" "a = (if xs = [] then (ps, p # fs) else ((p, xs) # ps, fs))"
  shows "live (c_obj_size c) a = insert x (live (c_obj_size c) ((p, x # xs) # ps, fs))"
    "x \<notin> live (c_obj_size c) ((p, x # xs) # ps, fs)" "set (pages a) = set (pages ((p, x # xs) # ps, fs))"
proof -
  let ?sz = "c_obj_size c"
  have sz: "?sz \<in> set SLAB_SIZES" "aligned 12 p" and x: "x \<in> objs ?sz p" "x \<notin> set xs"
    using assms(1) by (auto simp: cache_rep_def slab_rep_def pages_def slabs_def)
  have sl: "set (slabs a) = insert (p, xs) (set ps \<union> (\<lambda>q. (q, [])) ` set fs)"
    using assms(2) by (auto simp: slabs_def)
  show "live ?sz a = insert x (live ?sz ((p, x # xs) # ps, fs))"
    unfolding live_def sl using x by (auto simp: slabs_def)
  have "x \<notin> objs ?sz q" if "q \<in> fst ` set ps \<union> set fs" for q
  proof
    assume "x \<in> objs ?sz q"
    moreover have "aligned 12 q" "q \<noteq> p" using assms(1) that by (auto simp: cache_rep_def pages_def)
    ultimately show False using objs_page [OF sz _ x(1)] by blast
  qed
  then show "x \<notin> live ?sz ((p, x # xs) # ps, fs)" by (fastforce simp: live_def slabs_def)
  show "set (pages a) = set (pages ((p, x # xs) # ps, fs))" using assms(2) by (auto simp: pages_def)
qed

text \<open>What a cache owns: frames outside the free space.\<close>

definition owns :: "kmem \<Rightarrow> nat set \<Rightarrow> acache \<Rightarrow> bool" where
  "owns k F a \<longleftrightarrow> (\<forall>p\<in>set (pages a). is_frame k p \<and> span p 4096 \<inter> F = {})"

definition cache_alloc_post :: "kmem \<Rightarrow> nat set \<Rightarrow> slab_cache \<Rightarrow> acache \<Rightarrow> u64 option \<Rightarrow> kmem \<Rightarrow> slab_cache \<Rightarrow> acache \<Rightarrow> nat set \<Rightarrow> bool" where
  "cache_alloc_post k F c a r k' c' a' F' \<longleftrightarrow>
     cache_rep (hhdm k) (ram k') c' a' \<and> hhdm k' = hhdm k \<and> c_obj_size c' = c_obj_size c \<and> free_space k' F' \<and> F' \<subseteq> F \<and>
     owns k F' a' \<and> set (pages a) \<subseteq> set (pages a') \<and> (\<forall>p\<in>set (pages a') - set (pages a). span p 4096 \<subseteq> F) \<and>
     (\<forall>y. unat y \<notin> F \<union> headers a \<longrightarrow> ram k' y = ram k y) \<and>
     (case r of None \<Rightarrow> F = {} \<and> live (c_obj_size c) a' = live (c_obj_size c) a
      | Some ptr \<Rightarrow> \<exists>x. ptr = x + hhdm k \<and> x \<notin> live (c_obj_size c) a \<and> live (c_obj_size c) a' = insert x (live (c_obj_size c) a))"

lemma cache_alloc_partial:
  assumes r: "cache_rep (hhdm k) (ram k) c a" and F: "free_space k F" "owns k F a" and ne: "fst a \<noteq> []"
  shows "\<exists>r k' c' a'. cache_alloc k c = Some (Some r, k', c') \<and> cache_alloc_post k F c a (Some r) k' c' a' F"
proof -
  obtain p fl ps fs where a0: "a = ((p, fl) # ps, fs)" using ne by (cases a; cases "fst a") auto
  have "fl \<noteq> []" using r by (auto simp: a0 cache_rep_def)
  then obtain x xs where a: "a = ((p, x # xs) # ps, fs)" using a0 by (cases fl) auto
  let ?a = "if xs = [] then (ps, p # fs) else ((p, xs) # ps, fs)"
  obtain m c' where m: "cache_alloc k c = Some (Some (x + hhdm k), k\<lparr>ram := m\<rparr>, c')" "cache_rep (hhdm k) m c' ?a"
    "c_obj_size c' = c_obj_size c" "\<forall>y. unat y \<notin> span p 48 \<longrightarrow> m y = ram k y"
    using cache_take [OF r [unfolded a]] by blast
  note l = live_take [OF r [unfolded a] refl]
  have p: "span p 4096 \<inter> F = {}" "p \<in> set (pages a)" using F(2) by (auto simp: a owns_def pages_def)
  then have "m y = ram k y" if "unat y \<in> F" for y using that m(4) span_mono [of 48 4096 p] by auto
  then have "free_space (k\<lparr>ram := m\<rparr>) F" using pmm_mem.set_mem_free [OF F(1)] by blast
  moreover have "owns k F ?a" using F(2) l(3) by (simp add: owns_def a)
  moreover have "m y = ram k y" if "unat y \<notin> F \<union> headers a" for y using that m(4) p(2) by (auto simp: headers_def)
  ultimately have "cache_alloc_post k F c a (Some (x + hhdm k)) (k\<lparr>ram := m\<rparr>) c' ?a F"
    using m(2,3) l unfolding cache_alloc_post_def a by auto
  then show ?thesis using m(1) by blast
qed

lemma cache_alloc_law:
  assumes r: "cache_rep (hhdm k) (ram k) c a" and F: "free_space k F" "owns k F a"
  shows "\<exists>r k' c' a' F'. cache_alloc k c = Some (r, k', c') \<and> cache_alloc_post k F c a r k' c' a' F'"
proof (cases "fst a = []")
  case False
  then show ?thesis using cache_alloc_partial [OF assms] by blast
next
  case True
  obtain fs where a: "a = ([], fs)" using True by (cases a) auto
  have sz: "c_obj_size c \<in> set SLAB_SIZES" "c_partial c = 0" using r by (auto simp: cache_rep_def a)
  show ?thesis
  proof (cases "slab_new k (c_obj_size c)")
    case None
    then have "alloc_zeroed_frame k = None" by (auto simp: slab_new_def Let_def split: option.splits prod.splits)
    then have "F = {}" using alloc_None_empty [OF F(1)] by (simp add: alloc_zeroed_frame_None)
    moreover have "cache_alloc k c = Some (None, k, c)" using None sz(2) by (simp add: cache_alloc.simps)
    moreover from \<open>F = {}\<close> have "cache_alloc_post k F c a None k c a F" using r F by (simp add: cache_alloc_post_def)
    ultimately show ?thesis by blast
  next
    case (Some bk)
    obtain b k1 where bk: "bk = (b, k1)" by (cases bk)
    obtain p fl where n: "b = p + hhdm k" "is_frame k p" "span p 4096 \<subseteq> F" "free_space k1 (F - span p 4096)" "hhdm k1 = hhdm k"
      "slab_rep (hhdm k) (ram k1) (c_obj_size c) p fl" "set fl = objs (c_obj_size c) p" "fl \<noteq> []"
      "\<forall>y. unat y \<notin> F \<longrightarrow> ram k1 y = ram k y"
      using slab_new_rep [OF F(1) Some [unfolded bk] sz(1)] by blast
    have al: "aligned 12 p" and nz: "p + hhdm k \<noteq> 0"
      using n(2) in_span_self [of 4096 p] by (auto simp: is_frame_def eq_neg_iff_add_eq_0 [symmetric])
    let ?k = "k1\<lparr>ram := store64 (ram k1) (p + 40) 0\<rparr>" and ?c = "c\<lparr>c_partial := b\<rparr>" and ?a = "([(p, fl)], fs)"
    have step: "cache_alloc k c = cache_alloc ?k ?c"
      using Some bk sz(2) n(1) set_field_hhdm [of "hhdm k" k1 p 40 0] n(5) by (subst cache_alloc.simps) simp
    note nc = next_cell [OF n(6) sz(1) al, of 0]
    have sp: "span (p + 40) 8 \<subseteq> span p 4096" using header_cells(11) [OF al] by (auto simp: span_def)
    have bd: "unat (p + 40) + 8 \<le> 2 ^ 64" using aligned_bound [OF al] header_cells(11) [OF al] by simp
    have out: "ram ?k y = ram k y" if "unat y \<notin> F" for y
      using that n(3,9) sp store64_other [OF bd, of y "ram k1" 0] by auto
    have pf: "q \<noteq> p \<and> aligned 12 q \<and> span q 4096 \<inter> F = {}" if "q \<in> set fs" for q
    proof -
      have q: "is_frame k q" "span q 4096 \<inter> F = {}" using that F(2) by (auto simp: owns_def pages_def a)
      moreover have "unat p \<in> span p 4096" "unat p \<in> F" using n(3) by auto
      then have "q \<noteq> p" using q(2) by blast
      ultimately show ?thesis by (simp add: is_frame_def)
    qed
    have old: "slab_rep (hhdm k) (ram ?k) (c_obj_size c) q [] \<and> nxt (ram ?k) q = nxt (ram k) q" if "q \<in> set fs" for q
    proof -
      have q: "slab_rep (hhdm k) (ram k) (c_obj_size c) q []" using r that by (auto simp: cache_rep_def a slabs_def)
      have "ram ?k y = ram k y" if "unat y \<in> span q 4096" for y using that pf [OF \<open>q \<in> set fs\<close>] out by blast
      from frame_slab [OF q sz(1) _ this] pf [OF that] show ?thesis by blast
    qed
    have "linked (hhdm k) (nxt (ram k)) (c_full c) fs" using r by (simp add: cache_rep_def a)
    then have "linked (hhdm k) (nxt (ram ?k)) (c_full c) fs" by (rule linked_cong) (use old in blast)
    then have rep: "cache_rep (hhdm ?k) (ram ?k) ?c ?a"
      using r nc old pf n(1,5,8) nz al sz unfolding cache_rep_def by (auto simp: a pages_def slabs_def)
    have F1: "free_space ?k (F - span p 4096)"
    proof (rule pmm_mem.set_mem_free [OF n(4)])
      fix y :: u64 assume "unat y \<in> F - span p 4096"
      then show "store64 (ram k1) (p + 40) 0 y = ram k1 y" using sp by (intro store64_other [OF bd]) blast
    qed
    have ow: "owns ?k (F - span p 4096) ?a"
      using F(2) n(2) is_frame_hhdm [of ?k k] n(5) by (auto simp: owns_def pages_def a)
    obtain r' k' c' a' where al': "cache_alloc ?k ?c = Some (Some r', k', c')"
      "cache_alloc_post ?k (F - span p 4096) ?c ?a (Some r') k' c' a' (F - span p 4096)"
      using cache_alloc_partial [OF rep F1 ow] by auto
    have lv: "live (c_obj_size c) ?a = live (c_obj_size c) a" using n(7) by (auto simp: live_def slabs_def a)
    have hd: "headers ?a = span p 48 \<union> headers a" by (auto simp: headers_def pages_def a)
    have pg: "set (pages ?a) = insert p (set (pages a))" by (auto simp: pages_def a)
    have mem: "ram k' y = ram k y" if "unat y \<notin> F \<union> headers a" for y
    proof -
      have "unat y \<notin> (F - span p 4096) \<union> headers ?a" using that n(3) span_mono [of 48 4096 p] hd by auto
      then show ?thesis using al'(2) out [of y] that by (auto simp: cache_alloc_post_def)
    qed
    have "cache_alloc_post k F c a (Some r') k' c' a' (F - span p 4096)"
      using al'(2) mem n(3,5) is_frame_hhdm [of ?k k] unfolding cache_alloc_post_def lv [symmetric]
      by (auto simp: owns_def pg lv)
    moreover have "cache_alloc k c = Some (Some r', k', c')" using step al'(1) by simp
    ultimately show ?thesis by blast
  qed
qed

section \<open>Freeing an object\<close>

lemma linked_unlink:
  assumes "linked hh nx h (ys @ c # t # zs)" "nx' c = nx t" "\<forall>q\<in>set ys \<union> set zs. nx' q = nx q"
  shows "linked hh nx' h (ys @ c # zs)"
  using assms
proof (induction ys arbitrary: h)
  case Nil
  then show ?case using linked_cong [of hh nx "nx t" zs nx'] by auto
qed simp

lemma remove_slab_walk:
  assumes "linked (hhdm k) (nxt (ram k)) (nxt (ram k) c) (ys @ t # zs)" "t \<notin> set ys"
  shows "remove_slab_from k head (Some (c + hhdm k)) (t + hhdm k) =
    Some (k\<lparr>ram := store64 (ram k) (last (c # ys) + 40) (nxt (ram k) t)\<rparr>, head)"
  using assms
proof (induction ys arbitrary: c)
  case Nil
  then show ?case by (subst remove_slab_from.simps) (auto simp: slab_next_def nxt_def Let_def)
next
  case (Cons y ys)
  have n: "slab_next k (c + hhdm k) = y + hhdm k" "y + hhdm k \<noteq> 0" "y \<noteq> t"
    using Cons.prems by (auto simp: slab_next_def nxt_def)
  then have "remove_slab_from k head (Some (c + hhdm k)) (t + hhdm k) = remove_slab_from k head (Some (y + hhdm k)) (t + hhdm k)"
    by (subst remove_slab_from.simps) (simp add: Let_def)
  then show ?case using Cons.IH [of y] Cons.prems by simp
qed

lemma remove_slab_law:
  assumes l: "linked (hhdm k) (nxt (ram k)) head xs" and t: "t \<in> set xs" "distinct xs" "\<forall>q\<in>set xs. aligned 12 q"
  shows "\<exists>m h. remove_slab_from k head None (t + hhdm k) = Some (k\<lparr>ram := m\<rparr>, h) \<and>
    linked (hhdm k) (nxt m) h (remove1 t xs) \<and> (\<forall>y. unat y \<notin> (\<Union>q\<in>set xs - {t}. span (q + 40) 8) \<longrightarrow> m y = ram k y)"
proof -
  obtain ys zs where xs: "xs = ys @ t # zs" "t \<notin> set ys" using split_list_first [OF t(1)] by blast
  have r1: "remove1 t xs = ys @ zs" using xs by (simp add: remove1_append)
  show ?thesis
  proof (cases ys rule: rev_cases)
    case Nil
    then have "remove_slab_from k head None (t + hhdm k) = Some (k, nxt (ram k) t)"
      using l xs by (subst remove_slab_from.simps) (auto simp: slab_next_def nxt_def Let_def)
    moreover have "linked (hhdm k) (nxt (ram k)) (nxt (ram k) t) zs" using l xs Nil by simp
    ultimately show ?thesis using r1 Nil by (intro exI [of _ "ram k"] exI [of _ "nxt (ram k) t"]) simp
  next
    case (snoc us c)
    let ?new = "store64 (ram k) (c + 40) (nxt (ram k) t)"
    obtain y vs where y: "ys = y # vs" using snoc by (metis append_is_Nil_conv list.exhaust not_Cons_self2)
    have hd: "head = y + hhdm k" "y + hhdm k \<noteq> 0" "y \<noteq> t" using l xs y by auto
    have "remove_slab_from k head None (t + hhdm k) = remove_slab_from k head (Some (y + hhdm k)) (t + hhdm k)"
      using hd by (subst remove_slab_from.simps) (simp add: Let_def)
    also have "\<dots> = Some (k\<lparr>ram := ?new\<rparr>, head)"
    proof -
      have "last (y # vs) = c" using snoc y by (metis last_snoc)
      moreover have "linked (hhdm k) (nxt (ram k)) (nxt (ram k) y) (vs @ t # zs)" "t \<notin> set vs" using l xs y by auto
      ultimately show ?thesis using remove_slab_walk [of k y vs t zs head] by simp
    qed
    finally have rm: "remove_slab_from k head None (t + hhdm k) = Some (k\<lparr>ram := ?new\<rparr>, head)" .
    have c: "aligned 12 c" "c \<in> set xs - {t}" using t xs snoc by auto
    have nx: "nxt ?new q = nxt (ram k) q" if "q \<in> set us \<union> set zs" for q
    proof -
      have q: "aligned 12 q" "q \<noteq> c" using that t xs snoc by auto
      then show ?thesis using header_cells(6) [OF c(1)] header_cells(6) [OF q(1)] by (simp add: nxt_def load_store_cell)
    qed
    have "nxt ?new c = nxt (ram k) t" by (simp add: nxt_def load64_store64_same)
    from linked_unlink [of "hhdm k" "nxt (ram k)" head us c t zs "nxt ?new", OF _ this] nx l xs snoc
    have "linked (hhdm k) (nxt ?new) head (remove1 t xs)" unfolding r1 by simp
    moreover have "?new y = ram k y" if "unat y \<notin> (\<Union>q\<in>set xs - {t}. span (q + 40) 8)" for y
      using that c aligned_bound [OF header_cells(6) [OF c(1)]] by (intro store64_other) auto
    ultimately show ?thesis using rm by blast
  qed
qed

lemma page_of_pointer:
  assumes "aligned 12 hh" "aligned 12 p" "unat p \<le> unat x" "unat x < unat p + 4096"
  shows "(x + hh) AND NOT (PAGE_SIZE - 1) = p + hh"
proof -
  have "bit (p + hh) n = False" if "n < 12" for n
  proof -
    have "(2::nat) ^ 12 dvd (unat p + unat hh)" using assms(1,2) by (simp add: aligned_def)
    moreover have "(2::nat) ^ 12 dvd 2 ^ 64" by (rule le_imp_power_dvd) simp
    ultimately have "aligned 12 (p + hh)" by (simp add: aligned_def unat_word_ariths dvd_mod)
    then show ?thesis using that by (simp add: aligned_bit)
  qed
  then have al: "aligned 12 (p + hh)" by (simp add: aligned_bit)
  define n where "n = unat x - unat p"
  have n: "n < 4096" "x = p + of_nat n" using assms(3,4) by (auto simp: n_def of_nat_diff)
  have "unat (p + hh) + n < 2 ^ 64" using aligned_bound [OF al] n(1) by simp
  then have "unat (x + hh) = unat (p + hh) + n" using unat_plus_of_nat [of "p + hh" n] n(2) by (simp add: add.commute add.left_commute)
  moreover have "4096 dvd unat (p + hh)" using al by (simp add: aligned_def)
  ultimately have "unat (align_down (x + hh) 4096) = unat (p + hh)" unfolding unat_align_down using n(1) by auto
  then show ?thesis by (simp add: align_down_def PAGE_SIZE_def word_unat_eq_iff)
qed

text \<open>Changes of \<open>next\<close> fields only.\<close>

lemma frame_next:
  assumes "sz \<in> set SLAB_SIZES" "\<forall>q\<in>Q. aligned 12 q" "\<forall>y. unat y \<notin> (\<Union>q\<in>Q. span (q + 40) 8) \<longrightarrow> m' y = m y"
    and "aligned 12 r"
  shows "slab_rep hh m sz r fl \<Longrightarrow> slab_rep hh m' sz r fl" "r \<notin> Q \<Longrightarrow> nxt m' r = nxt m r"
proof -
  have sp: "span (q + 40) 8 \<subseteq> span q 4096" if "q \<in> Q" for q using header_cells(11) [of q] assms(2) that by (auto simp: span_def)
  have other: "span (q + 40) 8 \<inter> span r 4096 = {}" if "q \<in> Q" "q \<noteq> r" for q
    using sp [OF that(1)] other_page [of q r] assms(2,4) that by blast
  show "slab_rep hh m' sz r fl" if rep: "slab_rep hh m sz r fl"
  proof (rule slab_rep_cong [OF rep assms(1,4)], rule assms(3) [rule_format])
    fix y :: u64 assume y: "unat y \<in> slab_cells r fl"
    have "unat y \<notin> span (r + 40) 8"
      using y header_cells(11) [OF assms(4)] rep obj_range(1) [OF assms(1,4)] by (fastforce simp: slab_cells_def span_def slab_rep_def)
    moreover have "unat y \<in> span r 4096" using y slab_cells_page [OF assms(1,4)] rep by (auto simp: slab_rep_def)
    ultimately show "unat y \<notin> (\<Union>q\<in>Q. span (q + 40) 8)" using other by blast
  qed
  assume r: "r \<notin> Q"
  have "span (r + 40) 8 \<subseteq> span r 4096" using header_cells(11) [OF assms(4)] by (auto simp: span_def)
  then show "nxt m' r = nxt m r"
    unfolding nxt_def using header_cells(6) [OF assms(4)] other r assms(3) by (intro load64_same) blast+
qed

text \<open>The effect of \<open>Slab::dealloc\<close> on the slabs of its cache.\<close>

lemma dealloc_frame:
  assumes r: "cache_rep (hhdm k) (ram k) c a" and s: "(p, fl) \<in> set (slabs a)" "x \<in> objs (c_obj_size c) p" "x \<notin> set fl"
    and x: "x + hhdm k \<noteq> 0"
  obtains m where "slab_dealloc k (p + hhdm k) (x + hhdm k) = k\<lparr>ram := m\<rparr>" "slab_rep (hhdm k) m (c_obj_size c) p (x # fl)"
    "\<forall>(q, g)\<in>set (slabs a). q \<noteq> p \<longrightarrow> slab_rep (hhdm k) m (c_obj_size c) q g" "\<forall>q\<in>set (pages a). nxt m q = nxt (ram k) q"
    "\<forall>y. unat y \<notin> span p 48 \<union> span x 8 \<longrightarrow> m y = ram k y"
proof -
  let ?sz = "c_obj_size c"
  have sz: "?sz \<in> set SLAB_SIZES" "aligned 12 p" "slab_rep (hhdm k) (ram k) ?sz p fl"
    using r s(1) pages_slabs [of a] by (force simp: cache_rep_def)+
  obtain m where m: "slab_dealloc k (p + hhdm k) (x + hhdm k) = k\<lparr>ram := m\<rparr>" "slab_rep (hhdm k) m ?sz p (x # fl)"
    "\<forall>y. unat y \<notin> span (p + 16) 16 \<union> span x 8 \<longrightarrow> m y = ram k y"
    using slab_dealloc_rep [OF sz(3,1,2) s(2,3) x] by blast
  note c = header_cells [OF sz(2)] and o = obj_range [OF sz(1,2) s(2)]
  have sub: "span (p + 16) 16 \<subseteq> span p 48" using c(8) by (auto simp: span_def)
  have pg: "span p 48 \<union> span x 8 \<subseteq> span p 4096"
    using o(5) span_mono [of 8 "unat ?sz" x] span_mono [of 48 4096 p] sizes(8) [OF sz(1)] by auto
  have out: "m y = ram k y" if "unat y \<notin> span p 4096" for y using m(3) that sub pg by blast
  let ?S = "{(q, g) \<in> set (slabs a). q \<noteq> p}"
  have "\<forall>(q, g)\<in>?S. slab_rep (hhdm k) (ram k) ?sz q g" "\<forall>q\<in>fst ` ?S. aligned 12 q \<and> q \<noteq> p"
    using r pages_slabs [of a] by (force simp: cache_rep_def)+
  note f = frame_slabs [OF this(1) sz(1) this(2) sz(2) out]
  have "nxt m p = nxt (ram k) p"
    unfolding nxt_def using c(6,8,11) o(1) m(3) by (intro load64_same) (auto simp: span_def)
  then have "\<forall>q\<in>set (pages a). nxt m q = nxt (ram k) q" unfolding pages_slabs using f(2) by force
  moreover have "\<forall>(q, g)\<in>set (slabs a). q \<noteq> p \<longrightarrow> slab_rep (hhdm k) m ?sz q g" using f(1) by blast
  ultimately show ?thesis using that m sub by blast
qed

lemma slabs_unique:
  assumes "cache_rep hh m c a" "(p, fl) \<in> set (slabs a)" "(p, g) \<in> set (slabs a)"
  shows "fl = g"
proof -
  have "pages a = map fst (slabs a)" by (simp add: pages_def slabs_def comp_def)
  then have "distinct (map fst (slabs a))" using assms(1) by (simp add: cache_rep_def)
  then show ?thesis using assms(2,3) eq_key_imp_eq_value by metis
qed

definition page_bytes :: "acache \<Rightarrow> nat set" where
  "page_bytes a = (\<Union>p\<in>set (pages a). span p 4096)"

definition cache_dealloc_post :: "kmem \<Rightarrow> nat set \<Rightarrow> slab_cache \<Rightarrow> acache \<Rightarrow> u64 \<Rightarrow> kmem \<Rightarrow> slab_cache \<Rightarrow> acache \<Rightarrow> nat set \<Rightarrow> bool" where
  "cache_dealloc_post k F c a x k' c' a' F' \<longleftrightarrow>
     cache_rep (hhdm k) (ram k') c' a' \<and> hhdm k' = hhdm k \<and> c_obj_size c' = c_obj_size c \<and> free_space k' F' \<and>
     F \<subseteq> F' \<and> F' \<subseteq> F \<union> page_bytes a \<and> owns k F' a' \<and> set (pages a') \<subseteq> set (pages a) \<and>
     live (c_obj_size c) a' = live (c_obj_size c) a - {x} \<and>
     (\<forall>y. unat y \<notin> F \<union> page_bytes a \<longrightarrow> ram k' y = ram k y) \<and>
     (\<forall>z\<in>live (c_obj_size c) a'. \<forall>y. unat y \<in> span z (unat (c_obj_size c)) \<longrightarrow> ram k' y = ram k y)"

text \<open>A live object meets neither the headers nor another object, so changes there leave it alone.\<close>

lemma live_bytes:
  assumes r: "cache_rep hh m c a" and z: "z \<in> live (c_obj_size c) a" and y: "n \<in> span z (unat (c_obj_size c))"
  shows "n \<in> page_bytes a" "n \<notin> headers a"
    "x \<in> live (c_obj_size c) a \<Longrightarrow> x \<noteq> z \<Longrightarrow> n \<notin> span x (unat (c_obj_size c))"
proof -
  let ?sz = "c_obj_size c"
  have sz: "?sz \<in> set SLAB_SIZES" using r by (simp add: cache_rep_def)
  obtain p fl where p: "(p, fl) \<in> set (slabs a)" "z \<in> objs ?sz p" using z by (auto simp: live_def)
  have pa: "p \<in> set (pages a)" using p(1) unfolding pages_slabs by force
  have al: "aligned 12 q" if "q \<in> set (pages a)" for q using r that by (auto simp: cache_rep_def)
  note o = obj_range [OF sz al [OF pa] p(2)]
  have np: "n \<in> span p 4096" using o(5) y by blast
  then show "n \<in> page_bytes a" using pa by (auto simp: page_bytes_def)
  have "n \<notin> span q 48" if q: "q \<in> set (pages a)" for q
  proof (cases "q = p")
    case True
    then show ?thesis using o(1) y by (auto simp: span_def)
  next
    case False
    then show ?thesis using other_page [OF al [OF q] al [OF pa]] np span_mono [of 48 4096 q] by auto
  qed
  then show "n \<notin> headers a" by (auto simp: headers_def)
  assume x: "x \<in> live ?sz a" "x \<noteq> z"
  obtain q g where q: "(q, g) \<in> set (slabs a)" "x \<in> objs ?sz q" using x(1) by (auto simp: live_def)
  have qa: "q \<in> set (pages a)" using q(1) unfolding pages_slabs by force
  show "n \<notin> span x (unat ?sz)"
  proof (cases "q = p")
    case True
    then show ?thesis using objs_disjoint [OF sz al [OF pa] p(2)] q(2) x(2) y by blast
  next
    case False
    then show ?thesis using other_page [OF al [OF qa] al [OF pa]] np obj_range(5) [OF sz al [OF qa] q(2)] by blast
  qed
qed

lemma dealloc_bytes:
  assumes r: "cache_rep (hhdm k) (ram k) c a" and z: "z \<in> live (c_obj_size c) a - {x}" "x \<in> live (c_obj_size c) a"
    and m: "\<And>y. unat y \<notin> headers a \<union> span x (unat (c_obj_size c)) \<Longrightarrow> m y = ram k y"
  shows "\<forall>y. unat y \<in> span z (unat (c_obj_size c)) \<longrightarrow> m y = ram k y"
proof (intro allI impI, rule m)
  fix y assume y: "unat y \<in> span z (unat (c_obj_size c))"
  have "z \<in> live (c_obj_size c) a" "x \<noteq> z" using z(1) by auto
  from live_bytes(2,3) [OF r this(1) y] z(2) this(2)
  show "unat y \<notin> headers a \<union> span x (unat (c_obj_size c))" by blast
qed

lemma dealloc_outside:
  assumes r: "cache_rep (hhdm k) (ram k) c a" and x: "x \<in> live (c_obj_size c) a"
  shows "headers a \<union> span x (unat (c_obj_size c)) \<subseteq> page_bytes a"
proof -
  have "span x (unat (c_obj_size c)) \<subseteq> page_bytes a" using live_bytes(1) [OF r x] by blast
  moreover have "headers a \<subseteq> page_bytes a" using span_mono [of 48 4096] by (fastforce simp: headers_def page_bytes_def)
  ultimately show ?thesis by blast
qed

lemma frame_nonnull:
  assumes "is_frame k p" "unat x \<in> span p 4096"
  shows "x + hhdm k \<noteq> 0"
proof
  assume "x + hhdm k = 0"
  then have "x = - hhdm k" by (simp add: eq_neg_iff_add_eq_0)
  then show False using assms by (simp add: is_frame_def)
qed

lemma span8: "sz \<in> set SLAB_SIZES \<Longrightarrow> span x 8 \<subseteq> span x (unat sz)"
  by (rule span_mono) (rule sizes(8))

lemma next_in_header: "aligned 12 q \<Longrightarrow> span (q + 40) 8 \<subseteq> span q 48"
  using header_cells(11) [of q] by (auto simp: span_def)

lemma live_remove:
  assumes r: "cache_rep hh m c a" and s: "(p, fl) \<in> set (slabs a)" "x \<in> objs (c_obj_size c) p"
    and a': "set (slabs a') = insert (p, x # fl) {(q, g) \<in> set (slabs a). q \<noteq> p}"
  shows "live (c_obj_size c) a' = live (c_obj_size c) a - {x}"
proof -
  let ?sz = "c_obj_size c"
  have sz: "?sz \<in> set SLAB_SIZES" and al: "\<And>q. q \<in> set (pages a) \<Longrightarrow> aligned 12 q" using r by (auto simp: cache_rep_def)
  define R where "R = {(q, g) \<in> set (slabs a). q \<noteq> p}"
  define L where "L = (\<Union>(q, g)\<in>R. objs ?sz q - set g)"
  have pp: "p \<in> set (pages a)" using s(1) unfolding pages_slabs by force
  have "x \<notin> objs ?sz q" if "(q, g) \<in> R" for q g
  proof
    assume "x \<in> objs ?sz q"
    moreover have "q \<in> set (pages a)" "q \<noteq> p" using that unfolding pages_slabs R_def by force+
    ultimately show False using objs_page [OF sz al al, of q p x] pp s(2) by blast
  qed
  then have "x \<notin> L" by (auto simp: L_def)
  moreover have "live ?sz a' = (objs ?sz p - set (x # fl)) \<union> L" unfolding live_def a' R_def [symmetric] L_def by simp
  moreover have "set (slabs a) = insert (p, fl) R"
    unfolding R_def using slabs_unique [OF r s(1)] s(1) by blast
  then have "live ?sz a = (objs ?sz p - set fl) \<union> L" unfolding live_def L_def by simp
  ultimately show ?thesis by auto
qed

lemma dealloc_full:
  assumes r: "cache_rep (hhdm k) (ram k) c (ps, fs)" and F: "free_space k F" "owns k F (ps, fs)"
    and p: "p \<in> set fs" and x: "x \<in> objs (c_obj_size c) p"
    and d: "slab_dealloc k (p + hhdm k) (x + hhdm k) = k\<lparr>ram := m\<rparr>" "slab_rep (hhdm k) m (c_obj_size c) p [x]"
    "\<forall>(q, g)\<in>set (slabs (ps, fs)). q \<noteq> p \<longrightarrow> slab_rep (hhdm k) m (c_obj_size c) q g" "\<forall>q\<in>set (pages (ps, fs)). nxt m q = nxt (ram k) q"
    "\<forall>y. unat y \<notin> span p 48 \<union> span x 8 \<longrightarrow> m y = ram k y"
  shows "\<exists>k' c'. (case remove_from_full (k\<lparr>ram := m\<rparr>) c (p + hhdm k) of None \<Rightarrow> None
      | Some (k2, c2) \<Rightarrow> Some (set_field (p + hhdm k) 40 (c_partial c2) k2, c2\<lparr>c_partial := p + hhdm k\<rparr>)) = Some (k', c') \<and>
    cache_dealloc_post k F c (ps, fs) x k' c' ((p, [x]) # ps, remove1 p fs) F"
proof -
  let ?hh = "hhdm k" and ?sz = "c_obj_size c" and ?a = "(ps, fs)" and ?a' = "((p, [x]) # ps, remove1 p fs)"
  have sz: "?sz \<in> set SLAB_SIZES" and al: "\<And>q. q \<in> set (pages ?a) \<Longrightarrow> aligned 12 q" and dis: "distinct (pages ?a)"
    and nem: "\<forall>(q, g)\<in>set ps. g \<noteq> []" and fp: "is_frame k p"
    using r F(2) p by (auto simp: cache_rep_def owns_def pages_def)
  have nz: "p + ?hh \<noteq> 0" by (rule frame_nonnull [OF fp]) simp
  have lx: "x \<in> live ?sz ?a" using p x by (auto simp: live_def slabs_def)
  have l: "linked ?hh (nxt m) (c_partial c) (map fst ps)" "linked ?hh (nxt m) (c_full c) fs"
    using r d(4) linked_cong [of ?hh "nxt (ram k)" _ _ "nxt m"] by (auto simp: cache_rep_def pages_def)
  obtain m2 h where m2: "remove_slab_from (k\<lparr>ram := m\<rparr>) (c_full c) None (p + ?hh) = Some (k\<lparr>ram := m2\<rparr>, h)"
    "linked ?hh (nxt m2) h (remove1 p fs)" "\<forall>y. unat y \<notin> (\<Union>q\<in>set fs - {p}. span (q + 40) 8) \<longrightarrow> m2 y = m y"
    using remove_slab_law [of "k\<lparr>ram := m\<rparr>" "c_full c" fs p] l(2) p dis al by (auto simp: pages_def)
  define m3 where "m3 = store64 m2 (p + 40) (c_partial c)"
  have alp: "aligned 12 p" using al p by (simp add: pages_def)
  have o3: "m3 y = m2 y" if "unat y \<notin> span (p + 40) 8" for y
    using that aligned_bound [OF header_cells(6) [OF alp]] by (simp add: m3_def store64_other)
  have out: "\<forall>y. unat y \<notin> (\<Union>q\<in>set fs. span (q + 40) 8) \<longrightarrow> m3 y = m y" using m2(3) o3 p by auto
  have alq: "\<forall>q\<in>set fs. aligned 12 q" using al by (simp add: pages_def)
  note fr = frame_next [OF sz alq out]
  have "\<forall>e\<in>set ps. fst e \<noteq> p" using dis p by (force simp: pages_def)
  then have sl: "set (slabs ?a') = insert (p, [x]) {(q, g) \<in> set (slabs ?a). q \<noteq> p}"
    using dis p by (auto simp: slabs_def pages_def)
  have rep: "slab_rep ?hh m3 ?sz q g" if "(q, g) \<in> set (slabs ?a')" for q g
  proof -
    have "q \<in> set (pages ?a)" using that p set_remove1_subset [of p fs] by (auto simp: slabs_def pages_def intro: rev_image_eqI)
    then have "aligned 12 q" by (rule al)
    moreover have "slab_rep ?hh m ?sz q g" using that d(2,3) unfolding sl by auto
    ultimately show ?thesis by (rule fr(1))
  qed
  have lp: "linked ?hh (nxt m3) (c_partial c) (map fst ps)"
  proof (rule linked_cong [OF l(1)], rule ballI)
    fix q assume "q \<in> set (map fst ps)"
    then show "nxt m3 q = nxt m q" using dis al by (intro fr(2)) (auto simp: pages_def)
  qed
  have lf: "linked ?hh (nxt m3) h (remove1 p fs)"
  proof (rule linked_cong [OF m2(2)], rule ballI)
    fix q assume "q \<in> set (remove1 p fs)"
    then have q: "q \<noteq> p" "aligned 12 q" using dis alq by (auto simp: pages_def)
    then show "nxt m3 q = nxt m2 q" using header_cells(6) alp by (simp add: m3_def nxt_def load_store_cell)
  qed
  have np: "nxt m3 p = c_partial c" by (simp add: m3_def nxt_def load64_store64_same)
  let ?c = "c\<lparr>c_full := h, c_partial := p + ?hh\<rparr>" and ?k = "k\<lparr>ram := m3\<rparr>"
  have pg: "set (pages ?a') = set (pages ?a)" using p dis by (auto simp: pages_def)
  have dis': "distinct (pages ?a')" using dis p by (auto simp: pages_def)
  have cr: "cache_rep ?hh m3 ?c ?a'"
    unfolding cache_rep_def using sz lp lf np nz rep nem dis' pg al by auto
  have eff: "m3 y = ram k y" if "unat y \<notin> headers ?a \<union> span x (unat ?sz)" for y
  proof -
    have "unat y \<notin> span q 48" if "q \<in> set fs" for q using that \<open>unat y \<notin> _\<close> by (auto simp: headers_def pages_def)
    then have "unat y \<notin> (\<Union>q\<in>set fs. span (q + 40) 8)" "unat y \<notin> span p 48" using next_in_header alq p by blast+
    then show ?thesis using out d(5) span8 [OF sz, of x] that by auto
  qed
  have hp: "headers ?a \<union> span x (unat ?sz) \<subseteq> page_bytes ?a" by (rule dealloc_outside [OF r lx])
  have FP: "page_bytes ?a \<inter> F = {}" using F(2) by (auto simp: owns_def page_bytes_def)
  have "free_space ?k F" by (rule pmm_mem.set_mem_free [OF F(1)]) (use eff hp FP in blast)
  moreover from live_remove [OF r _ x sl] have lv: "live ?sz ?a' = live ?sz ?a - {x}" using p by (auto simp: slabs_def)
  moreover have "\<forall>z\<in>live ?sz ?a'. \<forall>y. unat y \<in> span z (unat ?sz) \<longrightarrow> m3 y = ram k y"
    unfolding lv using dealloc_bytes [OF r _ lx eff] by blast
  moreover have "owns k F ?a'" using F(2) pg by (simp add: owns_def)
  moreover have "m3 y = ram k y" if "unat y \<notin> F \<union> page_bytes ?a" for y using that eff hp by blast
  ultimately have "cache_dealloc_post k F c ?a x ?k ?c ?a' F" unfolding cache_dealloc_post_def using cr pg by auto
  moreover have "(case remove_from_full (k\<lparr>ram := m\<rparr>) c (p + ?hh) of None \<Rightarrow> None
      | Some (k2, c2) \<Rightarrow> Some (set_field (p + ?hh) 40 (c_partial c2) k2, c2\<lparr>c_partial := p + ?hh\<rparr>)) = Some (?k, ?c)"
    using m2(1) set_field_hhdm [of ?hh "k\<lparr>ram := m2\<rparr>" p 40] by (simp add: remove_from_full_def m3_def)
  ultimately show ?thesis by blast
qed

lemma slabs_partial:
  assumes r: "cache_rep hh m c (ps, fs)" and p: "(p, fl) \<in> set ps"
  shows "p \<notin> set fs" "\<And>g. (p, g) \<in> set ps \<Longrightarrow> g = fl"
proof -
  have "distinct (map fst ps)" "fst ` set ps \<inter> set fs = {}" using r by (auto simp: cache_rep_def pages_def)
  then show "p \<notin> set fs" "\<And>g. (p, g) \<in> set ps \<Longrightarrow> g = fl" using p eq_key_imp_eq_value by force+
qed

definition add_free :: "u64 \<Rightarrow> u64 \<Rightarrow> (u64 \<times> u64 list) list \<Rightarrow> (u64 \<times> u64 list) list" where
  "add_free p x ps = map (\<lambda>(q, g). (q, if q = p then x # g else g)) ps"

lemma add_free_simps:
  assumes "cache_rep hh m c (ps, fs)" "(p, fl) \<in> set ps"
  shows "map fst (add_free p x ps) = map fst ps"
    "set (slabs (add_free p x ps, fs)) = insert (p, x # fl) {(q, g) \<in> set (slabs (ps, fs)). q \<noteq> p}"
    "\<forall>e\<in>set ps. snd e \<noteq> [] \<Longrightarrow> \<forall>(q, g)\<in>set (add_free p x ps). g \<noteq> []"
proof -
  show "map fst (add_free p x ps) = map fst ps" by (auto simp: add_free_def)
  show "set (slabs (add_free p x ps, fs)) = insert (p, x # fl) {(q, g) \<in> set (slabs (ps, fs)). q \<noteq> p}"
  proof -
    have "set (add_free p x ps) \<subseteq> insert (p, x # fl) {(q, g) \<in> set ps. q \<noteq> p}"
    proof
      fix e assume "e \<in> set (add_free p x ps)"
      then obtain q g where e: "(q, g) \<in> set ps" "e = (q, if q = p then x # g else g)" by (auto simp: add_free_def)
      then show "e \<in> insert (p, x # fl) {(q, g) \<in> set ps. q \<noteq> p}" using slabs_partial(2) [OF assms, of g] by auto
    qed
    moreover have "(p, x # fl) \<in> set (add_free p x ps)" using assms(2) by (force simp: add_free_def)
    moreover have "(q, g) \<in> set (add_free p x ps)" if "(q, g) \<in> set ps" "q \<noteq> p" for q g using that by (force simp: add_free_def)
    ultimately have "set (add_free p x ps) = insert (p, x # fl) {(q, g) \<in> set ps. q \<noteq> p}" by blast
    then show ?thesis using slabs_partial(1) [OF assms] by (auto simp: slabs_def)
  qed
  show "\<forall>e\<in>set ps. snd e \<noteq> [] \<Longrightarrow> \<forall>(q, g)\<in>set (add_free p x ps). g \<noteq> []" by (force simp: add_free_def split: if_splits)
qed

lemma dealloc_partial:
  assumes r: "cache_rep (hhdm k) (ram k) c (ps, fs)" and F: "free_space k F" "owns k F (ps, fs)"
    and p: "(p, fl) \<in> set ps" and x: "x \<in> objs (c_obj_size c) p" "x \<notin> set fl"
    and d: "slab_rep (hhdm k) m (c_obj_size c) p (x # fl)"
    "\<forall>(q, g)\<in>set (slabs (ps, fs)). q \<noteq> p \<longrightarrow> slab_rep (hhdm k) m (c_obj_size c) q g" "\<forall>q\<in>set (pages (ps, fs)). nxt m q = nxt (ram k) q"
    "\<forall>y. unat y \<notin> span p 48 \<union> span x 8 \<longrightarrow> m y = ram k y"
  shows "cache_dealloc_post k F c (ps, fs) x (k\<lparr>ram := m\<rparr>) c (add_free p x ps, fs) F"
proof -
  let ?hh = "hhdm k" and ?sz = "c_obj_size c" and ?a = "(ps, fs)" and ?a' = "(add_free p x ps, fs)"
  have sz: "?sz \<in> set SLAB_SIZES" and nem: "\<forall>e\<in>set ps. snd e \<noteq> []" using r by (auto simp: cache_rep_def)
  have ps: "(p, fl) \<in> set (slabs ?a)" "p \<in> set (pages ?a)" using p by (force simp: slabs_def pages_def)+
  have lx: "x \<in> live ?sz ?a" using ps(1) x by (auto simp: live_def)
  note af = add_free_simps [OF r p, of x]
  have pg: "pages ?a' = pages ?a" using af(1) by (simp add: pages_def)
  have l: "linked ?hh (nxt m) (c_partial c) (map fst ps)" "linked ?hh (nxt m) (c_full c) fs"
    using r d(3) linked_cong [of ?hh "nxt (ram k)" _ _ "nxt m"] by (auto simp: cache_rep_def pages_def)
  have "cache_rep ?hh m c ?a'"
    using r l d(1,2) nem af unfolding cache_rep_def pg af(2) by auto
  moreover have eff: "m y = ram k y" if "unat y \<notin> headers ?a \<union> span x (unat ?sz)" for y
    using that d(4) span8 [OF sz, of x] ps(2) by (auto simp: headers_def)
  have hp: "headers ?a \<union> span x (unat ?sz) \<subseteq> page_bytes ?a" by (rule dealloc_outside [OF r lx])
  have FP: "page_bytes ?a \<inter> F = {}" using F(2) by (auto simp: owns_def page_bytes_def)
  have "free_space (k\<lparr>ram := m\<rparr>) F" by (rule pmm_mem.set_mem_free [OF F(1)]) (use eff hp FP in blast)
  moreover have lv: "live ?sz ?a' = live ?sz ?a - {x}" by (rule live_remove [OF r ps(1) x(1) af(2)])
  moreover have "\<forall>z\<in>live ?sz ?a'. \<forall>y. unat y \<in> span z (unat ?sz) \<longrightarrow> m y = ram k y"
    unfolding lv using dealloc_bytes [OF r _ lx eff] by blast
  moreover have "owns k F ?a'" using F(2) pg by (simp add: owns_def)
  moreover have "m y = ram k y" if "unat y \<notin> F \<union> page_bytes ?a" for y using that eff hp by blast
  ultimately show ?thesis unfolding cache_dealloc_post_def using pg by auto
qed

text \<open>The last object of a slab: the page goes back to the frame allocator.\<close>

lemma dealloc_last:
  assumes r: "cache_rep (hhdm k) (ram k) c (ps, fs)" and F: "free_space k F" "owns k F (ps, fs)"
    and p: "(p, fl) \<in> set ps" and x: "x \<in> objs (c_obj_size c) p" "x \<notin> set fl"
    and d: "slab_rep (hhdm k) m (c_obj_size c) p (x # fl)" "length (x # fl) = cap (c_obj_size c)"
    "\<forall>(q, g)\<in>set (slabs (ps, fs)). q \<noteq> p \<longrightarrow> slab_rep (hhdm k) m (c_obj_size c) q g" "\<forall>q\<in>set (pages (ps, fs)). nxt m q = nxt (ram k) q"
    "\<forall>y. unat y \<notin> span p 48 \<union> span x 8 \<longrightarrow> m y = ram k y"
  shows "\<exists>k' c' F'. (case remove_from_partial (k\<lparr>ram := m\<rparr>) c (p + hhdm k) of None \<Rightarrow> None
      | Some (k2, c2) \<Rightarrow> (case free_frame k2 (virt_to_phys (hhdm k2) (slab_base k2 (p + hhdm k))) of None \<Rightarrow> None
           | Some k3 \<Rightarrow> Some (k3, c2))) = Some (k', c') \<and>
    cache_dealloc_post k F c (ps, fs) x k' c' (filter (\<lambda>e. fst e \<noteq> p) ps, fs) F'"
proof -
  let ?hh = "hhdm k" and ?sz = "c_obj_size c" and ?a = "(ps, fs)" and ?a' = "(filter (\<lambda>e. fst e \<noteq> p) ps, fs)"
  have sz: "?sz \<in> set SLAB_SIZES" and nem: "\<forall>(q, g)\<in>set ps. g \<noteq> []" and dis: "distinct (pages ?a)"
    and al: "\<And>q. q \<in> set (pages ?a) \<Longrightarrow> aligned 12 q" using r by (auto simp: cache_rep_def)
  have ps: "(p, fl) \<in> set (slabs ?a)" "p \<in> set (pages ?a)" "p \<in> set (map fst ps)" using p by (force simp: slabs_def pages_def)+
  note alp = al [OF ps(2)]
  have lx: "x \<in> live ?sz ?a" using ps(1) x by (auto simp: live_def)
  have l: "linked ?hh (nxt m) (c_partial c) (map fst ps)" "linked ?hh (nxt m) (c_full c) fs"
    using r d(4) linked_cong [of ?hh "nxt (ram k)" _ _ "nxt m"] by (auto simp: cache_rep_def pages_def)
  have alq: "\<forall>q\<in>set (map fst ps). aligned 12 q" using al by (auto simp: pages_def)
  obtain m2 h where m2: "remove_slab_from (k\<lparr>ram := m\<rparr>) (c_partial c) None (p + ?hh) = Some (k\<lparr>ram := m2\<rparr>, h)"
    "linked ?hh (nxt m2) h (remove1 p (map fst ps))" "\<forall>y. unat y \<notin> (\<Union>q\<in>set (map fst ps) - {p}. span (q + 40) 8) \<longrightarrow> m2 y = m y"
    using remove_slab_law [of "k\<lparr>ram := m\<rparr>" "c_partial c" "map fst ps" p] l(1) ps(3) dis alq by (auto simp: pages_def)
  have alp': "\<forall>q\<in>set (map fst ps) - {p}. aligned 12 q" using alq by blast
  note fr = frame_next [OF sz alp' m2(3)]
  have rp: "slab_rep ?hh m2 ?sz p (x # fl)" by (rule fr(1) [OF alp d(1)])
  have base: "slab_base (k\<lparr>ram := m2\<rparr>) (p + ?hh) = p + ?hh"
    using slab_counts(3) [of "k\<lparr>ram := m2\<rparr>"] rp sz alp by simp
  have hs: "unat y \<notin> (\<Union>q\<in>set (map fst ps) - {p}. span (q + 40) 8) \<and> unat y \<notin> span p 48 \<union> span x 8"
    if "unat y \<notin> headers ?a \<union> span x (unat ?sz)" for y :: u64
  proof -
    have n: "unat y \<notin> span q 48" if "q \<in> set (pages ?a)" for q using that \<open>unat y \<notin> _\<close> by (auto simp: headers_def)
    have "unat y \<notin> span (q + 40) 8" if "q \<in> set (map fst ps)" for q
      using n [of q] next_in_header [of q] alq that by (auto simp: pages_def)
    then show ?thesis using n [OF ps(2)] span8 [OF sz, of x] that by blast
  qed
  have eff: "m2 y = ram k y" if "unat y \<notin> headers ?a \<union> span x (unat ?sz)" for y
    using hs [OF that] m2(3) d(5) by simp
  have hp: "headers ?a \<union> span x (unat ?sz) \<subseteq> page_bytes ?a" by (rule dealloc_outside [OF r lx])
  have FP: "page_bytes ?a \<inter> F = {}" using F(2) by (auto simp: owns_def page_bytes_def)
  let ?k2 = "k\<lparr>ram := m2\<rparr>"
  have F2: "free_space ?k2 F" by (rule pmm_mem.set_mem_free [OF F(1)]) (use eff hp FP in blast)
  have fp: "is_frame ?k2 p" "span p 4096 \<inter> F = {}" using F(2) ps(2) by (auto simp: owns_def is_frame_def)
  obtain k3 where k3: "free_frame ?k2 p = Some k3" "free_space k3 (F \<union> span p 4096)" "hhdm k3 = ?hh"
    "\<forall>y. unat y \<notin> F \<union> span p 4096 \<longrightarrow> ram k3 y = m2 y"
    using free_frame_law [OF F2 fp] by auto
  let ?c = "c\<lparr>c_partial := h\<rparr>"
  have call: "(case remove_from_partial (k\<lparr>ram := m\<rparr>) c (p + ?hh) of None \<Rightarrow> None
      | Some (k2, c2) \<Rightarrow> (case free_frame k2 (virt_to_phys (hhdm k2) (slab_base k2 (p + ?hh))) of None \<Rightarrow> None
           | Some k3 \<Rightarrow> Some (k3, c2))) = Some (k3, ?c)"
    using m2(1) base k3(1) by (simp add: remove_from_partial_def virt_to_phys_def)
  have keep: "slab_rep ?hh (ram k3) ?sz q g \<and> nxt (ram k3) q = nxt m2 q" if "(q, g) \<in> set (slabs ?a)" "q \<noteq> p" for q g
  proof -
    have q: "q \<in> set (pages ?a)" using that(1) unfolding pages_slabs by force
    then have dj: "span q 4096 \<inter> (F \<union> span p 4096) = {}"
      using F(2) other_page [OF al [OF q] alp that(2)] by (auto simp: owns_def)
    have "slab_rep ?hh m2 ?sz q g" using d(3) that by (intro fr(1) [OF al [OF q]]) auto
    from frame_slab [OF this sz al [OF q], of "ram k3"] show ?thesis using k3(4) dj by blast
  qed
  have sl: "set (slabs ?a') = {(q, g) \<in> set (slabs ?a). q \<noteq> p}" using slabs_partial(1) [OF r p] by (auto simp: slabs_def)
  have pg: "set (pages ?a') = set (pages ?a) - {p}" using slabs_partial(1) [OF r p] by (auto simp: pages_def)
  have dis': "distinct (pages ?a')" using dis by (auto simp: pages_def distinct_map_filter)
  have mf: "map fst (filter (\<lambda>e. fst e \<noteq> p) ps) = remove1 p (map fst ps)"
    using dis by (simp add: pages_def distinct_remove1_removeAll removeAll_filter_not_eq filter_map comp_def eq_commute)
  have ex: "\<exists>g. (q, g) \<in> set (slabs ?a)" if "q \<in> set (pages ?a)" for q using that unfolding pages_slabs by force
  have np: "nxt (ram k3) q = nxt m2 q" if "q \<in> set (pages ?a')" for q
  proof -
    have q: "q \<in> set (pages ?a)" "q \<noteq> p" using that unfolding pg by auto
    obtain g where "(q, g) \<in> set (slabs ?a)" using ex [OF q(1)] by blast
    then show ?thesis using keep [of q g] q(2) by blast
  qed
  have lp: "linked ?hh (nxt (ram k3)) h (map fst (filter (\<lambda>e. fst e \<noteq> p) ps))"
  proof (rule linked_cong [OF m2(2) [folded mf]], rule ballI)
    fix q assume "q \<in> set (map fst (filter (\<lambda>e. fst e \<noteq> p) ps))"
    then show "nxt (ram k3) q = nxt m2 q" by (intro np) (simp add: pages_def)
  qed
  have lf: "linked ?hh (nxt (ram k3)) (c_full c) fs"
  proof (rule linked_cong [OF l(2)], rule ballI)
    fix q assume q: "q \<in> set fs"
    then have "q \<notin> set (map fst ps) - {p}" "aligned 12 q" using dis al by (auto simp: pages_def)
    then have "nxt m2 q = nxt m q" by (intro fr(2))
    then show "nxt (ram k3) q = nxt m q" using np [of q] q by (simp add: pages_def)
  qed
  have "\<forall>(q, g)\<in>set (slabs ?a'). slab_rep ?hh (ram k3) ?sz q g" unfolding sl using keep by blast
  then have "cache_rep ?hh (ram k3) ?c ?a'"
    unfolding cache_rep_def using sz lp lf nem dis' pg al by auto
  moreover have lv: "live ?sz ?a' = live ?sz ?a - {x}"
  proof -
    have "set (x # fl) = objs ?sz p"
    proof (rule card_subset_eq)
      show "finite (objs ?sz p)" by (simp add: objs_def)
      show "set (x # fl) \<subseteq> objs ?sz p" using d(1) unfolding slab_rep_def by blast
      have "distinct (x # fl)" using d(1) unfolding slab_rep_def by blast
      then have "card (set (x # fl)) = cap ?sz" using d(2) distinct_card by metis
      moreover have "card (objs ?sz p) \<le> cap ?sz" unfolding objs_def by (rule order.trans [OF card_image_le]) simp_all
      moreover have "card (set (x # fl)) \<le> card (objs ?sz p)"
        by (rule card_mono [OF _ \<open>set (x # fl) \<subseteq> objs ?sz p\<close>]) (simp add: objs_def)
      ultimately show "card (set (x # fl)) = card (objs ?sz p)" by simp
    qed
    then have "live ?sz ?a' = live ?sz (add_free p x ps, fs)"
      unfolding live_def sl add_free_simps(2) [OF r p] by auto
    also have "\<dots> = live ?sz ?a - {x}" by (rule live_remove [OF r ps(1) x(1) add_free_simps(2) [OF r p]])
    finally show ?thesis .
  qed
  moreover have "\<forall>z\<in>live ?sz ?a'. \<forall>y. unat y \<in> span z (unat ?sz) \<longrightarrow> ram k3 y = ram k y"
  proof (intro ballI allI impI)
    fix z y :: u64 assume z: "z \<in> live ?sz ?a'" "unat y \<in> span z (unat ?sz)"
    then obtain q g where q: "(q, g) \<in> set (slabs ?a)" "q \<noteq> p" "z \<in> objs ?sz q" unfolding live_def sl by blast
    have qp: "q \<in> set (pages ?a)" using q(1) unfolding pages_slabs by force
    have "unat y \<in> span q 4096" using obj_range(5) [OF sz al [OF qp] q(3)] z(2) by blast
    then have "ram k3 y = m2 y" using k3(4) F(2) qp other_page [OF al [OF qp] alp q(2)] by (auto simp: owns_def)
    moreover have "\<forall>y. unat y \<in> span z (unat ?sz) \<longrightarrow> m2 y = ram k y"
      using z(1) unfolding lv by (intro dealloc_bytes [OF r _ lx eff])
    ultimately show "ram k3 y = ram k y" using z(2) by simp
  qed
  moreover have "owns k (F \<union> span p 4096) ?a'"
    using F(2) other_page [OF al alp] unfolding owns_def pg by auto
  moreover have "ram k3 y = ram k y" if "unat y \<notin> F \<union> page_bytes ?a" for y
  proof -
    have "unat y \<notin> span p 4096" using that ps(2) by (auto simp: page_bytes_def)
    then have "ram k3 y = m2 y" using k3(4) that by simp
    also have "\<dots> = ram k y" by (rule eff) (use that hp in blast)
    finally show ?thesis .
  qed
  moreover have "span p 4096 \<subseteq> page_bytes ?a" using ps(2) by (auto simp: page_bytes_def)
  ultimately have "cache_dealloc_post k F c ?a x k3 ?c ?a' (F \<union> span p 4096)"
    unfolding cache_dealloc_post_def using k3(2,3) pg by auto
  then show ?thesis using call by blast
qed

lemma cache_dealloc_law:
  assumes r: "cache_rep (hhdm k) (ram k) c a" and F: "free_space k F" "owns k F a"
    and x: "x \<in> live (c_obj_size c) a" and hh: "aligned 12 (hhdm k)"
  shows "\<exists>k' c' a' F'. cache_dealloc k c (x + hhdm k) = Some (k', c') \<and> cache_dealloc_post k F c a x k' c' a' F'"
proof -
  obtain ps fs where a: "a = (ps, fs)" by (cases a)
  let ?sz = "c_obj_size c" and ?hh = "hhdm k"
  obtain p fl where p: "(p, fl) \<in> set (slabs a)" "x \<in> objs ?sz p" "x \<notin> set fl" using x by (auto simp: live_def)
  have pa: "p \<in> set (pages a)" using p(1) unfolding pages_slabs by force
  have sz: "?sz \<in> set SLAB_SIZES" "aligned 12 p" "slab_rep ?hh (ram k) ?sz p fl" "\<forall>(q, g)\<in>set ps. g \<noteq> []"
    using r pa p(1) by (auto simp: cache_rep_def a)
  have fp: "is_frame k p" using F(2) pa by (simp add: owns_def)
  note o = obj_range [OF sz(1,2) p(2)]
  have xr: "unat p \<le> unat x" "unat x < unat p + 4096" using o(1,2) sizes(8) [OF sz(1)] by linarith+
  have nz: "x + ?hh \<noteq> 0" by (rule frame_nonnull [OF fp]) (use xr in \<open>simp add: span_def\<close>)
  have slab: "(x + ?hh) AND NOT (PAGE_SIZE - 1) = p + ?hh" by (rule page_of_pointer [OF hh sz(2) xr])
  obtain m where m: "slab_dealloc k (p + ?hh) (x + ?hh) = k\<lparr>ram := m\<rparr>" "slab_rep ?hh m ?sz p (x # fl)"
    "\<forall>(q, g)\<in>set (slabs a). q \<noteq> p \<longrightarrow> slab_rep ?hh m ?sz q g" "\<forall>q\<in>set (pages a). nxt m q = nxt (ram k) q"
    "\<forall>y. unat y \<notin> span p 48 \<union> span x 8 \<longrightarrow> m y = ram k y"
    by (rule dealloc_frame [OF r p nz])
  have full: "slab_is_full k (p + ?hh) \<longleftrightarrow> fl = []" by (rule slab_counts(1) [OF sz(3,1,2)])
  have empty: "slab_is_empty (k\<lparr>ram := m\<rparr>) (p + ?hh) \<longleftrightarrow> length (x # fl) = cap ?sz"
    using slab_counts(2) [of "k\<lparr>ram := m\<rparr>"] m(2) sz by simp
  note eq = cache_dealloc_def [of k c "x + ?hh", unfolded slab Let_def m(1)]
  consider (full) "fl = []" "p \<in> set fs" | (partial) "fl \<noteq> []" "(p, fl) \<in> set ps" "length (x # fl) \<noteq> cap ?sz"
    | (last) "fl \<noteq> []" "(p, fl) \<in> set ps" "length (x # fl) = cap ?sz"
    using p(1) sz(4) by (auto simp: a slabs_def)
  then show ?thesis
  proof cases
    case full
    from dealloc_full [OF r [unfolded a] F(1) F(2) [unfolded a] full(2) p(2) m(1) m(2) [unfolded full(1)] m(3,4) [unfolded a] m(5)]
    show ?thesis unfolding eq using \<open>slab_is_full k (p + ?hh) \<longleftrightarrow> fl = []\<close> full(1) unfolding a by (simp del: split_paired_Ex) blast
  next
    case partial
    from dealloc_partial [OF r [unfolded a] F(1) F(2) [unfolded a] partial(2) p(2,3) m(2) m(3,4) [unfolded a] m(5)]
    show ?thesis unfolding eq using full empty partial unfolding a by (simp del: split_paired_Ex) blast
  next
    case last
    from dealloc_last [OF r [unfolded a] F(1) F(2) [unfolded a] last(2) p(2,3) m(2) last(3) m(3,4) [unfolded a] m(5)]
    show ?thesis unfolding eq using full empty last unfolding a by (simp del: split_paired_Ex) blast
  qed
qed

end
