(* ===== verification/Kheap.thy ===== *)
theory Kheap
  imports Slab
begin

text \<open>
  The kernel heap as its clients see it: \<open>alloc\<close>, \<open>dealloc\<close> and \<open>realloc\<close> of mm/heap.rs over the nine slab
  caches and the frame allocator. The invariant relates the heap to the set of blocks the clients hold.
\<close>

unbundle bit_operations_syntax

section \<open>Blocks of frames\<close>

definition big :: "kmem \<Rightarrow> nat set \<Rightarrow> nat \<Rightarrow> u64 \<Rightarrow> bool" where
  "big k F ord b \<longleftrightarrow> ord \<le> 12 \<and> aligned (12 + ord) b \<and> unat (- hhdm k) \<notin> bspan (ord, b) \<and> bspan (ord, b) \<inter> F = {}"

lemma alloc_block_law:
  assumes "free_space k F" "alloc_frames k ord = Some (b, k')"
  shows "big k' (F - bspan (ord, b)) ord b" "bspan (ord, b) \<subseteq> F" "free_space k' (F - bspan (ord, b))" "hhdm k' = hhdm k"
    "\<forall>y. unat y \<notin> F \<longrightarrow> ram k' y = ram k y"
proof -
  obtain ls where ls: "pmm_inv k ls" "space ls = F" using assms(1) by (auto simp: free_space_def)
  obtain ls' where a: "pmm_inv k' ls'" "held (hhdm k) ls' ord b" "space ls = space ls' \<union> bspan (ord, b)" "hhdm k' = hhdm k"
    "\<forall>x. unat x \<notin> space ls \<longrightarrow> ram k' x = ram k x"
    using alloc_contract [OF ls(1) assms(2) [unfolded alloc_frames_def]] by blast
  have sp: "space ls' = F - bspan (ord, b)" using a(3) held_disjoint [OF a(2)] ls(2) by auto
  show "free_space k' (F - bspan (ord, b))" using a(1) sp by (auto simp: free_space_def)
  show "bspan (ord, b) \<subseteq> F" using a(3) ls(2) by blast
  show "hhdm k' = hhdm k" by (rule a(4))
  show "\<forall>y. unat y \<notin> F \<longrightarrow> ram k' y = ram k y" using a(5) ls(2) by simp
  show "big k' (F - bspan (ord, b)) ord b"
    using a(2,4) by (auto simp: big_def held_def wf_blocks_def)
qed

lemma free_block_law:
  assumes "free_space k F" "big k F ord b"
  shows "\<exists>k'. free_frames k b ord = Some k' \<and> free_space k' (F \<union> bspan (ord, b)) \<and> hhdm k' = hhdm k \<and>
    (\<forall>y. unat y \<notin> F \<union> bspan (ord, b) \<longrightarrow> ram k' y = ram k y)"
proof -
  obtain ls where ls: "pmm_inv k ls" "space ls = F" using assms(1) by (auto simp: free_space_def)
  have h: "held (hhdm k) ls ord b"
    using ls assms(2) by (intro heldI) (auto simp: pmm_inv_def big_def)
  from buddy_free_refines [OF ls(1) h] a_free_ok(2) [OF h] show ?thesis
    unfolding free_frames_def free_space_def ls(2) by auto
qed

section \<open>Sizes of blocks\<close>

lemma leading_zeros_le:
  assumes "w \<noteq> 0"
  shows "leading_zeros w < 64" "bit w (63 - leading_zeros w)" "\<And>i. 63 - leading_zeros w < i \<Longrightarrow> \<not> bit w i"
proof -
  let ?P = "\<lambda>i. \<not> bit w i" and ?xs = "rev [0..<64] :: nat list"
  have nth: "?xs ! i = 63 - i" if "i < 64" for i using that by (simp add: rev_nth)
  obtain n where n: "bit w n" "n < 64" using assms bit_word_eqI [of w 0] by auto
  have "dropWhile ?P ?xs \<noteq> []" using n by (auto simp: dropWhile_eq_Nil_conv)
  then have "length (takeWhile ?P ?xs) < length ?xs"
    using takeWhile_dropWhile_id [of ?P ?xs] by (metis length_append length_greater_0_conv less_add_same_cancel1)
  then show lt: "leading_zeros w < 64" unfolding leading_zeros_def by (simp del: upt_rec_numeral)
  have "length (takeWhile ?P ?xs) < length ?xs" by fact
  from nth_length_takeWhile [OF this] nth [OF lt]
  show "bit w (63 - leading_zeros w)" unfolding leading_zeros_def by (simp del: upt_rec_numeral)
  show "\<not> bit w i" if "63 - leading_zeros w < i" for i
  proof (cases "i < 64")
    case True
    have "?xs ! (63 - i) = i" using True nth [of "63 - i"] by simp
    moreover have j: "63 - i < length (takeWhile ?P ?xs)" using that True lt unfolding leading_zeros_def by linarith
    ultimately have "i \<in> set (takeWhile ?P ?xs)" using takeWhile_nth [OF j] nth_mem [OF j] by simp
    then show ?thesis by (auto dest: set_takeWhileD)
  qed (auto dest: bit_imp_le_length)
qed

lemma leading_zeros_bounds:
  assumes "w \<noteq> 0"
  shows "2 ^ (63 - leading_zeros w) \<le> unat w" "unat w < 2 ^ (64 - leading_zeros w)"
proof -
  note l = leading_zeros_le [OF assms]
  have b: "bit (unat w) (63 - leading_zeros w)" using l(2) by (simp add: bit_unsigned_iff)
  show "2 ^ (63 - leading_zeros w) \<le> unat w"
  proof (rule ccontr)
    assume "\<not> 2 ^ (63 - leading_zeros w) \<le> unat w"
    then have "unat w div 2 ^ (63 - leading_zeros w) = 0" by simp
    then show False using b by (simp add: bit_iff_odd)
  qed
  have "take_bit (64 - leading_zeros w) (unat w) = unat w"
  proof (rule bit_eqI)
    fix n
    have "63 - leading_zeros w < n" if "\<not> n < 64 - leading_zeros w" using that l(1) by linarith
    then show "bit (take_bit (64 - leading_zeros w) (unat w)) n = bit (unat w) n"
      using l(3) by (auto simp: bit_take_bit_iff bit_unsigned_iff)
  qed
  then show "unat w < 2 ^ (64 - leading_zeros w)" by (metis take_bit_nat_less_exp)
qed

lemma unat_push_bit_1:
  assumes n: "n < 64"
  shows "unat (push_bit n 1 :: u64) = 2 ^ n"
proof -
  have "(2::nat) ^ n < 2 ^ 64" using n by (intro power_strict_increasing) simp_all
  moreover have "push_bit n (1 :: u64) = of_nat (2 ^ n)" by (simp add: push_bit_eq_mult)
  ultimately show ?thesis by (simp only: unat_of_nat len_of_numeral_defs) simp
qed

lemma leading_zeros_power: "n < 64 \<Longrightarrow> leading_zeros (push_bit n 1) = 63 - n"
proof -
  assume "n < 64"
  note u = unat_push_bit_1 [OF this]
  then have "push_bit n (1 :: u64) \<noteq> 0" by (metis power_eq_0_iff unat_0 zero_neq_numeral)
  note b = leading_zeros_bounds [OF this, unfolded u] and l = leading_zeros_le(1) [OF this]
  have "63 - leading_zeros (push_bit n 1) \<le> n" "n < 64 - leading_zeros (push_bit n 1)" using b by simp_all
  then show ?thesis using l by linarith
qed

lemma next_power_of_two:
  assumes "0 < unat w" "unat w \<le> 2 ^ 63"
  shows "\<exists>n<64. next_power_of_two w = push_bit n 1 \<and> unat w \<le> 2 ^ n"
proof (cases "w \<le> 1")
  case True
  then have "next_power_of_two w = push_bit 0 1" "unat w \<le> 2 ^ 0" by (simp_all add: next_power_of_two_def word_le_nat_alt)
  then show ?thesis by (intro exI [of _ 0]) simp
next
  case False
  then have u: "unat (w - 1) = unat w - 1" "1 < unat w" by (simp_all add: unat_sub word_le_nat_alt)
  then have nz: "w - 1 \<noteq> 0" by (metis diff_is_0_eq not_le unat_0)
  define z where "z = leading_zeros (w - 1)"
  note b = leading_zeros_bounds [OF nz, folded z_def] and lt = leading_zeros_le(1) [OF nz, folded z_def]
  have "(2::nat) ^ (63 - z) < 2 ^ 63" using b(1) u assms(2) by linarith
  then have z: "0 < z" using lt by (cases z) simp_all
  have "drop_bit z (- 1 :: u64) = mask (64 - z)" by (rule bit_word_eqI) (auto simp: bit_simps)
  then have "drop_bit z (- 1 :: u64) + 1 = push_bit (64 - z) 1" by (simp add: mask_eq_exp_minus_1 push_bit_eq_mult)
  then have "next_power_of_two w = push_bit (64 - z) 1" using False by (simp add: next_power_of_two_def z_def)
  moreover have "unat w \<le> 2 ^ (64 - z)" using b(2) u by linarith
  ultimately show ?thesis using z lt by (intro exI [of _ "64 - z"]) simp
qed

lemma frames_order_covers:
  assumes "0 < unat sz" "unat sz \<le> 2 ^ 63"
  shows "unat sz \<le> 2 ^ (12 + frames_order sz)"
proof -
  let ?p = "align_up sz 4096 div 4096"
  have u: "unat ?p = (unat sz + 4095) div 4096"
    using unat_align_up [of sz] assms(2) by (simp add: unat_div)
  have p: "0 < unat ?p" "unat ?p \<le> 2 ^ 63" "unat sz \<le> 4096 * unat ?p" unfolding u using assms by linarith+
  obtain n where n: "n < 64" "next_power_of_two ?p = push_bit n 1" "unat ?p \<le> 2 ^ n" using next_power_of_two [OF p(1,2)] by blast
  have "frames_order sz = n" using n leading_zeros_power [OF n(1)] by (simp add: frames_order_def PAGE_SIZE_def Let_def)
  then show ?thesis using p(3) n(3) by (simp add: power_add)
qed

section \<open>The heap\<close>

text \<open>The size class that serves a layout, and the bytes a block of the heap occupies.\<close>

definition class_of :: "layout \<Rightarrow> nat option" where
  "class_of l = (if l_size l \<le> 2048 \<and> l_align l \<le> 2048
     then find (\<lambda>i. max (l_size l) (l_align l) \<le> SLAB_SIZES ! i) [0..<9] else None)"

definition block_bytes :: "u64 \<Rightarrow> u64 \<times> layout \<Rightarrow> nat set" where
  "block_bytes hh b = (case b of (ptr, l) \<Rightarrow>
     if l_size l = 0 then {}
     else case class_of l of
       Some i \<Rightarrow> span (ptr - hh) (unat (SLAB_SIZES ! i))
     | None \<Rightarrow> bspan (frames_order (l_size l), ptr - hh))"

definition heap_rep :: "heap \<Rightarrow> acache list \<Rightarrow> nat set \<Rightarrow> bool" where
  "heap_rep h cs F \<longleftrightarrow> aligned 12 (hhdm (h_mem h)) \<and> free_space (h_mem h) F \<and>
     map c_obj_size (h_caches h) = SLAB_SIZES \<and> length cs = 9 \<and>
     (\<forall>i<9. cache_rep (hhdm (h_mem h)) (ram (h_mem h)) (h_caches h ! i) (cs ! i) \<and> owns (h_mem h) F (cs ! i)) \<and>
     (\<forall>i<9. \<forall>j<9. i \<noteq> j \<longrightarrow> set (pages (cs ! i)) \<inter> set (pages (cs ! j)) = {})"

definition block_ok :: "heap \<Rightarrow> acache list \<Rightarrow> nat set \<Rightarrow> u64 \<times> layout \<Rightarrow> bool" where
  "block_ok h cs F b \<longleftrightarrow> (case b of (ptr, l) \<Rightarrow>
     ptr \<noteq> 0 \<and> (l_size l \<noteq> 0 \<longrightarrow> (case class_of l of
       Some i \<Rightarrow> ptr - hhdm (h_mem h) \<in> live (SLAB_SIZES ! i) (cs ! i)
     | None \<Rightarrow> big (h_mem h) F (frames_order (l_size l)) (ptr - hhdm (h_mem h)) \<and>
         (\<forall>i<9. block_bytes (hhdm (h_mem h)) b \<inter> page_bytes (cs ! i) = {}))))"

definition heap_inv :: "heap \<Rightarrow> (u64 \<times> layout) set \<Rightarrow> bool" where
  "heap_inv h A \<longleftrightarrow> (\<forall>b\<in>A. layout_ok (l_size (snd b)) (l_align (snd b))) \<and>
     (\<exists>cs F. heap_rep h cs F \<and> (\<forall>b\<in>A. block_ok h cs F b)) \<and>
     (\<forall>b\<in>A. \<forall>d\<in>A. b \<noteq> d \<longrightarrow> block_bytes (hhdm (h_mem h)) b \<inter> block_bytes (hhdm (h_mem h)) d = {})"

lemma class_of_bound: "class_of l = Some i \<Longrightarrow> i < 9 \<and> max (l_size l) (l_align l) \<le> SLAB_SIZES ! i"
  by (auto simp: class_of_def find_Some_iff split: if_splits)

lemma slab_size_nth: "i < 9 \<Longrightarrow> SLAB_SIZES ! i \<in> set SLAB_SIZES"
  by (rule nth_mem) (simp add: SLAB_SIZES_def)

lemma find_class:
  assumes "map c_obj_size caches = SLAB_SIZES"
  shows "(if l_size l \<le> 2048 \<and> l_align l \<le> 2048 then find_cache caches (l_size l) (l_align l) else None) = class_of l"
    "i < 9 \<Longrightarrow> c_obj_size (caches ! i) = SLAB_SIZES ! i" "length caches = 9"
proof -
  show len: "length caches = 9" using arg_cong [OF assms, of length] by (simp add: SLAB_SIZES_def)
  show nth: "c_obj_size (caches ! i) = SLAB_SIZES ! i" if "i < 9" for i using that len assms by (metis nth_map)
  have "find (\<lambda>i. max a b \<le> c_obj_size (caches ! i)) [0..<9] = find (\<lambda>i. max a b \<le> SLAB_SIZES ! i) [0..<9]" for a b
    by (rule find_cong) (use nth in \<open>auto simp del: upt_rec_numeral\<close>)
  then show "(if l_size l \<le> 2048 \<and> l_align l \<le> 2048 then find_cache caches (l_size l) (l_align l) else None) = class_of l"
    unfolding find_cache_def class_of_def len by (simp del: upt_rec_numeral)
qed

lemma cache_rep_cong:
  assumes r: "cache_rep hh m c a" and same: "\<And>y. unat y \<in> page_bytes a \<Longrightarrow> m' y = m y"
  shows "cache_rep hh m' c a"
proof -
  have sz: "c_obj_size c \<in> set SLAB_SIZES" using r by (simp add: cache_rep_def)
  have k: "slab_rep hh m' (c_obj_size c) q g \<and> nxt m' q = nxt m q" if s: "(q, g) \<in> set (slabs a)" for q g
  proof -
    have q: "q \<in> set (pages a)" using s unfolding pages_slabs by force
    have "slab_rep hh m (c_obj_size c) q g" "aligned 12 q" using r s q by (auto simp: cache_rep_def)
    from frame_slab [OF this(1) sz this(2), of m'] q same show ?thesis by (auto simp: page_bytes_def)
  qed
  have n: "\<forall>q\<in>set (pages a). nxt m' q = nxt m q" unfolding pages_slabs using k by auto
  have "linked hh (nxt m') (c_partial c) (map fst (fst a))" "linked hh (nxt m') (c_full c) (snd a)"
    using r n linked_cong [of hh "nxt m" _ _ "nxt m'"] by (auto simp: cache_rep_def pages_def)
  then show ?thesis using r k by (auto simp: cache_rep_def)
qed

lemma pages_disjoint:
  assumes "heap_rep h cs F" "i < 9" "j < 9" "i \<noteq> j"
  shows "page_bytes (cs ! i) \<inter> page_bytes (cs ! j) = {}"
proof -
  have "span p 4096 \<inter> span q 4096 = {}" if "p \<in> set (pages (cs ! i))" "q \<in> set (pages (cs ! j))" for p q
  proof (rule other_page)
    show "aligned 12 p" "aligned 12 q" using assms that by (auto simp: heap_rep_def cache_rep_def)
    show "p \<noteq> q" using assms that by (auto simp: heap_rep_def)
  qed
  then show ?thesis by (auto simp: page_bytes_def)
qed

lemma owns_bytes: "owns k F a \<longleftrightarrow> (\<forall>p\<in>set (pages a). is_frame k p) \<and> page_bytes a \<inter> F = {}"
  by (auto simp: owns_def page_bytes_def)

lemma owns_hhdm: "hhdm k' = hhdm k \<Longrightarrow> owns k' F a = owns k F a"
  using is_frame_hhdm [of k' k] by (simp add: owns_def)

text \<open>Where the bytes of a block lie: outside the free space, and in the pages of its own cache if it has one.\<close>

lemma block_where:
  assumes h: "heap_rep h cs F" and b: "block_ok h cs F (ptr, l)"
  shows "block_bytes (hhdm (h_mem h)) (ptr, l) \<inter> F = {}"
    "\<And>i. i < 9 \<Longrightarrow> class_of l \<noteq> Some i \<Longrightarrow> block_bytes (hhdm (h_mem h)) (ptr, l) \<inter> page_bytes (cs ! i) = {}"
    "class_of l = Some i \<Longrightarrow> block_bytes (hhdm (h_mem h)) (ptr, l) \<subseteq> page_bytes (cs ! i) - headers (cs ! i)"
proof -
  let ?B = "block_bytes (hhdm (h_mem h)) (ptr, l)"
  have sm: "?B \<subseteq> page_bytes (cs ! i) - headers (cs ! i)" if c: "class_of l = Some i" for i
  proof (cases "l_size l = 0")
    case False
    have i: "i < 9" using class_of_bound [OF c] by simp
    have cr: "cache_rep (hhdm (h_mem h)) (ram (h_mem h)) (h_caches h ! i) (cs ! i)" "c_obj_size (h_caches h ! i) = SLAB_SIZES ! i"
      using h i find_class(2) by (auto simp: heap_rep_def)
    show ?thesis using live_bytes(1,2) [OF cr(1)] b False c cr(2) by (auto simp: block_bytes_def block_ok_def)
  qed (simp add: block_bytes_def)
  then show "class_of l = Some i \<Longrightarrow> ?B \<subseteq> page_bytes (cs ! i) - headers (cs ! i)" .
  have pf: "page_bytes (cs ! i) \<inter> F = {}" if "i < 9" for i using h that by (auto simp: heap_rep_def owns_bytes)
  show "?B \<inter> F = {}"
  proof (cases "class_of l")
    case None
    then show ?thesis using b by (cases "l_size l = 0") (auto simp: block_ok_def block_bytes_def big_def)
  next
    case (Some i)
    then show ?thesis using sm [OF Some] pf class_of_bound [OF Some] by blast
  qed
  show "?B \<inter> page_bytes (cs ! i) = {}" if i: "i < 9" "class_of l \<noteq> Some i" for i
  proof (cases "class_of l")
    case None
    then show ?thesis using b i by (cases "l_size l = 0") (auto simp: block_ok_def block_bytes_def)
  next
    case (Some j)
    then have "j < 9" "j \<noteq> i" using class_of_bound [OF Some] i by auto
    then show ?thesis using sm [OF Some] pages_disjoint [OF h] i(1) by blast
  qed
qed

text \<open>One cache replaced by another that takes its pages from the old ones and from the free space.\<close>

definition put_cache :: "heap \<Rightarrow> nat \<Rightarrow> kmem \<Rightarrow> slab_cache \<Rightarrow> heap" where
  "put_cache h i k c = h\<lparr>h_mem := k, h_caches := (h_caches h)[i := c]\<rparr>"

definition cache_change :: "heap \<Rightarrow> acache list \<Rightarrow> nat set \<Rightarrow> nat \<Rightarrow> kmem \<Rightarrow> slab_cache \<Rightarrow> acache \<Rightarrow> nat set \<Rightarrow> bool" where
  "cache_change h cs F i k' c' a' F' \<longleftrightarrow> i < 9 \<and> cache_rep (hhdm (h_mem h)) (ram k') c' a' \<and> hhdm k' = hhdm (h_mem h) \<and>
     c_obj_size c' = SLAB_SIZES ! i \<and> free_space k' F' \<and> owns (h_mem h) F' a' \<and>
     page_bytes a' \<subseteq> F \<union> page_bytes (cs ! i) \<and> F' \<subseteq> F \<union> page_bytes (cs ! i) \<and>
     (\<forall>y. unat y \<notin> F \<union> page_bytes (cs ! i) \<longrightarrow> ram k' y = ram (h_mem h) y)"

lemma heap_rep_update:
  assumes h: "heap_rep h cs F" and c: "cache_change h cs F i k' c' a' F'"
  shows "heap_rep (put_cache h i k' c') (cs[i := a']) F'"
proof -
  let ?k = "h_mem h" and ?hh = "hhdm (h_mem h)" and ?h = "put_cache h i k' c'"
  have i: "i < 9" "length cs = 9" and sz: "map c_obj_size (h_caches h) = SLAB_SIZES" using h c by (auto simp: heap_rep_def cache_change_def)
  note fc = find_class [OF sz]
  have p: "cache_rep ?hh (ram k') c' a'" "hhdm k' = ?hh" "c_obj_size c' = SLAB_SIZES ! i" "free_space k' F'" "owns ?k F' a'"
    "page_bytes a' \<subseteq> F \<union> page_bytes (cs ! i)" "F' \<subseteq> F \<union> page_bytes (cs ! i)"
    "\<forall>y. unat y \<notin> F \<union> page_bytes (cs ! i) \<longrightarrow> ram k' y = ram ?k y"
    using c by (simp_all add: cache_change_def)
  have oj: "cache_rep ?hh (ram ?k) (h_caches h ! j) (cs ! j)" "owns ?k F (cs ! j)" if "j < 9" for j
    using h that by (auto simp: heap_rep_def)
  have dis: "page_bytes (cs ! j) \<inter> (F \<union> page_bytes (cs ! i)) = {}" if "j < 9" "j \<noteq> i" for j
    using oj(2) [OF that(1)] pages_disjoint [OF h that(1) i(1) that(2)] by (auto simp: owns_bytes)
  have rj: "cache_rep ?hh (ram k') (h_caches h ! j) (cs ! j)" if "j < 9" "j \<noteq> i" for j
    using dis [OF that] p(8) by (intro cache_rep_cong [OF oj(1) [OF that(1)]]) blast
  have wj: "owns k' F' (cs ! j)" if "j < 9" "j \<noteq> i" for j
    using oj(2) [OF that(1)] dis [OF that] p(7) owns_hhdm [OF p(2)] by (auto simp: owns_bytes)
  have dj: "set (pages a') \<inter> set (pages (cs ! j)) = {}" if "j < 9" "j \<noteq> i" for j
  proof -
    have "unat q \<in> page_bytes b" if "q \<in> set (pages b)" for q b using that by (force simp: page_bytes_def)
    then show ?thesis using dis [OF that] p(6) by blast
  qed
  show ?thesis
    unfolding heap_rep_def
  proof (intro conjI allI impI)
    show "aligned 12 (hhdm (h_mem ?h))" "free_space (h_mem ?h) F'" "length (cs[i := a']) = 9"
      using h p(2,4) i by (auto simp: put_cache_def heap_rep_def)
    show "map c_obj_size (h_caches ?h) = SLAB_SIZES"
      using sz p(3) by (simp add: put_cache_def map_update)
    fix j assume j: "j < (9::nat)"
    show "cache_rep (hhdm (h_mem ?h)) (ram (h_mem ?h)) (h_caches ?h ! j) (cs[i := a'] ! j)" "owns (h_mem ?h) F' (cs[i := a'] ! j)"
      using p(1,2,5) wj rj j fc(3) i owns_hhdm [OF p(2)] by (cases "j = i"; simp add: put_cache_def)+
    fix j' assume j': "j' < (9::nat)" "j \<noteq> j'"
    have "set (pages (cs ! j)) \<inter> set (pages (cs ! j')) = {}" using h j j' by (simp add: heap_rep_def)
    then show "set (pages (cs[i := a'] ! j)) \<inter> set (pages (cs[i := a'] ! j')) = {}"
      using dj [OF j] dj [OF j'(1)] j'(2) i(2) i(1) by (cases "j = i"; cases "j' = i") auto
  qed
qed

lemma block_ok_update:
  assumes h: "heap_rep h cs F" and c: "cache_change h cs F i k' c' a' F'" and b: "block_ok h cs F (q, m)"
    and i: "class_of m = Some i \<Longrightarrow> l_size m \<noteq> 0 \<Longrightarrow> q - hhdm (h_mem h) \<in> live (SLAB_SIZES ! i) a'"
  shows "block_ok (put_cache h i k' c') (cs[i := a']) F' (q, m)"
proof -
  have l: "i < 9" "length cs = 9" "hhdm k' = hhdm (h_mem h)" using h c by (auto simp: heap_rep_def cache_change_def)
  show ?thesis
  proof (cases "class_of m")
    case None
    let ?B = "block_bytes (hhdm (h_mem h)) (q, m)"
    have d: "?B \<inter> (F \<union> page_bytes (cs ! i)) = {}" "\<And>j. j < 9 \<Longrightarrow> ?B \<inter> page_bytes (cs ! j) = {}"
      using block_where(1) [OF h b] block_where(2) [OF h b] None l(1) by auto
    have sub: "page_bytes a' \<subseteq> F \<union> page_bytes (cs ! i)" "F' \<subseteq> F \<union> page_bytes (cs ! i)" using c by (simp_all add: cache_change_def)
    have "?B \<inter> page_bytes (cs[i := a'] ! j) = {}" if "j < 9" for j using d sub that l(2) by (cases "j = i") auto
    then have "\<forall>j<9. ?B \<inter> page_bytes (cs[i := a'] ! j) = {}" by simp
    moreover have "?B \<inter> F' = {}" using d(1) sub(2) by blast
    ultimately show ?thesis
      using b None l(3) by (cases "l_size m = 0") (simp_all add: block_ok_def put_cache_def block_bytes_def big_def)
  next
    case (Some j)
    then have "j < 9" using class_of_bound by blast
    then show ?thesis using b Some i l by (cases "j = i") (auto simp: block_ok_def put_cache_def)
  qed
qed

text \<open>What a call leaves of the blocks that stay: their bytes are the same.\<close>

definition keeps_blocks :: "heap \<Rightarrow> heap \<Rightarrow> (u64 \<times> layout) set \<Rightarrow> bool" where
  "keeps_blocks h h' A \<longleftrightarrow> hhdm (h_mem h') = hhdm (h_mem h) \<and>
     (\<forall>b\<in>A. \<forall>y. unat y \<in> block_bytes (hhdm (h_mem h)) b \<longrightarrow> ram (h_mem h') y = ram (h_mem h) y)"

lemma headers_page: "headers a \<subseteq> page_bytes a"
  using span_mono [of 48 4096] by (fastforce simp: headers_def page_bytes_def)

lemma alloc_change:
  assumes h: "heap_rep h cs F" and i: "i < 9" and p: "cache_alloc_post (h_mem h) F (h_caches h ! i) (cs ! i) r k' c' a' F'"
  shows "cache_change h cs F i k' c' a' F'"
proof -
  have "c_obj_size (h_caches h ! i) = SLAB_SIZES ! i" using h i find_class(2) by (auto simp: heap_rep_def)
  moreover have "page_bytes a' \<subseteq> F \<union> page_bytes (cs ! i)" using p by (auto simp: cache_alloc_post_def page_bytes_def)
  ultimately show ?thesis using p i headers_page [of "cs ! i"] by (auto simp: cache_change_def cache_alloc_post_def)
qed

text \<open>A new object is disjoint from every block there was.\<close>

lemma new_disjoint:
  assumes h: "heap_rep h cs F" and n: "block_ok h cs F (ptr, l)" and c: "class_of l = Some i" "l_size l \<noteq> 0"
    and b: "block_ok h cs F (q, m)" "class_of m = Some i \<Longrightarrow> l_size m \<noteq> 0 \<Longrightarrow> q \<noteq> ptr"
  shows "block_bytes (hhdm (h_mem h)) (ptr, l) \<inter> block_bytes (hhdm (h_mem h)) (q, m) = {}"
proof (cases "class_of m = Some i \<and> l_size m \<noteq> 0")
  case True
  let ?hh = "hhdm (h_mem h)" and ?sz = "SLAB_SIZES ! i"
  have i: "i < 9" using class_of_bound [OF c(1)] by simp
  have r: "cache_rep ?hh (ram (h_mem h)) (h_caches h ! i) (cs ! i)" "c_obj_size (h_caches h ! i) = ?sz"
    using h i find_class(2) by (auto simp: heap_rep_def)
  have lv: "ptr - ?hh \<in> live ?sz (cs ! i)" "q - ?hh \<in> live ?sz (cs ! i)" using n b(1) c True by (auto simp: block_ok_def)
  have "q - ?hh \<noteq> ptr - ?hh" using b(2) True by simp
  then have "span (ptr - ?hh) (unat ?sz) \<inter> span (q - ?hh) (unat ?sz) = {}"
    using live_bytes(3) [OF r(1)] lv r(2) by (metis disjoint_iff)
  then show ?thesis using True c by (simp add: block_bytes_def)
next
  case False
  have i: "i < 9" using class_of_bound [OF c(1)] by simp
  have "block_bytes (hhdm (h_mem h)) (q, m) \<inter> page_bytes (cs ! i) = {}"
    using block_where(2) [OF h b(1) i] False by (cases "l_size m = 0") (auto simp: block_bytes_def)
  then show ?thesis using block_where(3) [OF h n c(1)] by blast
qed

definition alloc_post :: "heap \<Rightarrow> (u64 \<times> layout) set \<Rightarrow> layout \<Rightarrow> u64 \<Rightarrow> heap \<Rightarrow> bool" where
  "alloc_post h A l p h' \<longleftrightarrow> (\<exists>cs' F'. heap_rep h' cs' F' \<and> (\<forall>b\<in>A. block_ok h' cs' F' b) \<and> keeps_blocks h h' A \<and>
     (p \<noteq> 0 \<longrightarrow> block_ok h' cs' F' (p, l) \<and>
        (\<forall>b\<in>A. block_bytes (hhdm (h_mem h)) (p, l) \<inter> block_bytes (hhdm (h_mem h)) b = {})))"

lemma alloc_postI:
  assumes "heap_rep h' cs' F'" "\<And>b. b \<in> A \<Longrightarrow> block_ok h' cs' F' b" "keeps_blocks h h' A" "p \<noteq> 0 \<Longrightarrow> block_ok h' cs' F' (p, l)"
    "\<And>b. p \<noteq> 0 \<Longrightarrow> b \<in> A \<Longrightarrow> block_bytes (hhdm (h_mem h)) (p, l) \<inter> block_bytes (hhdm (h_mem h)) b = {}"
  shows "alloc_post h A l p h'"
  unfolding alloc_post_def using assms by (intro exI [of _ cs'] exI [of _ F']) simp

lemma heap_alloc_small:
  assumes h: "heap_rep h cs F" and A: "\<forall>b\<in>A. block_ok h cs F b"
    and l: "class_of l = Some i" "l_size l \<noteq> 0"
  shows "\<exists>p h'. heap_alloc h l = Some (p, h') \<and> alloc_post h A l p h' \<and> (p = 0 \<longrightarrow> F = {})"
proof -
  let ?k = "h_mem h" and ?hh = "hhdm (h_mem h)" and ?c = "h_caches h ! i" and ?a = "cs ! i" and ?sz = "SLAB_SIZES ! i"
  have i: "i < 9" using class_of_bound [OF l(1)] by simp
  have cs: "length cs = 9" "map c_obj_size (h_caches h) = SLAB_SIZES" using h by (auto simp: heap_rep_def)
  note fc = find_class [OF cs(2)]
  have cr: "cache_rep ?hh (ram ?k) ?c ?a" "free_space ?k F" "owns ?k F ?a" using h i by (auto simp: heap_rep_def)
  obtain r k' c' a' F' where ca: "cache_alloc ?k ?c = Some (r, k', c')" "cache_alloc_post ?k F ?c ?a r k' c' a' F'"
    using cache_alloc_law [OF cr] by blast
  let ?h = "put_cache h i k' c'" and ?cs = "cs[i := a']"
  note ch = alloc_change [OF h i ca(2)]
  note rep = heap_rep_update [OF h ch]
  have hh: "hhdm (h_mem ?h) = ?hh" using ch by (simp add: put_cache_def cache_change_def)
  have lv: "live ?sz ?a \<subseteq> live ?sz a'" using ca(2) fc(2) [OF i] by (auto simp: cache_alloc_post_def split: option.splits)
  have ok: "block_ok ?h ?cs F' b" if b: "b \<in> A" for b
  proof (cases b)
    case (Pair q m)
    have o: "block_ok h cs F (q, m)" using A b Pair by auto
    show ?thesis unfolding Pair using o lv by (intro block_ok_update [OF h ch o]) (auto simp: block_ok_def)
  qed
  have "ram k' y = ram ?k y" if b: "b \<in> A" "unat y \<in> block_bytes ?hh b" for b and y :: u64
  proof (cases b)
    case (Pair q m)
    have o: "block_ok h cs F (q, m)" using A b Pair by auto
    have "unat y \<notin> headers ?a"
      using block_where(2) [OF h o i] block_where(3) [OF h o, of i] b(2) headers_page [of ?a] unfolding Pair
      by (cases "class_of m = Some i") auto
    then show ?thesis using ca(2) block_where(1) [OF h o] b(2) unfolding Pair by (auto simp: cache_alloc_post_def)
  qed
  then have keep: "keeps_blocks h ?h A" using hh by (simp add: keeps_blocks_def put_cache_def)
  have al: "heap_alloc h l = Some (case r of None \<Rightarrow> 0 | Some ptr \<Rightarrow> ptr, ?h)"
    using l(2) ca(1) unfolding heap_alloc_def fc(1) l(1) by (simp add: put_cache_def)
  show ?thesis
  proof (cases r)
    case None
    then have "F = {}" using ca(2) by (simp add: cache_alloc_post_def)
    moreover have "alloc_post h A l 0 ?h" by (rule alloc_postI [OF rep ok keep]) simp_all
    ultimately show ?thesis using al None by simp
  next
    case (Some ptr)
    obtain x where x: "ptr = x + ?hh" "x \<notin> live ?sz ?a" "x \<in> live ?sz a'"
      using ca(2) Some fc(2) [OF i] by (auto simp: cache_alloc_post_def)
    have p: "cache_rep ?hh (ram k') c' a'" "c_obj_size c' = ?sz" "owns ?k F' a'" using ch by (simp_all add: cache_change_def)
    have "unat x \<in> page_bytes a'"
      using live_bytes(1) [OF p(1), of x "unat x"] x(3) p(2) sizes(8) [OF slab_size_nth [OF i]] by simp
    then have nz: "ptr \<noteq> 0" unfolding x(1) using p(3) frame_nonnull by (auto simp: page_bytes_def owns_def)
    have bo: "block_ok ?h ?cs F' (ptr, l)"
      using nz x l(1) i cs(1) hh by (simp add: block_ok_def)
    have "block_bytes ?hh (ptr, l) \<inter> block_bytes ?hh b = {}" if b: "b \<in> A" for b
    proof (cases b)
      case (Pair q m)
      have "q \<noteq> ptr" if "class_of m = Some i" "l_size m \<noteq> 0" using A b Pair that x by (auto simp: block_ok_def)
      then show ?thesis using new_disjoint [OF rep bo l, of q m] ok [OF b] hh unfolding Pair by simp
    qed
    then have "alloc_post h A l ptr ?h" by (intro alloc_postI [OF rep ok keep bo])
    then show ?thesis using al Some nz by simp
  qed
qed

section \<open>Large blocks and writes of the clients\<close>

lemma heap_rep_mem:
  assumes h: "heap_rep h cs F" and k: "hhdm k' = hhdm (h_mem h)" "free_space k' F'"
    and c: "\<forall>i<9. cache_rep (hhdm (h_mem h)) (ram k') (h_caches h ! i) (cs ! i) \<and> page_bytes (cs ! i) \<inter> F' = {}"
  shows "heap_rep (h\<lparr>h_mem := k'\<rparr>) cs F'"
proof -
  have "owns k' F' (cs ! i)" if "i < 9" for i
    unfolding owns_hhdm [OF k(1)] using h c that by (simp add: heap_rep_def owns_bytes)
  then show ?thesis using h k c by (simp add: heap_rep_def)
qed

lemma rep_outside:
  assumes h: "heap_rep h cs F" and i: "i < 9" and same: "\<forall>y. unat y \<in> page_bytes (cs ! i) \<longrightarrow> m y = ram (h_mem h) y"
  shows "cache_rep (hhdm (h_mem h)) m (h_caches h ! i) (cs ! i)"
proof -
  have "cache_rep (hhdm (h_mem h)) (ram (h_mem h)) (h_caches h ! i) (cs ! i)" using h i by (simp add: heap_rep_def)
  from cache_rep_cong [OF this] same show ?thesis by blast
qed

lemma block_ok_mem:
  assumes "block_ok h cs F b" "hhdm k' = hhdm (h_mem h)" "block_bytes (hhdm (h_mem h)) b \<inter> F' = {}"
  shows "block_ok (h\<lparr>h_mem := k'\<rparr>) cs F' b"
proof (cases b)
  case (Pair q m)
  show ?thesis
  proof (cases "class_of m")
    case None
    then show ?thesis using assms unfolding Pair by (cases "l_size m = 0") (simp_all add: block_ok_def block_bytes_def big_def)
  qed (use assms Pair in \<open>simp add: block_ok_def\<close>)
qed

lemma heap_alloc_large:
  assumes h: "heap_rep h cs F" and A: "\<forall>b\<in>A. block_ok h cs F b"
    and l: "class_of l = None" "l_size l \<noteq> 0"
  shows "\<exists>p h'. heap_alloc h l = Some (p, h') \<and> alloc_post h A l p h'"
proof -
  let ?k = "h_mem h" and ?hh = "hhdm (h_mem h)" and ?o = "frames_order (l_size l)"
  have sz: "map c_obj_size (h_caches h) = SLAB_SIZES" using h by (simp add: heap_rep_def)
  have dis: "block_bytes ?hh b \<inter> F = {}" if "b \<in> A" for b using A that block_where(1) [OF h] by (cases b) auto
  show ?thesis
  proof (cases "alloc_frames ?k ?o")
    case None
    then have "heap_alloc h l = Some (0, h)" using l unfolding heap_alloc_def find_class(1) [OF sz] by simp
    moreover have "alloc_post h A l 0 h" using A by (intro alloc_postI [OF h]) (simp_all add: keeps_blocks_def)
    ultimately show ?thesis by blast
  next
    case (Some r)
    obtain b k1 where r: "r = (b, k1)" by (cases r)
    note f = alloc_block_law [OF _ Some [unfolded r], of F]
    have fs: "free_space ?k F" using h by (simp add: heap_rep_def)
    note f = f [OF fs]
    let ?m = "write_bytes (ram k1) b 0 (2 ^ ?o * 4096)" and ?B = "bspan (?o, b)"
    let ?k' = "k1\<lparr>ram := ?m\<rparr>" and ?h = "h\<lparr>h_mem := k1\<lparr>ram := write_bytes (ram k1) b 0 (2 ^ ?o * 4096)\<rparr>\<rparr>"
    have al: "heap_alloc h l = Some (b + ?hh, ?h)"
      using l Some r f(4) unfolding heap_alloc_def find_class(1) [OF sz]
      by (simp add: Let_def phys_to_virt_def virt_to_phys_def)
    have bb: "unat b + 2 ^ ?o * 4096 \<le> 2 ^ 64" "span b (2 ^ ?o * 4096) = ?B"
      using aligned_bound [of "12 + ?o" b] f(1) by (simp_all add: big_def bspan_def power_add mult.commute)
    have m: "?m y = ram ?k y" if "unat y \<notin> F" for y
      using that f(2,5) bb write_bytes_other [of b "2 ^ ?o * 4096" y "ram k1" 0] by auto
    have "free_space ?k' (F - ?B)"
      by (rule pmm_mem.set_mem_free [OF f(3)]) (use bb write_bytes_other in auto)
    moreover have pf: "page_bytes (cs ! i) \<inter> F = {}" if "i < 9" for i using h that by (auto simp: heap_rep_def owns_bytes)
    moreover have "cache_rep ?hh ?m (h_caches h ! i) (cs ! i)" if "i < 9" for i
      using pf [OF that] m by (intro rep_outside [OF h that]) blast
    ultimately have rep: "heap_rep ?h cs (F - ?B)" using f(4) by (intro heap_rep_mem [OF h]) auto
    have old: "block_ok ?h cs (F - ?B) d" if "d \<in> A" for d
      using A that dis [OF that] f(4) by (intro block_ok_mem) auto
    have keep: "keeps_blocks h ?h A" using m dis f(4) by (fastforce simp: keeps_blocks_def)
    have nb: "block_bytes ?hh (b + ?hh, l) = ?B" using l by (simp add: block_bytes_def)
    have new: "block_ok ?h cs (F - ?B) (b + ?hh, l)" if "b + ?hh \<noteq> 0"
      using that l f(1,2,4) pf nb by (auto simp: block_ok_def big_def)
    have "?B \<inter> block_bytes ?hh d = {}" if "d \<in> A" for d using dis [OF that] f(2) by blast
    then have "alloc_post h A l (b + ?hh) ?h" unfolding nb [symmetric] by (intro alloc_postI [OF rep old keep new])
    then show ?thesis using al by blast
  qed
qed

text \<open>A client may write anything into a live object: the representation of its cache does not depend on it.\<close>

lemma cells_not_live:
  assumes r: "cache_rep hh m c a" and x: "x \<in> live (c_obj_size c) a" and q: "(q, g) \<in> set (slabs a)"
  shows "(span q 48 \<union> slab_cells q g) \<inter> span x (unat (c_obj_size c)) = {}"
proof -
  let ?sz = "c_obj_size c"
  have sz: "?sz \<in> set SLAB_SIZES" using r by (simp add: cache_rep_def)
  have qa: "q \<in> set (pages a)" using q unfolding pages_slabs by force
  have hd: "span q 48 \<inter> span x (unat ?sz) = {}" using live_bytes(2) [OF r x] qa by (auto simp: headers_def)
  obtain p fl where p: "(p, fl) \<in> set (slabs a)" "x \<in> objs ?sz p" "x \<notin> set fl" using x by (auto simp: live_def)
  have al: "aligned 12 q" "aligned 12 p" using r qa p(1) pages_slabs [of a] by (force simp: cache_rep_def)+
  have g: "set g \<subseteq> objs ?sz q" using r q by (auto simp: cache_rep_def slab_rep_def)
  have "span z (unat ?sz) \<inter> span x (unat ?sz) = {}" if z: "z \<in> set g" for z
  proof (cases "q = p")
    case True
    then have "z \<noteq> x" using p slabs_unique [OF r, of p fl g] q z by blast
    then show ?thesis using objs_disjoint [OF sz al(1)] g z p(2) True by blast
  next
    case False
    then show ?thesis using other_page [OF al] obj_range(5) [OF sz al(1)] obj_range(5) [OF sz al(2) p(2)] g z by blast
  qed
  then have "span z 8 \<inter> span x (unat ?sz) = {}" if "z \<in> set g" for z using that span8 [OF sz] by blast
  then show ?thesis using hd span_mono [of 40 48 q] by (auto simp: slab_cells_def)
qed

lemma cache_rep_write:
  assumes r: "cache_rep hh m c a" and x: "x \<in> live (c_obj_size c) a"
    and same: "\<forall>y. unat y \<notin> span x (unat (c_obj_size c)) \<longrightarrow> m' y = m y"
  shows "cache_rep hh m' c a"
proof -
  have k: "slab_rep hh m' (c_obj_size c) q g \<and> nxt m' q = nxt m q" if s: "(q, g) \<in> set (slabs a)" for q g
  proof -
    have q: "q \<in> set (pages a)" using s unfolding pages_slabs by force
    have sr: "slab_rep hh m (c_obj_size c) q g" "aligned 12 q" "c_obj_size c \<in> set SLAB_SIZES" using r s q by (auto simp: cache_rep_def)
    have eq: "m' y = m y" if "unat y \<in> span q 48 \<union> slab_cells q g" for y using cells_not_live [OF r x s] that same by blast
    have "slab_rep hh m' (c_obj_size c) q g" by (rule slab_rep_cong [OF sr(1,3,2)]) (use eq in blast)
    moreover have "nxt m' q = nxt m q" unfolding nxt_def
      by (rule load64_same [OF header_cells(6) [OF sr(2)]]) (use eq next_in_header [OF sr(2)] in blast)
    ultimately show ?thesis by blast
  qed
  have n: "\<forall>q\<in>set (pages a). nxt m' q = nxt m q" unfolding pages_slabs using k by auto
  have "linked hh (nxt m') (c_partial c) (map fst (fst a))" "linked hh (nxt m') (c_full c) (snd a)"
    using r n linked_cong [of hh "nxt m" _ _ "nxt m'"] by (auto simp: cache_rep_def pages_def)
  then show ?thesis using r k by (auto simp: cache_rep_def)
qed

lemma heap_write:
  assumes h: "heap_rep h cs F" and b: "block_ok h cs F b"
    and same: "\<forall>y. unat y \<notin> block_bytes (hhdm (h_mem h)) b \<longrightarrow> m y = ram (h_mem h) y"
  shows "heap_rep (h\<lparr>h_mem := h_mem h\<lparr>ram := m\<rparr>\<rparr>) cs F"
proof (cases b)
  case (Pair q l)
  let ?hh = "hhdm (h_mem h)" and ?B = "block_bytes (hhdm (h_mem h)) b"
  note w = block_where [OF h b [unfolded Pair], folded Pair]
  have fs: "free_space (h_mem h) F" "\<And>i. i < 9 \<Longrightarrow> page_bytes (cs ! i) \<inter> F = {}" using h by (auto simp: heap_rep_def owns_bytes)
  have "free_space (h_mem h\<lparr>ram := m\<rparr>) F" by (rule pmm_mem.set_mem_free [OF fs(1)]) (use w(1) same in auto)
  moreover have "cache_rep ?hh m (h_caches h ! i) (cs ! i)" if i: "i < 9" for i
  proof (cases "class_of l = Some i \<and> l_size l \<noteq> 0")
    case True
    have r: "cache_rep ?hh (ram (h_mem h)) (h_caches h ! i) (cs ! i)" "c_obj_size (h_caches h ! i) = SLAB_SIZES ! i"
      using h i find_class(2) by (auto simp: heap_rep_def)
    show ?thesis
      by (rule cache_rep_write [OF r(1)]) (use b same True r(2) Pair in \<open>auto simp: block_ok_def block_bytes_def\<close>)
  next
    case False
    then have "?B \<inter> page_bytes (cs ! i) = {}" using w(2) [OF i] Pair by (cases "l_size l = 0") (auto simp: block_bytes_def)
    then show ?thesis using same by (intro rep_outside [OF h i]) blast
  qed
  ultimately show ?thesis using fs(2) by (intro heap_rep_mem [OF h]) auto
qed

section \<open>Freeing\<close>

definition dealloc_post :: "heap \<Rightarrow> (u64 \<times> layout) set \<Rightarrow> heap \<Rightarrow> bool" where
  "dealloc_post h A h' \<longleftrightarrow> (\<exists>cs' F'. heap_rep h' cs' F' \<and> (\<forall>b\<in>A. block_ok h' cs' F' b) \<and> keeps_blocks h h' A)"

lemma dealloc_postI:
  assumes "heap_rep h' cs' F'" "\<And>b. b \<in> A \<Longrightarrow> block_ok h' cs' F' b" "keeps_blocks h h' A"
  shows "dealloc_post h A h'"
  unfolding dealloc_post_def using assms by (intro exI [of _ cs'] exI [of _ F']) simp

lemma dealloc_change:
  assumes h: "heap_rep h cs F" and i: "i < 9" and p: "cache_dealloc_post (h_mem h) F (h_caches h ! i) (cs ! i) x k' c' a' F'"
  shows "cache_change h cs F i k' c' a' F'"
proof -
  have "c_obj_size (h_caches h ! i) = SLAB_SIZES ! i" using h i find_class(2) by (auto simp: heap_rep_def)
  moreover have "page_bytes a' \<subseteq> page_bytes (cs ! i)" using p by (auto simp: cache_dealloc_post_def page_bytes_def)
  ultimately show ?thesis using p i by (auto simp: cache_change_def cache_dealloc_post_def)
qed

lemma heap_dealloc_small:
  assumes h: "heap_rep h cs F" and b: "block_ok h cs F (p, l)" and l: "class_of l = Some i" "l_size l \<noteq> 0"
    and A: "\<forall>d\<in>A. block_ok h cs F d \<and> block_bytes (hhdm (h_mem h)) d \<inter> block_bytes (hhdm (h_mem h)) (p, l) = {}"
  shows "\<exists>h'. heap_dealloc h p l = Some h' \<and> dealloc_post h A h'"
proof -
  let ?k = "h_mem h" and ?hh = "hhdm (h_mem h)" and ?c = "h_caches h ! i" and ?a = "cs ! i" and ?sz = "SLAB_SIZES ! i"
  have i: "i < 9" using class_of_bound [OF l(1)] by simp
  have sz: "map c_obj_size (h_caches h) = SLAB_SIZES" using h by (simp add: heap_rep_def)
  note fc = find_class [OF sz]
  have cr: "cache_rep ?hh (ram ?k) ?c ?a" "free_space ?k F" "owns ?k F ?a" "aligned 12 ?hh" using h i by (auto simp: heap_rep_def)
  have x: "p - ?hh \<in> live (c_obj_size ?c) ?a" "p \<noteq> 0" using b l fc(2) [OF i] by (auto simp: block_ok_def)
  obtain k' c' a' F' where cd: "cache_dealloc ?k ?c p = Some (k', c')" "cache_dealloc_post ?k F ?c ?a (p - ?hh) k' c' a' F'"
    using cache_dealloc_law [OF cr(1-3) x(1) cr(4)] by auto
  let ?h = "put_cache h i k' c'" and ?cs = "cs[i := a']"
  note ch = dealloc_change [OF h i cd(2)]
  note rep = heap_rep_update [OF h ch]
  have call: "heap_dealloc h p l = Some ?h"
    using l(2) x(2) cd(1) unfolding heap_dealloc_def fc(1) l(1) by (simp add: put_cache_def)
  have lv: "live ?sz a' = live ?sz ?a - {p - ?hh}" "\<forall>z\<in>live ?sz a'. \<forall>y. unat y \<in> span z (unat ?sz) \<longrightarrow> ram k' y = ram ?k y"
    using cd(2) fc(2) [OF i] by (auto simp: cache_dealloc_post_def)
  have in': "q - ?hh \<in> live ?sz a'" if d: "(q, m) \<in> A" "class_of m = Some i" "l_size m \<noteq> 0" for q m
  proof -
    have o: "q - ?hh \<in> live ?sz ?a" "span (q - ?hh) (unat ?sz) \<inter> span (p - ?hh) (unat ?sz) = {}"
      using A d l by (fastforce simp: block_ok_def block_bytes_def)+
    moreover have "unat (p - ?hh) \<in> span (p - ?hh) (unat ?sz)" using sizes(8) [OF slab_size_nth [OF i]] by simp
    ultimately show ?thesis unfolding lv(1) by auto
  qed
  have ok: "block_ok ?h ?cs F' d" if d: "d \<in> A" for d
  proof (cases d)
    case (Pair q m)
    have "block_ok h cs F (q, m)" "(q, m) \<in> A" using A d Pair by auto
    then show ?thesis unfolding Pair using in' by (intro block_ok_update [OF h ch])
  qed
  have "ram k' y = ram ?k y" if d: "d \<in> A" "unat y \<in> block_bytes ?hh d" for d and y :: u64
  proof (cases d)
    case (Pair q m)
    have o: "block_ok h cs F (q, m)" "(q, m) \<in> A" using A d Pair by auto
    have y: "unat y \<in> block_bytes ?hh (q, m)" "l_size m \<noteq> 0" using d(2) Pair by (auto simp: block_bytes_def split: if_splits)
    show ?thesis
    proof (cases "class_of m = Some i")
      case True
      then show ?thesis using lv(2) in' [OF o(2) True y(2)] y by (auto simp: block_bytes_def)
    next
      case False
      then show ?thesis using block_where(1) [OF h o(1)] block_where(2) [OF h o(1) i False] y(1) ch
        by (auto simp: cache_change_def)
    qed
  qed
  then have "keeps_blocks h ?h A" using ch by (simp add: keeps_blocks_def put_cache_def cache_change_def)
  then show ?thesis using call dealloc_postI [OF rep ok] by blast
qed

lemma heap_dealloc_large:
  assumes h: "heap_rep h cs F" and b: "block_ok h cs F (p, l)" and l: "class_of l = None" "l_size l \<noteq> 0"
    and A: "\<forall>d\<in>A. block_ok h cs F d \<and> block_bytes (hhdm (h_mem h)) d \<inter> block_bytes (hhdm (h_mem h)) (p, l) = {}"
  shows "\<exists>h'. heap_dealloc h p l = Some h' \<and> dealloc_post h A h'"
proof -
  let ?k = "h_mem h" and ?hh = "hhdm (h_mem h)" and ?o = "frames_order (l_size l)"
  let ?B = "bspan (?o, p - ?hh)"
  have sz: "map c_obj_size (h_caches h) = SLAB_SIZES" and fs: "free_space ?k F" using h by (simp_all add: heap_rep_def)
  have nb: "block_bytes ?hh (p, l) = ?B" using l by (simp add: block_bytes_def)
  have bg: "big ?k F ?o (p - ?hh)" "p \<noteq> 0" using b l by (simp_all add: block_ok_def)
  obtain k' where k': "free_frames ?k (p - ?hh) ?o = Some k'" "free_space k' (F \<union> ?B)" "hhdm k' = ?hh"
    "\<forall>y. unat y \<notin> F \<union> ?B \<longrightarrow> ram k' y = ram ?k y"
    using free_block_law [OF fs bg(1)] by blast
  let ?h = "h\<lparr>h_mem := k'\<rparr>"
  have call: "heap_dealloc h p l = Some ?h"
    using l bg(2) k'(1) unfolding heap_dealloc_def find_class(1) [OF sz] by (simp add: virt_to_phys_def)
  have pf: "page_bytes (cs ! i) \<inter> (F \<union> ?B) = {}" if "i < 9" for i
    using h that block_where(2) [OF h b that] l(1) unfolding nb by (auto simp: heap_rep_def owns_bytes)
  have rep: "heap_rep ?h cs (F \<union> ?B)"
  proof (rule heap_rep_mem [OF h k'(3,2)], intro allI impI conjI)
    fix i assume i: "i < (9::nat)"
    show "cache_rep ?hh (ram k') (h_caches h ! i) (cs ! i)" using pf [OF i] k'(4) by (intro rep_outside [OF h i]) blast
    show "page_bytes (cs ! i) \<inter> (F \<union> ?B) = {}" by (rule pf [OF i])
  qed
  have dis: "block_bytes ?hh d \<inter> (F \<union> ?B) = {}" if "d \<in> A" for d
    using A that block_where(1) [OF h, of "fst d" "snd d"] nb by auto
  have "block_ok ?h cs (F \<union> ?B) d" if "d \<in> A" for d using A that dis [OF that] k'(3) by (intro block_ok_mem) auto
  moreover have "keeps_blocks h ?h A" using dis k'(3,4) by (fastforce simp: keeps_blocks_def)
  ultimately show ?thesis using call dealloc_postI [OF rep] by blast
qed

section \<open>The invariant\<close>

text \<open>The bytes a client asked for, as physical addresses.\<close>

definition client_bytes :: "u64 \<Rightarrow> u64 \<times> layout \<Rightarrow> nat set" where
  "client_bytes hh b = span (fst b - hh) (unat (l_size (snd b)))"

lemma block_bytes_cover:
  assumes "layout_ok (l_size (snd b)) (l_align (snd b))"
  shows "client_bytes hh b \<subseteq> block_bytes hh b"
proof (cases b)
  case (Pair p l)
  have lo: "unat (l_size l) \<le> 2 ^ 63" using assms Pair by (auto simp: layout_ok_def)
  show ?thesis
  proof (cases "l_size l = 0")
    case True
    then show ?thesis unfolding Pair by (simp add: client_bytes_def block_bytes_def span_def)
  next
    case False
    then have "0 < unat (l_size l)" using unat_gt_0 by blast
    note c = frames_order_covers [OF this lo]
    have "unat (l_size l) \<le> unat (SLAB_SIZES ! i)" if "class_of l = Some i" for i
      using class_of_bound [OF that] by (simp flip: word_le_nat_alt)
    then show ?thesis unfolding Pair using False c
      by (auto simp: client_bytes_def block_bytes_def bspan_def split: option.split dest: span_mono)
  qed
qed

lemma class_of_None: "class_of l = None \<Longrightarrow> \<not> (l_size l \<le> 2048 \<and> l_align l \<le> 2048)"
proof
  assume c: "class_of l = None" and s: "l_size l \<le> 2048 \<and> l_align l \<le> 2048"
  then have "\<not> (\<exists>i. i \<in> set [0..<9] \<and> max (l_size l) (l_align l) \<le> SLAB_SIZES ! i)"
    by (simp add: class_of_def find_None_iff del: upt_rec_numeral)
  moreover have "8 \<in> set [0..<(9::nat)]" "max (l_size l) (l_align l) \<le> SLAB_SIZES ! 8" using s by (simp_all add: SLAB_SIZES_def)
  ultimately show False by blast
qed

lemma heap_inv_alloc:
  assumes s: "heap_inv h A" and l: "layout_ok (l_size l) (l_align l)"
  shows "\<exists>p h'. heap_alloc h l = Some (p, h') \<and> alloc_post h A l p h' \<and>
    (p = 0 \<and> l_size l \<le> 2048 \<and> l_align l \<le> 2048 \<longrightarrow> free_space (h_mem h) {})"
proof -
  obtain cs F where h: "heap_rep h cs F" "\<forall>b\<in>A. block_ok h cs F b" using s by (auto simp: heap_inv_def)
  have fs: "free_space (h_mem h) F" using h(1) by (simp add: heap_rep_def)
  consider "l_size l = 0" | i where "class_of l = Some i" "l_size l \<noteq> 0" | "class_of l = None" "l_size l \<noteq> 0"
    by (cases "class_of l") auto
  then show ?thesis
  proof cases
    case 1
    have "l_align l \<noteq> 0" using l by (auto simp: layout_ok_def)
    moreover have "alloc_post h A l (l_align l) h"
      using h(2) 1 \<open>l_align l \<noteq> 0\<close> by (intro alloc_postI [OF h(1)]) (simp_all add: keeps_blocks_def block_ok_def block_bytes_def)
    ultimately show ?thesis using 1 by (simp add: heap_alloc_def)
  next
    case 2
    then show ?thesis using heap_alloc_small [OF h 2] fs by auto
  next
    case 3
    then have "\<not> (l_size l \<le> 2048 \<and> l_align l \<le> 2048)"
      using class_of_None by blast
    then show ?thesis using heap_alloc_large [OF h 3] by auto
  qed
qed

lemma alloc_post_inv:
  assumes s: "heap_inv h A" and l: "layout_ok (l_size l) (l_align l)" and p: "alloc_post h A l p h'"
  shows "heap_inv h' (if p = 0 then A else insert (p, l) A)"
proof -
  have hh: "hhdm (h_mem h') = hhdm (h_mem h)" using p by (auto simp: alloc_post_def keeps_blocks_def)
  let ?B = "if p = 0 then A else insert (p, l) A" and ?hh = "hhdm (h_mem h)"
  obtain cs F where r: "heap_rep h' cs F" "\<forall>b\<in>?B. block_ok h' cs F b"
    "p \<noteq> 0 \<longrightarrow> (\<forall>b\<in>A. block_bytes ?hh (p, l) \<inter> block_bytes ?hh b = {})"
    using p unfolding alloc_post_def by (auto split: if_splits)
  have "\<forall>b\<in>?B. layout_ok (l_size (snd b)) (l_align (snd b))" using s l by (simp add: heap_inv_def)
  moreover have "\<forall>b\<in>?B. \<forall>d\<in>?B. b \<noteq> d \<longrightarrow> block_bytes ?hh b \<inter> block_bytes ?hh d = {}"
  proof (cases "p = 0")
    case False
    then have "\<forall>b\<in>A. block_bytes ?hh b \<inter> block_bytes ?hh (p, l) = {}" using r(3) by (simp add: Int_commute)
    then show ?thesis using s r(3) False by (simp add: heap_inv_def)
  qed (use s in \<open>simp add: heap_inv_def\<close>)
  ultimately show ?thesis using r(1,2) unfolding heap_inv_def hh by blast
qed

lemma heap_inv_dealloc:
  assumes s: "heap_inv h A" and b: "(p, l) \<in> A"
  shows "\<exists>h'. heap_dealloc h p l = Some h' \<and> dealloc_post h (A - {(p, l)}) h'"
proof -
  obtain cs F where h: "heap_rep h cs F" "\<forall>b\<in>A. block_ok h cs F b" using s by (auto simp: heap_inv_def)
  let ?A = "A - {(p, l)}"
  have o: "block_ok h cs F (p, l)" using h(2) b by blast
  have A: "\<forall>d\<in>?A. block_ok h cs F d \<and> block_bytes (hhdm (h_mem h)) d \<inter> block_bytes (hhdm (h_mem h)) (p, l) = {}"
    using h(2) s b by (auto simp: heap_inv_def)
  consider "l_size l = 0" | i where "class_of l = Some i" "l_size l \<noteq> 0" | "class_of l = None" "l_size l \<noteq> 0"
    by (cases "class_of l") auto
  then show ?thesis
  proof cases
    case 1
    have "dealloc_post h ?A h" using h(2) by (intro dealloc_postI [OF h(1)]) (simp_all add: keeps_blocks_def)
    then show ?thesis using 1 by (simp add: heap_dealloc_def)
  qed (use heap_dealloc_small [OF h(1) o _ _ A] heap_dealloc_large [OF h(1) o _ _ A] in blast)+
qed

lemma dealloc_post_inv:
  assumes s: "heap_inv h A" and A: "A' \<subseteq> A" and p: "dealloc_post h A' h'"
  shows "heap_inv h' A'"
proof -
  have hh: "hhdm (h_mem h') = hhdm (h_mem h)" using p by (auto simp: dealloc_post_def keeps_blocks_def)
  then show ?thesis using s A p unfolding heap_inv_def hh dealloc_post_def by blast
qed

lemma heap_inv_write:
  assumes s: "heap_inv h A" and b: "b \<in> A" and m: "\<forall>y. unat y \<notin> client_bytes (hhdm (h_mem h)) b \<longrightarrow> m y = ram (h_mem h) y"
  shows "heap_inv (h\<lparr>h_mem := h_mem h\<lparr>ram := m\<rparr>\<rparr>) A"
    "keeps_blocks h (h\<lparr>h_mem := h_mem h\<lparr>ram := m\<rparr>\<rparr>) (A - {b})"
proof -
  obtain cs F where h: "heap_rep h cs F" "\<forall>b\<in>A. block_ok h cs F b" using s by (auto simp: heap_inv_def)
  have sub: "client_bytes (hhdm (h_mem h)) b \<subseteq> block_bytes (hhdm (h_mem h)) b"
    using s b by (intro block_bytes_cover) (auto simp: heap_inv_def)
  let ?h = "h\<lparr>h_mem := h_mem h\<lparr>ram := m\<rparr>\<rparr>"
  have rep: "heap_rep ?h cs F" using sub m h(2) b by (intro heap_write [OF h(1), of b]) auto
  have "block_ok ?h cs F d" if "d \<in> A" for d
    using h(2) that block_where(1) [OF h(1), of "fst d" "snd d"] by (intro block_ok_mem) auto
  then have "\<exists>cs F. heap_rep ?h cs F \<and> (\<forall>d\<in>A. block_ok ?h cs F d)" using rep by blast
  then show "heap_inv ?h A" using s by (simp add: heap_inv_def)
  have "block_bytes (hhdm (h_mem h)) d \<inter> block_bytes (hhdm (h_mem h)) b = {}" if "d \<in> A - {b}" for d
    using s b that by (auto simp: heap_inv_def)
  then show "keeps_blocks h ?h (A - {b})" using m sub by (fastforce simp: keeps_blocks_def)
qed

section \<open>Realloc\<close>

lemma block_range:
  assumes s: "heap_inv h A" and b: "(p, l) \<in> A"
  shows "unat (p - hhdm (h_mem h)) + unat (l_size l) \<le> 2 ^ 64"
proof -
  obtain cs F where h: "heap_rep h cs F" "block_ok h cs F (p, l)" using s b by (auto simp: heap_inv_def)
  let ?x = "p - hhdm (h_mem h)"
  have lo: "layout_ok (l_size l) (l_align l)" using s b by (auto simp: heap_inv_def)
  show ?thesis
  proof (cases "l_size l = 0")
    case False
    show ?thesis
    proof (cases "class_of l")
      case None
      have "aligned (12 + frames_order (l_size l)) ?x" "frames_order (l_size l) \<le> 12" using h(2) None False by (auto simp: block_ok_def big_def)
      moreover have "unat (l_size l) \<le> 2 ^ (12 + frames_order (l_size l))"
        using lo False by (intro frames_order_covers) (auto simp: layout_ok_def unat_gt_0)
      ultimately show ?thesis using aligned_bound [of "12 + frames_order (l_size l)" ?x] by simp
    next
      case (Some i)
      have i: "i < 9" "l_size l \<le> SLAB_SIZES ! i" using class_of_bound [OF Some] by auto
      have r: "cache_rep (hhdm (h_mem h)) (ram (h_mem h)) (h_caches h ! i) (cs ! i)" using h i by (simp add: heap_rep_def)
      obtain q fl where q: "(q, fl) \<in> set (slabs (cs ! i))" "?x \<in> objs (SLAB_SIZES ! i) q"
        using h(2) Some False by (auto simp: block_ok_def live_def)
      then have al: "aligned 12 q" using r pages_slabs [of "cs ! i"] by (force simp: cache_rep_def)
      have "unat ?x + unat (SLAB_SIZES ! i) \<le> 2 ^ 64"
        using obj_range(2) [OF slab_size_nth [OF i(1)] al q(2)] aligned_bound [OF al] by simp
      then show ?thesis using i(2) by (simp add: word_le_nat_alt)
    qed
  qed (use less_imp_le [OF unat_less_2p64 [of ?x]] in simp)
qed

lemma block_bytes_nonempty:
  assumes "l_size l \<noteq> 0"
  shows "block_bytes hh (p, l) \<noteq> {}"
proof (cases "class_of l")
  case (Some i)
  then show ?thesis using assms sizes(8) [OF slab_size_nth [of i]] class_of_bound [OF Some] by (simp add: block_bytes_def span_def)
qed (use assms in \<open>simp add: block_bytes_def\<close>)

lemma keeps_load:
  assumes s: "heap_inv h A" and b: "(p, l) \<in> A" and k: "keeps_blocks h h' A" and n: "n \<le> unat (l_size l)"
  shows "load_bytes (ram (h_mem h')) (p - hhdm (h_mem h)) n = load_bytes (ram (h_mem h)) (p - hhdm (h_mem h)) n"
proof (rule load_bytes_cong)
  have "client_bytes (hhdm (h_mem h)) (p, l) \<subseteq> block_bytes (hhdm (h_mem h)) (p, l)"
    using s b by (intro block_bytes_cover) (auto simp: heap_inv_def)
  then show "\<forall>y. unat y \<in> span (p - hhdm (h_mem h)) n \<longrightarrow> ram (h_mem h') y = ram (h_mem h) y"
    using k b span_mono [OF n] by (fastforce simp: keeps_blocks_def client_bytes_def)
qed (use block_range [OF s b] n in simp)

lemma keeps_trans: "keeps_blocks h h1 A \<Longrightarrow> keeps_blocks h1 h2 A \<Longrightarrow> keeps_blocks h h2 A"
  by (simp add: keeps_blocks_def)

lemma keeps_subset: "keeps_blocks h h' A \<Longrightarrow> B \<subseteq> A \<Longrightarrow> keeps_blocks h h' B"
  by (auto simp: keeps_blocks_def)

lemma heap_inv_subset:
  assumes s: "heap_inv h A" and B: "B \<subseteq> A"
  shows "heap_inv h B"
proof -
  obtain cs F where h: "heap_rep h cs F" "\<forall>b\<in>A. block_ok h cs F b" using s by (auto simp: heap_inv_def)
  have "dealloc_post h B h" using h(2) B by (intro dealloc_postI [OF h(1)]) (auto simp: keeps_blocks_def)
  then show ?thesis by (rule dealloc_post_inv [OF s B])
qed

lemma heap_realloc_law:
  assumes s: "heap_inv h A" and b: "(p, l) \<in> A" and n: "layout_ok n (l_align l)" "n \<noteq> 0"
  shows "\<exists>q h'. heap_realloc h p l n = Some (q, h') \<and>
    heap_inv h' (if q = 0 then A else insert (q, l\<lparr>l_size := n\<rparr>) (A - {(p, l)})) \<and>
    keeps_blocks h h' (if q = 0 then A else A - {(p, l)}) \<and>
    (q \<noteq> 0 \<longrightarrow> load_bytes (ram (h_mem h')) (q - hhdm (h_mem h)) (unat (min (l_size l) n)) =
       load_bytes (ram (h_mem h)) (p - hhdm (h_mem h)) (unat (min (l_size l) n)))"
proof -
  let ?l = "l\<lparr>l_size := n\<rparr>" and ?hh = "hhdm (h_mem h)" and ?c = "unat (min (l_size l) n)"
  have eql: "\<lparr>l_size = n, l_align = l_align l\<rparr> = ?l" by simp
  obtain q h1 where a: "heap_alloc h ?l = Some (q, h1)" "alloc_post h A ?l q h1"
    using heap_inv_alloc [OF s, of ?l] n by auto
  have i1: "heap_inv h1 (if q = 0 then A else insert (q, ?l) A)" using alloc_post_inv [OF s _ a(2)] n by simp
  have k1: "keeps_blocks h h1 A" using a(2) by (auto simp: alloc_post_def)
  show ?thesis
  proof (cases "q = 0")
    case True
    then show ?thesis using a(1) i1 k1 n unfolding heap_realloc_def eql by simp
  next
    case False
    let ?A = "insert (q, ?l) A"
    have i1: "heap_inv h1 ?A" and hh: "hhdm (h_mem h1) = ?hh" using i1 k1 False by (simp_all add: keeps_blocks_def)
    define bs where "bs = load_bytes (ram (h_mem h1)) (p - ?hh) ?c"
    define m where "m = store_bytes (ram (h_mem h1)) (q - ?hh) bs"
    let ?h2 = "h1\<lparr>h_mem := h_mem h1\<lparr>ram := m\<rparr>\<rparr>"
    have c: "?c \<le> unat (l_size l)" "?c \<le> unat n" "length bs = ?c"
      by (simp_all add: bs_def load_bytes_def word_le_nat_alt [symmetric])
    have q: "unat (q - ?hh) + unat n \<le> 2 ^ 64" using block_range [OF i1, of q ?l] hh by simp
    have m: "m y = ram (h_mem h1) y" if "unat y \<notin> client_bytes ?hh (q, ?l)" for y
      unfolding m_def using that q c span_mono [of ?c "unat n" "q - ?hh"] by (intro store_bytes_other) (auto simp: client_bytes_def)
    note i2 = heap_inv_write [OF i1, of "(q, ?l)" m, unfolded hh]
    have i2: "heap_inv ?h2 ?A" "keeps_blocks h1 ?h2 (?A - {(q, ?l)})" using i2 m by auto
    obtain h3 where d: "heap_dealloc ?h2 p l = Some h3" "dealloc_post ?h2 (?A - {(p, l)}) h3"
      using heap_inv_dealloc [OF i2(1), of p l] b by auto
    have i3: "heap_inv h3 (?A - {(p, l)})" using dealloc_post_inv [OF i2(1) _ d(2)] by auto
    have k3: "keeps_blocks ?h2 h3 (?A - {(p, l)})" using d(2) by (auto simp: dealloc_post_def)
    have call: "heap_realloc h p l n = Some (q, h3)"
      using n a(1) False d(1) hh unfolding heap_realloc_def eql by (simp add: Let_def virt_to_phys_def m_def bs_def)
    have "block_bytes ?hh (q, ?l) \<inter> block_bytes ?hh (p, l) = {}" using a(2) b False by (auto simp: alloc_post_def)
    then have ne: "(q, ?l) \<noteq> (p, l)" using block_bytes_nonempty [of ?l ?hh q] n(2) by auto
    have A: "?A - {(p, l)} = insert (q, ?l) (A - {(p, l)})" using ne by auto
    have "\<forall>d\<in>A. block_bytes ?hh (q, ?l) \<inter> block_bytes ?hh d = {}" using a(2) False by (auto simp: alloc_post_def)
    then have "(q, ?l) \<notin> A" using block_bytes_nonempty [of ?l ?hh q] n(2) by auto
    then have k2: "keeps_blocks h1 ?h2 A" using i2(2) by simp
    have "keeps_blocks h h3 (A - {(p, l)})"
      by (intro keeps_trans [OF keeps_trans [OF keeps_subset [OF k1] keeps_subset [OF k2]] keeps_subset [OF k3]]) auto
    moreover have "load_bytes (ram (h_mem h3)) (q - ?hh) ?c = bs"
    proof -
      have "load_bytes (ram (h_mem h3)) (q - ?hh) ?c = load_bytes m (q - ?hh) ?c"
        using keeps_load [of ?h2 "?A - {(p, l)}" q ?l h3 ?c, OF heap_inv_subset [OF i2(1)] _ k3] c(2) ne hh by auto
      also have "\<dots> = bs" unfolding m_def c(3) [symmetric] by (rule load_store_bytes) (use c n in \<open>auto simp: layout_ok_def\<close>)
      finally show ?thesis .
    qed
    moreover have "bs = load_bytes (ram (h_mem h)) (p - ?hh) ?c"
      unfolding bs_def by (rule keeps_load [OF s b k1 c(1)])
    ultimately show ?thesis using call i3 False unfolding A by simp
  qed
qed

section \<open>Alignment\<close>

lemma dvd_unat_add:
  assumes "2 ^ n dvd unat a" "2 ^ n dvd unat (b :: u64)" "n \<le> 64"
  shows "2 ^ n dvd unat (a + b)"
proof -
  have "(2 :: nat) ^ n dvd 2 ^ 64" using assms(3) by (rule le_imp_power_dvd)
  then show ?thesis unfolding unat_word_ariths using assms(1,2) by (simp add: dvd_mod)
qed

lemma slab_size_power: "i < 9 \<Longrightarrow> unat (SLAB_SIZES ! i) = 2 ^ (i + 3)"
proof -
  assume "i < 9"
  then have "i \<in> {0, 1, 2, 3, 4, 5, 6, 7, 8}" by auto
  then show ?thesis by (auto simp: SLAB_SIZES_def)
qed

lemma block_aligned:
  assumes h: "heap_rep h cs F" and b: "block_ok h cs F (p, l)" and l: "layout_ok (l_size l) (l_align l)" "l_align l \<le> 4096" "l_size l \<noteq> 0"
  shows "unat (l_align l) dvd unat p"
proof -
  obtain n where n: "n < 64" "unat (l_align l) = 2 ^ n"
    using l(1) unat_push_bit_1 by (auto simp: layout_ok_def)
  let ?x = "p - hhdm (h_mem h)"
  have "(2 :: nat) ^ n \<le> 2 ^ 12" using l(2) n(2) by (simp add: word_le_nat_alt)
  then have n12: "n \<le> 12" using power_le_imp_le_exp [of "2::nat" n 12] by linarith
  have hh: "2 ^ n dvd unat (hhdm (h_mem h))"
    using h aligned_mono [OF _ n12] by (auto simp: heap_rep_def aligned_def)
  have "2 ^ n dvd unat ?x"
  proof (cases "class_of l")
    case None
    then have "aligned (12 + frames_order (l_size l)) ?x" using b l(3) by (simp add: block_ok_def big_def)
    from aligned_mono [OF this, of n] n12 show ?thesis by (simp add: aligned_def)
  next
    case (Some i)
    have i: "i < 9" "l_align l \<le> SLAB_SIZES ! i" using class_of_bound [OF Some] by auto
    have r: "cache_rep (hhdm (h_mem h)) (ram (h_mem h)) (h_caches h ! i) (cs ! i)" using h i by (simp add: heap_rep_def)
    obtain q fl where q: "(q, fl) \<in> set (slabs (cs ! i))" "?x \<in> objs (SLAB_SIZES ! i) q"
      using b Some l(3) by (auto simp: block_ok_def live_def)
    then have al: "aligned 12 q" using r pages_slabs [of "cs ! i"] by (force simp: cache_rep_def)
    have "(2 :: nat) ^ n \<le> 2 ^ (i + 3)" using i(2) unfolding word_le_nat_alt n(2) slab_size_power [OF i(1)] .
    then have "n \<le> i + 3" using power_le_imp_le_exp [of "2::nat" n "i + 3"] by linarith
    then have "(2 :: nat) ^ n dvd 2 ^ (i + 3)" by (rule le_imp_power_dvd)
    also have "2 ^ (i + 3) dvd unat ?x" using obj_range(3) [OF slab_size_nth [OF i(1)] al q(2)] slab_size_power [OF i(1)] by simp
    finally show ?thesis .
  qed
  from dvd_unat_add [OF this hh] n(1) show ?thesis unfolding n(2) by simp
qed

section \<open>The heap at run time\<close>

text \<open>
  The state is the heap and the set of blocks the clients hold. A client allocates, frees or reallocates
  one of its blocks, or writes inside one; the last touches no byte outside what the client asked for.
\<close>

definition heap_start :: "heap \<times> (u64 \<times> layout) set \<Rightarrow> bool" where
  "heap_start s \<longleftrightarrow> snd s = {} \<and> h_caches (fst s) = kernel_allocator_new \<and> aligned 12 (hhdm (h_mem (fst s))) \<and>
     (\<exists>F. free_space (h_mem (fst s)) F)"

inductive heap_step :: "heap \<times> (u64 \<times> layout) set \<Rightarrow> heap \<times> (u64 \<times> layout) set \<Rightarrow> bool" where
  step_alloc: "layout_ok (l_size l) (l_align l) \<Longrightarrow> heap_alloc h l = Some (p, h') \<Longrightarrow>
    heap_step (h, A) (h', if p = 0 then A else insert (p, l) A)"
| step_dealloc: "(p, l) \<in> A \<Longrightarrow> heap_dealloc h p l = Some h' \<Longrightarrow> heap_step (h, A) (h', A - {(p, l)})"
| step_realloc: "(p, l) \<in> A \<Longrightarrow> layout_ok n (l_align l) \<Longrightarrow> n \<noteq> 0 \<Longrightarrow> heap_realloc h p l n = Some (q, h') \<Longrightarrow>
    heap_step (h, A) (h', if q = 0 then A else insert (q, l\<lparr>l_size := n\<rparr>) (A - {(p, l)}))"
| step_write: "b \<in> A \<Longrightarrow> \<forall>y. unat y \<notin> client_bytes (hhdm (h_mem h)) b \<longrightarrow> m y = ram (h_mem h) y \<Longrightarrow>
    heap_step (h, A) (h\<lparr>h_mem := h_mem h\<lparr>ram := m\<rparr>\<rparr>, A)"

lemma heap_rep_start:
  assumes F: "free_space (h_mem h) F" "h_caches h = kernel_allocator_new" "aligned 12 (hhdm (h_mem h))"
  shows "heap_rep h (replicate 9 ([], [])) F"
proof -
  let ?cs = "replicate 9 ([], []) :: acache list"
  have len: "length SLAB_SIZES = 9" by (simp add: SLAB_SIZES_def)
  have "cache_rep (hhdm (h_mem h)) (ram (h_mem h)) (h_caches h ! i) (?cs ! i) \<and> owns (h_mem h) F (?cs ! i)" if "i < 9" for i
    using that F(2) len slab_size_nth [OF that]
    by (simp add: kernel_allocator_new_def cache_new_def cache_rep_def owns_def pages_def slabs_def)
  moreover have "map c_obj_size (h_caches h) = SLAB_SIZES"
    unfolding F(2) by (simp add: kernel_allocator_new_def cache_new_def comp_def)
  ultimately show ?thesis using F by (simp add: heap_rep_def pages_def)
qed

lemma heap_start_inv:
  assumes "heap_start (h, A)"
  shows "heap_inv h A"
  using assms heap_rep_start [of h] by (auto simp: heap_start_def heap_inv_def)

lemma heap_step_inv:
  assumes "heap_step s t" "heap_inv (fst s) (snd s)"
  shows "heap_inv (fst t) (snd t)"
  using assms
proof cases
  case (step_alloc l h p h' A)
  then have "alloc_post h A l p h'" using heap_inv_alloc [of h A l] assms(2) by auto
  then show ?thesis using alloc_post_inv step_alloc assms(2) by auto
next
  case (step_dealloc p l A h h')
  then have "dealloc_post h (A - {(p, l)}) h'" using heap_inv_dealloc [of h A p l] assms(2) by auto
  then show ?thesis using dealloc_post_inv [of h A "A - {(p, l)}" h'] step_dealloc assms(2) by auto
next
  case (step_realloc p l A n h q h')
  then show ?thesis using heap_realloc_law [of h A p l n] assms(2) by auto
next
  case (step_write b A h m)
  then show ?thesis using heap_inv_write(1) [of h A b m] assms(2) by auto
qed

interpretation heap_machine: transition_invariant heap_start heap_step "\<lambda>s. heap_inv (fst s) (snd s)"
  by unfold_locales (auto intro: heap_start_inv heap_step_inv)

lemma keeps_client:
  assumes "heap_inv h A" "b \<in> A" "keeps_blocks h h' A" "unat y \<in> client_bytes (hhdm (h_mem h)) b"
  shows "ram (h_mem h') y = ram (h_mem h) y"
proof -
  have "client_bytes (hhdm (h_mem h)) b \<subseteq> block_bytes (hhdm (h_mem h)) b"
    using assms(1,2) by (intro block_bytes_cover) (auto simp: heap_inv_def)
  then show ?thesis using assms by (auto simp: keeps_blocks_def)
qed

text \<open>C4: in every reachable state, \<open>alloc\<close> returns; a non-null result is aligned as asked (up to a page),
  overlaps no block a client holds, and no byte of a held block changes. A request a slab can serve gets the null
  pointer only when no frame is free.\<close>
theorem heap_alloc_correct:
  assumes "reach heap_start heap_step (h, A)" "layout_ok (l_size l) (l_align l)"
  shows "\<exists>p h'. heap_alloc h l = Some (p, h') \<and>
    (p = 0 \<and> l_size l \<le> 2048 \<and> l_align l \<le> 2048 \<longrightarrow> free_space (h_mem h) {}) \<and>
    (p \<noteq> 0 \<and> l_align l \<le> 4096 \<longrightarrow> unat (l_align l) dvd unat p) \<and>
    (p \<noteq> 0 \<longrightarrow> (\<forall>b\<in>A. client_bytes (hhdm (h_mem h)) (p, l) \<inter> client_bytes (hhdm (h_mem h)) b = {})) \<and>
    (\<forall>b\<in>A. \<forall>y. unat y \<in> client_bytes (hhdm (h_mem h)) b \<longrightarrow> ram (h_mem h') y = ram (h_mem h) y)"
proof -
  have s: "heap_inv h A" using heap_machine.reach_inv [OF assms(1)] by simp
  obtain p h' where a: "heap_alloc h l = Some (p, h')" "alloc_post h A l p h'"
    "p = 0 \<and> l_size l \<le> 2048 \<and> l_align l \<le> 2048 \<longrightarrow> free_space (h_mem h) {}"
    using heap_inv_alloc [OF s assms(2)] by blast
  have k: "keeps_blocks h h' A" using a(2) by (auto simp: alloc_post_def)
  have "client_bytes (hhdm (h_mem h)) (p, l) \<inter> client_bytes (hhdm (h_mem h)) b = {}" if b: "b \<in> A" "p \<noteq> 0" for b
  proof -
    have "client_bytes (hhdm (h_mem h)) b \<subseteq> block_bytes (hhdm (h_mem h)) b"
      using s b by (intro block_bytes_cover) (auto simp: heap_inv_def)
    moreover have "block_bytes (hhdm (h_mem h)) (p, l) \<inter> block_bytes (hhdm (h_mem h)) b = {}" using a(2) b by (auto simp: alloc_post_def)
    ultimately show ?thesis using block_bytes_cover [of "(p, l)" "hhdm (h_mem h)"] assms(2) by auto
  qed
  moreover have "unat (l_align l) dvd unat p" if "p \<noteq> 0" "l_align l \<le> 4096"
  proof (cases "l_size l = 0")
    case False
    then show ?thesis using a(2) that assms(2) block_aligned by (auto simp: alloc_post_def)
  qed (use a(1) in \<open>auto simp: heap_alloc_def\<close>)
  moreover have "ram (h_mem h') y = ram (h_mem h) y" if "b \<in> A" "unat y \<in> client_bytes (hhdm (h_mem h)) b" for b and y :: u64
    using keeps_client [OF s that(1) k that(2)] .
  ultimately show ?thesis using a(1,3) by blast
qed

text \<open>C13: in every reachable state, freeing a held block returns, the heap stays well formed for the blocks that
  remain, and none of their bytes changes, even when the slab's page or the block's frames go back to the buddy
  allocator.\<close>
theorem heap_dealloc_correct:
  assumes "reach heap_start heap_step (h, A)" "(p, l) \<in> A"
  shows "\<exists>h'. heap_dealloc h p l = Some h' \<and> heap_inv h' (A - {(p, l)}) \<and>
    (\<forall>b\<in>A - {(p, l)}. \<forall>y. unat y \<in> client_bytes (hhdm (h_mem h)) b \<longrightarrow> ram (h_mem h') y = ram (h_mem h) y)"
proof -
  have s: "heap_inv h A" using heap_machine.reach_inv [OF assms(1)] by simp
  obtain h' where d: "heap_dealloc h p l = Some h'" "dealloc_post h (A - {(p, l)}) h'" using heap_inv_dealloc [OF s assms(2)] by blast
  have "heap_inv h' (A - {(p, l)})" by (rule dealloc_post_inv [OF s _ d(2)]) blast
  moreover have "ram (h_mem h') y = ram (h_mem h) y"
    if b: "b \<in> A - {(p, l)}" "unat y \<in> client_bytes (hhdm (h_mem h)) b" for b and y :: u64
    using keeps_client [OF heap_inv_subset [OF s] b(1) _ b(2), of h'] d(2) by (auto simp: dealloc_post_def)
  ultimately show ?thesis using d(1) by blast
qed

text \<open>C40: in every reachable state, \<open>realloc\<close> of a held block returns; a non-null result holds the old contents up
  to the smaller of the two sizes, and all other blocks keep theirs. When it returns null the old block is untouched.\<close>
theorem heap_realloc_correct:
  assumes "reach heap_start heap_step (h, A)" "(p, l) \<in> A" "layout_ok n (l_align l)" "n \<noteq> 0"
  shows "\<exists>q h'. heap_realloc h p l n = Some (q, h') \<and>
    (q \<noteq> 0 \<longrightarrow> load_bytes (ram (h_mem h')) (q - hhdm (h_mem h)) (unat (min (l_size l) n)) =
       load_bytes (ram (h_mem h)) (p - hhdm (h_mem h)) (unat (min (l_size l) n))) \<and>
    (\<forall>b\<in>A. q = 0 \<or> b \<noteq> (p, l) \<longrightarrow> (\<forall>y. unat y \<in> client_bytes (hhdm (h_mem h)) b \<longrightarrow> ram (h_mem h') y = ram (h_mem h) y))"
proof -
  have s: "heap_inv h A" using heap_machine.reach_inv [OF assms(1)] by simp
  obtain q h' where r: "heap_realloc h p l n = Some (q, h')" "keeps_blocks h h' (if q = 0 then A else A - {(p, l)})"
    "q \<noteq> 0 \<longrightarrow> load_bytes (ram (h_mem h')) (q - hhdm (h_mem h)) (unat (min (l_size l) n)) =
       load_bytes (ram (h_mem h)) (p - hhdm (h_mem h)) (unat (min (l_size l) n))"
    using heap_realloc_law [OF s assms(2-4)] by blast
  have "ram (h_mem h') y = ram (h_mem h) y"
    if b: "b \<in> A" "q = 0 \<or> b \<noteq> (p, l)" "unat y \<in> client_bytes (hhdm (h_mem h)) b" for b and y :: u64
    using b by (intro keeps_client [OF heap_inv_subset [OF s] _ r(2) b(3)]) auto
  then show ?thesis using r by blast
qed

section \<open>An example\<close>

definition example_heap :: heap where
  "example_heap = \<lparr>h_mem = example_mem, h_caches = kernel_allocator_new\<rparr>"

definition example_layout :: layout where
  "example_layout = \<lparr>l_size = 24, l_align = 8\<rparr>"

lemma example_free: "free_space (h_mem example_heap) {0x200000..<0x202000}"
  using example_inv example_space by (auto simp: free_space_def example_heap_def)

lemma example_heap_start: "heap_start (example_heap, {})"
  using example_free by (auto simp: heap_start_def example_heap_def example_mem_def aligned_def)

lemma example_layout_ok: "n \<le> 4096 \<Longrightarrow> layout_ok n 8"
  unfolding layout_ok_def by (auto simp: word_le_nat_alt intro!: exI [of _ 3])

lemma example_block:
  obtains p h where "heap_alloc example_heap example_layout = Some (p, h)" "p \<noteq> 0" "hhdm (h_mem h) = 0xFFFF800000000000"
    "reach heap_start heap_step (h, {(p, example_layout)})"
proof -
  have r: "heap_rep example_heap (replicate 9 ([], [])) {0x200000..<0x202000}"
    by (rule heap_rep_start [OF example_free]) (simp_all add: example_heap_def example_mem_def aligned_def)
  have c: "class_of example_layout = Some 2" "l_size example_layout \<noteq> 0" by code_simp+
  obtain p h where a: "heap_alloc example_heap example_layout = Some (p, h)" "alloc_post example_heap {} example_layout p h" "p \<noteq> 0"
    using heap_alloc_small [OF r _ c, of "{}"] by auto
  have "layout_ok (l_size example_layout) (l_align example_layout)" using example_layout_ok [of 24] by (simp add: example_layout_def)
  then have "heap_step (example_heap, {}) (h, {(p, example_layout)})" using step_alloc [OF _ a(1), of "{}"] a(3) by simp
  then have "reach heap_start heap_step (h, {(p, example_layout)})"
    using example_heap_start by (blast intro: reach.intros)
  moreover have "hhdm (h_mem h) = 0xFFFF800000000000"
    using a(2) by (auto simp: alloc_post_def keeps_blocks_def example_heap_def example_mem_def)
  ultimately show ?thesis using that a by blast
qed

theorem heap_alloc_correct_witness:
  "\<exists>p h q h'. heap_alloc example_heap example_layout = Some (p, h) \<and> p \<noteq> 0 \<and>
     heap_alloc h \<lparr>l_size = 100, l_align = 8\<rparr> = Some (q, h') \<and>
     (q = 0 \<or> 8 dvd unat q \<and> client_bytes 0xFFFF800000000000 (q, \<lparr>l_size = 100, l_align = 8\<rparr>) \<inter>
       client_bytes 0xFFFF800000000000 (p, example_layout) = {})"
proof -
  obtain p h where a: "heap_alloc example_heap example_layout = Some (p, h)" "p \<noteq> 0" "hhdm (h_mem h) = 0xFFFF800000000000"
    "reach heap_start heap_step (h, {(p, example_layout)})" by (rule example_block)
  have "layout_ok 100 8" by (rule example_layout_ok) simp
  then show ?thesis using a(1-3) heap_alloc_correct [OF a(4), of "\<lparr>l_size = 100, l_align = 8\<rparr>"] by auto
qed

theorem heap_dealloc_correct_witness:
  "\<exists>p h h'. heap_alloc example_heap example_layout = Some (p, h) \<and> p \<noteq> 0 \<and>
     heap_dealloc h p example_layout = Some h' \<and> heap_inv h' {}"
proof -
  obtain p h where a: "heap_alloc example_heap example_layout = Some (p, h)" "p \<noteq> 0" "hhdm (h_mem h) = 0xFFFF800000000000"
    "reach heap_start heap_step (h, {(p, example_layout)})" by (rule example_block)
  then show ?thesis using heap_dealloc_correct [OF a(4), of p example_layout] by auto
qed

theorem heap_realloc_correct_witness:
  "\<exists>p h q h'. heap_alloc example_heap example_layout = Some (p, h) \<and> p \<noteq> 0 \<and>
     heap_realloc h p example_layout 100 = Some (q, h') \<and>
     (q = 0 \<or> load_bytes (ram (h_mem h')) (q - 0xFFFF800000000000) 24 = load_bytes (ram (h_mem h)) (p - 0xFFFF800000000000) 24)"
proof -
  obtain p h where a: "heap_alloc example_heap example_layout = Some (p, h)" "p \<noteq> 0" "hhdm (h_mem h) = 0xFFFF800000000000"
    "reach heap_start heap_step (h, {(p, example_layout)})" by (rule example_block)
  have n: "layout_ok 100 (l_align example_layout)" using example_layout_ok [of 100] by (simp add: example_layout_def)
  have "unat (min (l_size example_layout) 100) = 24" by (simp add: example_layout_def min_def)
  then show ?thesis using a(1-3) heap_realloc_correct [OF a(4) _ n] by auto
qed

end
