(* ===== verification/Umem.thy ===== *)
theory Umem
  imports Paging
begin

text \<open>
  The memory a user process sees through its page tables, as a function from addresses to bytes, and what
  mapping a fresh page and writing through the translation do to it. The program loader and the construction
  of the initial stack rest on it.
\<close>

unbundle bit_operations_syntax

section \<open>Pages\<close>

lemma unat_idx: "unat (drop_bit k v AND 0x1FF :: u64) = unat v div 2 ^ k mod 512"
proof -
  have "drop_bit k v AND 0x1FF = take_bit 9 (drop_bit k v)" by (simp add: take_bit_eq_mask mask_eq_exp_minus_1)
  then have "unat (drop_bit k v AND 0x1FF :: u64) = take_bit 9 (drop_bit k (unat v))"
    by (simp only: unsigned_take_bit_eq unat_drop_bit_eq)
  then show ?thesis by (simp only: take_bit_eq_mod drop_bit_eq_div) simp
qed

lemma page_number:
  assumes "unat v < 2 ^ 48"
  shows "unat v div 4096 = pt_idx v + 512 * (pd_idx v + 512 * (pdpt_idx v + 512 * pml4_idx v))"
proof -
  let ?u = "unat v div 4096"
  have d: "unat v div 2 ^ 21 = ?u div 512" "unat v div 2 ^ 30 = ?u div 512 div 512" "unat v div 2 ^ 39 = ?u div 512 div 512 div 512"
    by (simp_all flip: div_mult2_eq)
  have "?u div 512 div 512 div 512 < 512" using assms by (simp flip: div_mult2_eq)
  then show ?thesis
    unfolding pt_idx_def pd_idx_def pdpt_idx_def pml4_idx_def unat_idx d by simp
qed

lemma same_page_low:
  assumes "unat v < 2 ^ 48" "unat w < 2 ^ 48"
  shows "same_page v w \<longleftrightarrow> unat v div 4096 = unat w div 4096"
proof
  assume "same_page v w"
  then show "unat v div 4096 = unat w div 4096"
    unfolding page_number [OF assms(1)] page_number [OF assms(2)] by (simp add: same_page_def pd_path_def)
next
  let ?u = "\<lambda>v :: u64. unat v div 4096"
  assume eq: "?u v = ?u w"
  have "unat x div 2 ^ 12 mod 512 = ?u x mod 512" "unat x div 2 ^ 21 = ?u x div 512" "unat x div 2 ^ 30 = ?u x div 512 div 512"
    "unat x div 2 ^ 39 = ?u x div 512 div 512 div 512" for x :: u64
    by (simp_all flip: div_mult2_eq)
  then show "same_page v w" using eq
    by (simp add: same_page_def pd_path_def pt_idx_def pd_idx_def pdpt_idx_def pml4_idx_def unat_idx)
qed

lemma user_low:
  assumes "unat v < 2 ^ 47"
  shows "user_addr v"
proof -
  have "unat v div 2 ^ 39 < 256" using assms by simp
  then show ?thesis by (simp add: user_addr_def pml4_idx_def unat_idx)
qed

text \<open>Inside a page without a large mapping, translation keeps the offset.\<close>

lemma lookup_page:
  assumes "no_large m root v" "lookup m root v = Some p"
  shows "\<exists>q. aligned 12 q \<and> (\<forall>w. same_page w v \<longrightarrow> lookup m root w = Some (q OR (w AND 0xFFF)))"
proof -
  obtain pd pt where t: "tbl m root (pd_path v) = Some pd" "pte m pd (pd_idx v) AND PTE_LARGE = 0"
    "tbl m root (pd_idx v # pd_path v) = Some pt" "leaf m pt v = Some p"
    using assms by (auto simp: lookup_def no_large_def simp del: tbl.simps split: option.splits if_splits)
  have "lookup m root w = Some ((pte m pt (pt_idx v) AND PTE_ADDR_MASK) OR (w AND 0xFFF))" if "same_page w v" for w
    using t that by (auto simp: lookup_def same_page_def leaf_def simp del: tbl.simps split: if_splits)
  then show ?thesis using aligned_mask by blast
qed

lemma page_offset_add:
  assumes "aligned 12 q"
  shows "unat (q OR (w AND 0xFFF)) = unat q + unat w mod 4096"
proof -
  have w: "w AND 0xFFF = take_bit 12 w" by (simp add: take_bit_eq_mask mask_eq_exp_minus_1)
  have "q AND take_bit 12 w = 0"
    using assms by (intro bit_word_eqI) (auto simp: bit_simps aligned_bit)
  then have "q OR take_bit 12 w = q + take_bit 12 w" by (simp add: disjunctive_add_eq_or)
  moreover have "unat (take_bit 12 w) = unat w mod 4096" by (simp add: unsigned_take_bit_eq take_bit_nat_def)
  moreover have "unat q + unat w mod 4096 < 2 ^ 64" using aligned_bound [OF assms] mod_less_divisor [of 4096 "unat w"] by simp
  ultimately show ?thesis unfolding w by (simp add: unat_word_ariths)
qed

section \<open>The memory of a user process\<close>

text \<open>
  \<open>user_img m0 B hh s root F g\<close>: the tables at \<open>root\<close> give the user half the contents \<open>g\<close> (\<open>None\<close> where
  nothing is mapped), each page in a frame of its own that is neither free nor a table, and the machine
  differs from the memory \<open>m0\<close> only inside \<open>B\<close>.
\<close>

definition user_img :: "ram \<Rightarrow> nat set \<Rightarrow> u64 \<Rightarrow> kmem \<Rightarrow> u64 \<Rightarrow> nat set \<Rightarrow> (u64 \<Rightarrow> u8 option) \<Rightarrow> bool" where
  "user_img m0 B hh s root F g \<longleftrightarrow> free_space s F \<and> pt_inv (ram s) root F \<and> hhdm s = hh \<and>
     F \<union> tables (ram s) root \<subseteq> B \<and> (\<forall>x. unat x \<notin> B \<longrightarrow> ram s x = m0 x) \<and>
     (\<forall>v. user_addr v \<longrightarrow> no_large (ram s) root v) \<and>
     (\<forall>v. unat v < 2 ^ 47 \<longrightarrow> g v = map_option (ram s) (lookup (ram s) root v)) \<and>
     (\<forall>v p. unat v < 2 ^ 47 \<longrightarrow> lookup (ram s) root v = Some p \<longrightarrow> unat p \<in> B - F - tables (ram s) root) \<and>
     (\<forall>v w p. unat v < 2 ^ 47 \<longrightarrow> unat w < 2 ^ 47 \<longrightarrow> lookup (ram s) root v = Some p \<longrightarrow> lookup (ram s) root w = Some p \<longrightarrow> v = w)"

lemma user_imgD:
  assumes "user_img m0 B hh s root F g"
  shows "free_space s F" "pt_inv (ram s) root F" "hhdm s = hh" "F \<union> tables (ram s) root \<subseteq> B"
    "unat x \<notin> B \<Longrightarrow> ram s x = m0 x" "user_addr v \<Longrightarrow> no_large (ram s) root v"
    "unat v < 2 ^ 47 \<Longrightarrow> g v = map_option (ram s) (lookup (ram s) root v)"
    "unat v < 2 ^ 47 \<Longrightarrow> lookup (ram s) root v = Some p \<Longrightarrow> unat p \<in> B - F - tables (ram s) root"
    "unat v < 2 ^ 47 \<Longrightarrow> unat w < 2 ^ 47 \<Longrightarrow> lookup (ram s) root v = Some p \<Longrightarrow> lookup (ram s) root w = Some p \<Longrightarrow> v = w"
  using assms unfolding user_img_def by blast+

lemma user_img_empty:
  assumes "free_space s F" "pt_inv (ram s) root F" "\<forall>v. user_addr v \<longrightarrow> lookup (ram s) root v = None"
  shows "user_img (ram s) (F \<union> tables (ram s) root) (hhdm s) s root F (\<lambda>_. None)"
proof -
  have "no_large (ram s) root v" if "user_addr v" for v
    using assms(3) that by (auto simp: no_large_def lookup_def simp del: tbl.simps split: option.splits if_splits)
  then show ?thesis using assms user_low by (auto simp: user_img_def)
qed

text \<open>A fresh zeroed frame mapped at the page of \<open>a\<close>.\<close>

definition set_page :: "(u64 \<Rightarrow> u8 option) \<Rightarrow> u64 \<Rightarrow> u64 \<Rightarrow> u8 option" where
  "set_page g a = (\<lambda>v. if unat v div 4096 = unat a div 4096 then Some 0 else g v)"

lemma map_zero_law:
  assumes i: "user_img m0 B hh s root F g" and al: "alloc_zeroed_frame s = Some (p, s1)" and r: "root = pml4_phys sp"
    and a: "user_addr a" and fl: "flags AND PTE_ADDR_MASK = 0" and mp: "map_page s1 sp a p flags = (b, s')"
  shows "\<exists>F'. remaps root s1 (F - span p 4096) s' F'
     (\<lambda>w. if b \<and> same_page w a then Some (p OR (w AND 0xFFF)) else lookup (ram s) root w) \<and> (\<not> b \<longrightarrow> F' = {}) \<and> card F \<le> card F' + 4 * 4096"
    "tables (ram s1) root = tables (ram s) root" "hhdm s1 = hhdm s" "aligned 12 p" "span p 4096 \<subseteq> F"
    "\<And>x. unat x \<notin> F \<Longrightarrow> ram s1 x = ram s x" "\<And>x. unat x \<in> span p 4096 \<Longrightarrow> ram s1 x = 0"
    "\<And>v. user_addr v \<Longrightarrow> no_large (ram s1) root v"
proof -
  note d = user_imgD [OF i]
  have e: "s1 = s1\<lparr>ram := store_bytes (ram s1) p []\<rparr>" by (simp add: store_no_bytes)
  note af = alloc_fill [OF d(1,2) al _ e, simplified]
  note pf = alloc_zeroed_facts [OF d(1) pt_invD(2) [OF d(2)] al]
  show nl: "no_large (ram s1) root v" if "user_addr v" for v using af(5) [OF that] d(6) [OF that] by simp
  obtain F' where m: "remaps root s1 (F - span p 4096) s' F'
     (\<lambda>w. if b \<and> same_page w a then Some ((p AND PTE_ADDR_MASK) OR (w AND 0xFFF)) else lookup (ram s1) root w)" "\<not> b \<longrightarrow> F' = {}"
    "card (F - span p 4096) \<le> card F' + 3 * 4096"
    using map_page_law [OF af(1) af(2) [unfolded r] a nl [OF a, unfolded r] fl mp] unfolding r by blast
  have "remaps root s1 (F - span p 4096) s' F'
     (\<lambda>w. if b \<and> same_page w a then Some (p OR (w AND 0xFFF)) else lookup (ram s) root w)"
    using m(1) af(4) by (simp add: remaps_def frame_mask [OF pf(1,2)])
  then show "\<exists>F'. remaps root s1 (F - span p 4096) s' F'
     (\<lambda>w. if b \<and> same_page w a then Some (p OR (w AND 0xFFF)) else lookup (ram s) root w) \<and> (\<not> b \<longrightarrow> F' = {}) \<and> card F \<le> card F' + 4 * 4096"
    using m(2,3) card_Diff_subset [OF finite_span pf(3)] by (intro exI [of _ F']) auto
  show "tables (ram s1) root = tables (ram s) root" "hhdm s1 = hhdm s" "aligned 12 p" "span p 4096 \<subseteq> F"
    "\<And>x. unat x \<notin> F \<Longrightarrow> ram s1 x = ram s x" using af(3,6,7) pf(1,3) by simp_all
  show "\<And>x. unat x \<in> span p 4096 \<Longrightarrow> ram s1 x = 0" using alloc_zeroed_frame_law(5) [OF d(1) al] .
qed

lemma user_img_map:
  assumes i: "user_img m0 B hh s root F g" and al: "alloc_zeroed_frame s = Some (p, s1)" and r: "root = pml4_phys sp"
    and a: "unat a < 2 ^ 47" and fl: "flags AND PTE_ADDR_MASK = 0" and mp: "map_page s1 sp a p flags = (b, s')"
  shows "\<exists>F'. F' \<subseteq> F \<and> user_img m0 B hh s' root F' (if b then set_page g a else g) \<and> (\<not> b \<longrightarrow> F' = {}) \<and>
    card F \<le> card F' + 4 * 4096"
proof -
  note d = user_imgD [OF i]
  note z = map_zero_law [OF i al r user_low [OF a] fl mp]
  let ?S = "span p 4096" and ?T = "tables (ram s) root"
  obtain F' where m: "remaps root s1 (F - ?S) s' F'
     (\<lambda>w. if b \<and> same_page w a then Some (p OR (w AND 0xFFF)) else lookup (ram s) root w)" "\<not> b \<longrightarrow> F' = {}" "card F \<le> card F' + 4 * 4096"
    using z(1) by blast
  have R: "F' \<subseteq> F - ?S" "free_space s' F'" "pt_inv (ram s') root F'" "hhdm s' = hh" "F' \<union> tables (ram s') root = (F - ?S) \<union> ?T"
    "\<And>v. user_addr v \<Longrightarrow> no_large (ram s') root v" "\<And>x. unat x \<notin> (F - ?S) \<union> ?T \<Longrightarrow> ram s' x = ram s1 x"
    using m(1) z(2,3,8) d(3) by (auto simp: remaps_def)
  have new: "unat (p OR (v AND 0xFFF)) \<in> ?S" "unat (p OR (v AND 0xFFF)) = unat p + unat v mod 4096" for v
    using page_offset_add [OF z(4), of v] mod_less_divisor [of 4096 "unat v"] by (simp_all add: span_def)
  have l: "lookup (ram s') root v = (if b \<and> unat v div 4096 = unat a div 4096 then Some (p OR (v AND 0xFFF)) else lookup (ram s) root v)"
    if "unat v < 2 ^ 47" for v
    using m(1) user_low [OF that] same_page_low [of v a] that a by (simp add: remaps_def)
  have ST: "?S \<inter> ?T = {}" "?S \<subseteq> F" using z(5) pt_invD(3) [OF d(2)] by auto
  have zero: "ram s' (p OR (v AND 0xFFF)) = 0" for v
  proof -
    have "unat (p OR (v AND 0xFFF)) \<notin> (F - ?S) \<union> ?T" using new(1) [of v] ST by blast
    then show ?thesis using R(7) z(7) [OF new(1) [of v]] by simp
  qed
  have old: "ram s' q = ram s q" if "unat v < 2 ^ 47" "lookup (ram s) root v = Some q" for v q
    using d(8) [OF that] R(7) z(6) by auto
  have "user_img m0 B hh s' root F' (if b then set_page g a else g)"
    unfolding user_img_def
  proof (intro conjI allI impI)
    show "F' \<union> tables (ram s') root \<subseteq> B" using R(5) d(4) by blast
    show "ram s' x = m0 x" if x: "unat x \<notin> B" for x
    proof -
      have "unat x \<notin> (F - ?S) \<union> ?T" "unat x \<notin> F" using x d(4) by auto
      then show ?thesis using R(7) z(6) d(5) [OF x] by simp
    qed
    show "(if b then set_page g a else g) v = map_option (ram s') (lookup (ram s') root v)" if "unat v < 2 ^ 47" for v
      using l [OF that] d(7) [OF that] zero [of v] old [OF that] by (auto simp: set_page_def map_option_case split: option.splits)
    show "unat q \<in> B - F' - tables (ram s') root" if v: "unat v < 2 ^ 47" "lookup (ram s') root v = Some q" for v q
    proof (cases "b \<and> unat v div 4096 = unat a div 4096")
      case True
      then have "unat q \<in> ?S" using v l [OF v(1)] new(1) [of v] by auto
      then show ?thesis using ST R(1,5) d(4) by blast
    next
      case False
      then show ?thesis using v l [OF v(1)] d(8) [OF v(1)] R(1,5) by auto
    qed
    show "v = w" if v: "unat v < 2 ^ 47" "unat w < 2 ^ 47" "lookup (ram s') root v = Some q" "lookup (ram s') root w = Some q" for v w q
    proof -
      have n: "unat u mod 4096 = unat q - unat p \<and> unat q \<in> F" if "lookup (ram s') root u = Some q" "unat u < 2 ^ 47" "b" "unat u div 4096 = unat a div 4096" for u
        using l [OF that(2)] that new [of u] ST(2) by auto
      have o: "lookup (ram s) root u = Some q \<and> unat q \<notin> F" if "lookup (ram s') root u = Some q" "unat u < 2 ^ 47" "\<not> (b \<and> unat u div 4096 = unat a div 4096)" for u
        using l [OF that(2)] that d(8) [OF that(2), of q] by auto
      show ?thesis
      proof (cases "b \<and> unat v div 4096 = unat a div 4096")
        case True
        then have "unat q \<in> F" "unat v mod 4096 = unat q - unat p" using n v by auto
        moreover from this have "b \<and> unat w div 4096 = unat a div 4096" using o [OF v(4,2)] by blast
        ultimately have "unat v div 4096 = unat w div 4096" "unat v mod 4096 = unat w mod 4096" using n [OF v(4,2)] True by simp_all
        then have "unat v = unat w" by (metis div_mult_mod_eq)
        then show ?thesis by (rule unsigned_word_eqI)
      next
        case False
        then have q: "lookup (ram s) root v = Some q" "unat q \<notin> F" using o v by auto
        then have "lookup (ram s) root w = Some q" using n [OF v(4,2)] o [OF v(4,2)] by blast
        then show ?thesis using d(9) [OF v(1,2) q(1)] by blast
      qed
    qed
  qed (use R in auto)
  then show ?thesis using m(2,3) R(1) by blast
qed

section \<open>Writing through the translation\<close>

lemma add_in_page:
  fixes u e :: nat
  assumes "u mod 4096 + e < 4096"
  shows "(u + e) div 4096 = u div 4096" "(u + e) mod 4096 = u mod 4096 + e"
proof -
  have u: "4096 * (u div 4096) + u mod 4096 = u" by (rule mult_div_mod_eq)
  show d: "(u + e) div 4096 = u div 4096" 
  proof (rule div_nat_eqI)
    show "4096 * (u div 4096) \<le> u + e" "u + e < 4096 * Suc (u div 4096)" unfolding mult_Suc_right using u assms by linarith+
  qed
  have "4096 * ((u + e) div 4096) + (u + e) mod 4096 = u + e" by (rule mult_div_mod_eq)
  then show "(u + e) mod 4096 = u mod 4096 + e" unfolding d using u by linarith
qed

definition put_at :: "(u64 \<Rightarrow> u8 option) \<Rightarrow> u64 \<Rightarrow> u8 list \<Rightarrow> u64 \<Rightarrow> u8 option" where
  "put_at g v bs = (\<lambda>w. if unat (w - v) < length bs then Some (bs ! unat (w - v)) else g w)"

lemma user_img_store:
  assumes i: "user_img m0 B hh s root F g" and v: "lookup (ram s) root v = Some p" "unat v mod 4096 + length bs \<le> 4096" "unat v + length bs \<le> 2 ^ 47"
  shows "user_img m0 B hh (s\<lparr>ram := store_bytes (ram s) p bs\<rparr>) root F (put_at g v bs)"
proof (cases "bs = []")
  case True
  then show ?thesis using i by (simp add: put_at_def store_no_bytes)
next
  case False
  note d = user_imgD [OF i]
  let ?m = "store_bytes (ram s) p bs" and ?T = "tables (ram s) root"
  have lv: "unat v < 2 ^ 47" using v(3) False by (cases bs) auto
  obtain q where q: "aligned 12 q" "\<forall>w. same_page w v \<longrightarrow> lookup (ram s) root w = Some (q OR (w AND 0xFFF))"
    using lookup_page [OF d(6) [OF user_low [OF lv]] v(1)] by blast
  have page: "unat w div 4096 = unat v div 4096 \<and> unat w mod 4096 = unat v mod 4096 + (unat w - unat v)"
    if "unat v \<le> unat w" "unat w < unat v + length bs" for w :: u64
  proof -
    define e where "e = unat w - unat v"
    have "unat w = unat v + e" "unat v mod 4096 + e < 4096" using that v(2) by (auto simp: e_def)
    then show ?thesis unfolding e_def [symmetric] using add_in_page by simp
  qed
  have pq: "unat p = unat q + unat v mod 4096" using q v(1) page_offset_add [OF q(1), of v] by (auto simp: same_page_def)
  have in_range: "\<exists>x. lookup (ram s) root w = Some x \<and> unat x = unat p + (unat w - unat v)"
    if w: "unat v \<le> unat w" "unat w < unat v + length bs" for w
  proof -
    have "same_page w v" using same_page_low [of w v] page [OF w] w v(3) lv by simp
    then show ?thesis using q(2) page_offset_add [OF q(1), of w] page [OF w] pq by simp
  qed
  have bd: "unat p + length bs \<le> 2 ^ 64" using aligned_bound [OF q(1)] pq v(2) by simp
  have onto: "\<exists>w. unat v \<le> unat w \<and> unat w < unat v + length bs \<and> lookup (ram s) root w = Some x"
    if x: "unat x \<in> span p (length bs)" for x :: u64
  proof -
    have k: "unat x - unat p < length bs" using x by (auto simp: span_def)
    have u: "unat (v + of_nat (unat x - unat p)) = unat v + (unat x - unat p)" using k v(3) by (intro unat_plus_of_nat) simp
    obtain x' where x': "lookup (ram s) root (v + of_nat (unat x - unat p)) = Some x'" "unat x' = unat p + (unat x - unat p)"
      using in_range [of "v + of_nat (unat x - unat p)"] u k by auto
    then have "unat x' = unat x" using x by (auto simp: span_def)
    then have "x' = x" by (rule unsigned_word_eqI)
    then show ?thesis using x'(1) u k by (intro exI [of _ "v + of_nat (unat x - unat p)"]) simp
  qed
  have cell: "unat x \<in> B - F - ?T" if x: "unat x \<in> span p (length bs)" for x :: u64
  proof -
    obtain w where w: "unat w < unat v + length bs" "lookup (ram s) root w = Some x" using onto [OF x] by blast
    show ?thesis by (rule d(8) [OF _ w(2)]) (use w(1) v(3) in simp)
  qed
  have off: "?m x = ram s x" if "unat x \<notin> span p (length bs)" for x by (rule store_bytes_other [OF bd that])
  have eqT: "?m x = ram s x" if "unat x \<in> ?T" for x using off cell that by blast
  have ps: "pt_inv ?m root F" "tables ?m root = ?T" "\<And>v. user_addr v \<Longrightarrow> lookup ?m root v = lookup (ram s) root v"
    "\<And>v. user_addr v \<Longrightarrow> no_large ?m root v = no_large (ram s) root v"
    using pt_same [OF d(2) eqT, of F] by auto
  have other: "?m x = ram s x" if w: "unat w < 2 ^ 47" "lookup (ram s) root w = Some x" "\<not> unat (w - v) < length bs" for w x
  proof (rule off, rule)
    assume "unat x \<in> span p (length bs)"
    then obtain u where u: "unat v \<le> unat u" "unat u < unat v + length bs" "lookup (ram s) root u = Some x" using onto by blast
    then have "w = u" using d(9) [OF w(1) _ w(2) u(3)] v(3) by simp
    then show False using w(3) u(1,2) unat_diff_span [of v "length bs" u] v(3) by (simp add: span_def)
  qed
  have inside: "map_option ?m (lookup (ram s) root w) = Some (bs ! unat (w - v))" if w: "unat w < 2 ^ 47" "unat (w - v) < length bs" for w
  proof -
    have s: "unat v \<le> unat w" "unat w < unat v + length bs" using unat_diff_span [of v "length bs" w] w v(3) by (auto simp: span_def)
    obtain x where x: "lookup (ram s) root w = Some x" "unat x = unat p + (unat w - unat v)" using in_range [OF s] by blast
    have "unat (w - v) = unat w - unat v" "unat (x - p) = unat w - unat v" using s(1) x(2) by (simp_all add: unat_sub word_le_nat_alt)
    then show ?thesis using x(1) w(2) by (simp add: store_bytes_def)
  qed
  show ?thesis
    unfolding user_img_def
  proof (intro conjI allI impI)
    show "free_space (s\<lparr>ram := ?m\<rparr>) F" by (rule pmm_mem.set_mem_free [OF d(1)]) (use off cell in blast)
    show "put_at g v bs w = map_option (ram (s\<lparr>ram := ?m\<rparr>)) (lookup (ram (s\<lparr>ram := ?m\<rparr>)) root w)" if w: "unat w < 2 ^ 47" for w
      using inside [OF w] other [OF w] d(7) [OF w] ps(3) [OF user_low [OF w]]
      by (cases "lookup (ram s) root w") (auto simp: put_at_def)
    show "ram (s\<lparr>ram := ?m\<rparr>) x = m0 x" if "unat x \<notin> B" for x using that off [of x] cell [of x] d(5) [OF that] by auto
  qed (use d ps user_low in auto)
qed

end
