(* ===== verification/Elf.thy ===== *)
theory Elf
  imports Umem
begin

text \<open>
  The program loader (\<open>proc/elf.rs\<close>): the headers of an ELF file, the two passes over its program headers
  and the segments it maps and fills. Log lines and the constants that nothing reads are left out.
\<close>

unbundle bit_operations_syntax

section \<open>The file\<close>

type_synonym elf64_addr = u64
type_synonym elf64_off = u64
type_synonym elf64_half = u16
type_synonym elf64_word = u32
type_synonym elf64_xword = u64

definition ELFMAG :: "u8 list" where "ELFMAG = [0x7F, 0x45, 0x4C, 0x46]"
definition ELFCLASS64 :: u8 where "ELFCLASS64 = 2"
definition ELFDATA2LSB :: u8 where "ELFDATA2LSB = 1"
definition ET_EXEC :: elf64_half where "ET_EXEC = 2"
definition ET_DYN :: elf64_half where "ET_DYN = 3"
definition EM_X86_64 :: elf64_half where "EM_X86_64 = 62"
definition PT_LOAD :: elf64_word where "PT_LOAD = 1"
definition PT_INTERP :: elf64_word where "PT_INTERP = 3"
definition PT_PHDR :: elf64_word where "PT_PHDR = 6"
definition PT_GNU_STACK :: elf64_word where "PT_GNU_STACK = 0x6474E551"
definition PF_X :: elf64_word where "PF_X = 1"
definition PF_W :: elf64_word where "PF_W = 2"
definition PF_R :: elf64_word where "PF_R = 4"

record elf64_ehdr =
  e_ident :: "u8 list"
  e_type :: elf64_half
  e_machine :: elf64_half
  e_version :: elf64_word
  e_entry :: elf64_addr
  e_phoff :: elf64_off
  e_shoff :: elf64_off
  e_flags :: elf64_word
  e_ehsize :: elf64_half
  e_phentsize :: elf64_half
  e_phnum :: elf64_half
  e_shentsize :: elf64_half
  e_shnum :: elf64_half
  e_shstrndx :: elf64_half

record elf64_phdr =
  p_type :: elf64_word
  p_flags :: elf64_word
  p_offset :: elf64_off
  p_vaddr :: elf64_addr
  p_paddr :: elf64_addr
  p_filesz :: elf64_xword
  p_memsz :: elf64_xword
  p_align :: elf64_xword

record loaded_elf =
  le_entry :: u64
  le_brk :: u64
  le_phdr_vaddr :: u64
  le_phnum :: u16
  le_phent :: u16
  le_load_base :: u64
  le_interp_path :: "u8 list option"

datatype elf_error = TooSmall | BadMagic | NotElf64 | NotLittleEndian | BadVersion | NotExecutable
  | WrongArch | BadPhdr | OutOfBounds | MappingFailed | AllocFailed

text \<open>
  The headers are read in place, through a pointer into the slice. The check on the program headers uses the
  entry size of the file, but the table is read with the size of the structure, so the read can pass the end:
  \<open>beyond\<close> is what memory holds there.
\<close>

definition elf_view :: "(u64 \<Rightarrow> u8) \<Rightarrow> u8 list \<Rightarrow> u64 \<Rightarrow> u8" where
  "elf_view beyond bytes off = (if unat off < length bytes then bytes ! unat off else beyond off)"

definition rd :: "(u64 \<Rightarrow> u8) \<Rightarrow> u64 \<Rightarrow> nat \<Rightarrow> 'a::len word" where
  "rd m off n = from_le_bytes (load_bytes m off n)"

definition read_ehdr :: "(u64 \<Rightarrow> u8) \<Rightarrow> elf64_ehdr" where
  "read_ehdr m =
     \<lparr>e_ident = load_bytes m 0 16, e_type = rd m 16 2, e_machine = rd m 18 2, e_version = rd m 20 4,
      e_entry = rd m 24 8, e_phoff = rd m 32 8, e_shoff = rd m 40 8, e_flags = rd m 48 4, e_ehsize = rd m 52 2,
      e_phentsize = rd m 54 2, e_phnum = rd m 56 2, e_shentsize = rd m 58 2, e_shnum = rd m 60 2, e_shstrndx = rd m 62 2\<rparr>"

definition read_phdr :: "(u64 \<Rightarrow> u8) \<Rightarrow> u64 \<Rightarrow> elf64_phdr" where
  "read_phdr m a =
     \<lparr>p_type = rd m a 4, p_flags = rd m (a + 4) 4, p_offset = rd m (a + 8) 8, p_vaddr = rd m (a + 16) 8,
      p_paddr = rd m (a + 24) 8, p_filesz = rd m (a + 32) 8, p_memsz = rd m (a + 40) 8, p_align = rd m (a + 48) 8\<rparr>"

definition read_phdrs :: "(u64 \<Rightarrow> u8) \<Rightarrow> elf64_ehdr \<Rightarrow> elf64_phdr list" where
  "read_phdrs m eh = map (\<lambda>i. read_phdr m (e_phoff eh + 56 * of_nat i)) [0..<unat (e_phnum eh)]"

text \<open>\<open>&data[a..b]\<close>: \<open>None\<close> is the panic of a range out of bounds.\<close>

definition slice :: "u8 list \<Rightarrow> u64 \<Rightarrow> u64 \<Rightarrow> u8 list option" where
  "slice bytes a b = (if a \<le> b \<and> unat b \<le> length bytes then Some (take (unat (b - a)) (drop (unat a) bytes)) else None)"

section \<open>First pass over the program headers\<close>

record scan =
  load_min :: u64
  load_max :: u64
  phdr_vaddr :: u64
  interp_path :: "u8 list option"
  stack_exec :: bool

definition scan_phdr :: "u8 list \<Rightarrow> u64 \<Rightarrow> elf64_phdr \<Rightarrow> scan \<Rightarrow> (elf_error + scan) option" where
  "scan_phdr bytes slide ph sc =
     (if p_type ph = PT_LOAD then
        (let sc1 = (if p_vaddr ph < load_min sc then sc\<lparr>load_min := p_vaddr ph\<rparr> else sc);
             e = p_vaddr ph + p_memsz ph
         in Some (Inr (if e > load_max sc1 then sc1\<lparr>load_max := e\<rparr> else sc1)))
      else if p_type ph = PT_PHDR then Some (Inr (sc\<lparr>phdr_vaddr := p_vaddr ph + slide\<rparr>))
      else if p_type ph = PT_INTERP then
        (if unat (p_offset ph + p_filesz ph) > length bytes then Some (Inl OutOfBounds)
         else case slice bytes (p_offset ph) (p_offset ph + p_filesz ph) of
                None \<Rightarrow> None
              | Some path \<Rightarrow> Some (Inr (sc\<lparr>interp_path := Some path\<rparr>)))
      else if p_type ph = PT_GNU_STACK then Some (Inr (sc\<lparr>stack_exec := p_flags ph AND PF_X \<noteq> 0\<rparr>))
      else Some (Inr sc))"

fun scan_phdrs :: "u8 list \<Rightarrow> u64 \<Rightarrow> elf64_phdr list \<Rightarrow> scan \<Rightarrow> (elf_error + scan) option" where
  "scan_phdrs bytes slide [] sc = Some (Inr sc)"
| "scan_phdrs bytes slide (ph # phs) sc =
     (case scan_phdr bytes slide ph sc of
        None \<Rightarrow> None
      | Some (Inl e) \<Rightarrow> Some (Inl e)
      | Some (Inr sc1) \<Rightarrow> scan_phdrs bytes slide phs sc1)"

section \<open>Loading a segment\<close>

definition seg_pte_flags :: "elf64_phdr \<Rightarrow> u64" where
  "seg_pte_flags ph =
     (let f0 = PTE_PRESENT OR PTE_USER;
          f1 = (if p_flags ph AND PF_W \<noteq> 0 then f0 OR PTE_WRITABLE else f0)
      in if p_flags ph AND PF_X = 0 then f1 OR PTE_NO_EXEC else f1)"

definition seg_vma_flags :: "elf64_phdr \<Rightarrow> vma_flags" where
  "seg_vma_flags ph =
     (let f0 = 0;
          f1 = (if p_flags ph AND PF_R \<noteq> 0 then f0 OR VMA_READ else f0);
          f2 = (if p_flags ph AND PF_W \<noteq> 0 then f1 OR VMA_WRITE else f1)
      in if p_flags ph AND PF_X \<noteq> 0 then f2 OR VMA_EXEC else f2)"

partial_function (option) map_pages ::
  "address_space \<Rightarrow> u64 \<Rightarrow> u64 \<Rightarrow> u64 \<Rightarrow> u64 \<Rightarrow> kmem \<Rightarrow> (elf_error option \<times> kmem) option" where
  "map_pages sp page_vaddr len pte_flags page_offset s =
     (if page_offset < len then
        (case alloc_zeroed_frame s of
           None \<Rightarrow> Some (Some AllocFailed, s)
         | Some (frame_phys, s1) \<Rightarrow>
             (case map_page s1 sp (page_vaddr + page_offset) frame_phys pte_flags of
                (mapped, s2) \<Rightarrow>
                  if \<not> mapped then Some (Some MappingFailed, s2)
                  else map_pages sp page_vaddr len pte_flags (page_offset + PAGE_SIZE) s2))
      else Some (None, s))"

function copy_segment :: "address_space \<Rightarrow> u64 \<Rightarrow> u8 list \<Rightarrow> nat \<Rightarrow> kmem \<Rightarrow> bool \<times> kmem" where
  "copy_segment sp seg_vaddr src bytes_copied s =
     (if bytes_copied < length src then
        (let vaddr = seg_vaddr + of_nat bytes_copied
         in case translate s sp vaddr of
              None \<Rightarrow> (False, s)
            | Some phys \<Rightarrow>
                (let page_remaining = 4096 - unat vaddr mod 4096;
                     to_copy = min (length src - bytes_copied) page_remaining;
                     dst = virt_to_phys (hhdm s) (phys_to_virt (hhdm s) phys)
                 in copy_segment sp seg_vaddr src (bytes_copied + to_copy)
                      (s\<lparr>ram := store_bytes (ram s) dst (take to_copy (drop bytes_copied src))\<rparr>)))
      else (True, s))"
  by pat_completeness auto

termination
proof (relation "measure (\<lambda>(sp, v, src, n, s). length src - n)")
  fix sp :: address_space and v vaddr phys :: u64 and src :: "u8 list" and n page_remaining to_copy :: nat and s :: kmem and dst :: u64
  assume "n < length src" "page_remaining = 4096 - unat vaddr mod 4096" "to_copy = min (length src - n) page_remaining"
  moreover have "unat vaddr mod 4096 < 4096" by simp
  ultimately have "0 < to_copy" "n + to_copy \<le> length src" by linarith+
  then show "((sp, v, src, n + to_copy, s\<lparr>ram := store_bytes (ram s) dst (take to_copy (drop n src))\<rparr>), sp, v, src, n, s)
    \<in> measure (\<lambda>(sp, v, src, n, s). length src - n)" by simp
qed simp

declare copy_segment.simps [simp del]

definition load_segment ::
  "u8 list \<Rightarrow> u64 \<Rightarrow> address_space \<Rightarrow> elf64_phdr \<Rightarrow> kmem \<Rightarrow> vm_space \<Rightarrow> (elf_error option \<times> kmem \<times> vm_space) option" where
  "load_segment bytes slide sp ph s vm =
     (if p_type ph \<noteq> PT_LOAD then Some (None, s, vm)
      else if p_memsz ph = 0 then Some (None, s, vm)
      else
        let seg_vaddr = p_vaddr ph + slide;
            page_vaddr = align_down seg_vaddr PAGE_SIZE;
            page_end = align_up (seg_vaddr + p_memsz ph) PAGE_SIZE
        in case map_pages sp page_vaddr (page_end - page_vaddr) (seg_pte_flags ph) 0 s of
             None \<Rightarrow> None
           | Some (Some e, s1) \<Rightarrow> Some (Some e, s1, vm)
           | Some (None, s1) \<Rightarrow>
               (let vm1 = add_vma vm page_vaddr page_end (seg_vma_flags ph)
                in if p_filesz ph = 0 then Some (None, s1, vm1)
                   else if unat (p_offset ph + p_filesz ph) > length bytes then Some (Some OutOfBounds, s1, vm1)
                   else case slice bytes (p_offset ph) (p_offset ph + p_filesz ph) of
                          None \<Rightarrow> None
                        | Some src \<Rightarrow>
                            (case copy_segment sp seg_vaddr src 0 s1 of
                               (False, s2) \<Rightarrow> Some (Some MappingFailed, s2, vm1)
                             | (True, s2) \<Rightarrow> Some (None, s2, vm1))))"

fun load_segments ::
  "u8 list \<Rightarrow> u64 \<Rightarrow> address_space \<Rightarrow> elf64_phdr list \<Rightarrow> kmem \<Rightarrow> vm_space \<Rightarrow> (elf_error option \<times> kmem \<times> vm_space) option" where
  "load_segments bytes slide sp [] s vm = Some (None, s, vm)"
| "load_segments bytes slide sp (ph # phs) s vm =
     (case load_segment bytes slide sp ph s vm of
        None \<Rightarrow> None
      | Some (Some e, s1, vm1) \<Rightarrow> Some (Some e, s1, vm1)
      | Some (None, s1, vm1) \<Rightarrow> load_segments bytes slide sp phs s1 vm1)"

section \<open>Loading a file\<close>

definition check_ehdr :: "elf64_ehdr \<Rightarrow> elf_error option" where
  "check_ehdr eh =
     (if take 4 (e_ident eh) \<noteq> ELFMAG then Some BadMagic
      else if e_ident eh ! 4 \<noteq> ELFCLASS64 then Some NotElf64
      else if e_ident eh ! 5 \<noteq> ELFDATA2LSB then Some NotLittleEndian
      else if e_ident eh ! 6 \<noteq> 1 then Some BadVersion
      else if e_type eh \<noteq> ET_EXEC \<and> e_type eh \<noteq> ET_DYN then Some NotExecutable
      else if e_machine eh \<noteq> EM_X86_64 then Some WrongArch
      else None)"

definition find_phdr_vaddr :: "elf64_ehdr \<Rightarrow> elf64_phdr list \<Rightarrow> u64 \<Rightarrow> u64 \<Rightarrow> u64" where
  "find_phdr_vaddr eh phs slide v =
     (if v = 0 \<and> e_phoff eh \<noteq> 0 then
        (case find (\<lambda>ph. p_type ph = PT_LOAD \<and> p_offset ph = 0) phs of
           None \<Rightarrow> v
         | Some ph \<Rightarrow> p_vaddr ph + slide + e_phoff eh)
      else v)"

definition load_elf ::
  "(u64 \<Rightarrow> u8) \<Rightarrow> u8 list \<Rightarrow> address_space \<Rightarrow> u64 \<Rightarrow> kmem \<Rightarrow> vm_space \<Rightarrow> ((elf_error + loaded_elf) \<times> kmem \<times> vm_space) option" where
  "load_elf beyond bytes sp pie_base s vm =
     (if length bytes < 64 then Some (Inl TooSmall, s, vm)
      else
        let m = elf_view beyond bytes; eh = read_ehdr m
        in case check_ehdr eh of
             Some e \<Rightarrow> Some (Inl e, s, vm)
           | None \<Rightarrow>
        let is_pie = (e_type eh = ET_DYN);
            slide = (if is_pie then pie_base else 0)
        in if unat (e_phoff eh + ucast (e_phnum eh) * ucast (e_phentsize eh)) > length bytes then Some (Inl OutOfBounds, s, vm)
           else
             let phs = read_phdrs m eh
             in case scan_phdrs bytes slide phs \<lparr>load_min = -1, load_max = 0, phdr_vaddr = 0, interp_path = None, stack_exec = False\<rparr> of
                  None \<Rightarrow> None
                | Some (Inl e) \<Rightarrow> Some (Inl e, s, vm)
                | Some (Inr sc) \<Rightarrow>
             let load_base = (if is_pie then pie_base else load_min sc)
             in case load_segments bytes slide sp phs s vm of
                  None \<Rightarrow> None
                | Some (Some e, s1, vm1) \<Rightarrow> Some (Inl e, s1, vm1)
                | Some (None, s1, vm1) \<Rightarrow>
                    (let new_brk = align_up (load_max sc + slide) PAGE_SIZE
                     in Some (Inr \<lparr>le_entry = e_entry eh + slide, le_brk = new_brk,
                                   le_phdr_vaddr = find_phdr_vaddr eh phs slide (phdr_vaddr sc),
                                   le_phnum = e_phnum eh, le_phent = e_phentsize eh, le_load_base = load_base,
                                   le_interp_path = interp_path sc\<rparr>, s1, vm1\<lparr>brk := new_brk\<rparr>)))"

definition is_valid_elf :: "(u64 \<Rightarrow> u8) \<Rightarrow> u8 list \<Rightarrow> bool" where
  "is_valid_elf beyond bytes \<longleftrightarrow> \<not> length bytes < 64 \<and>
     (let eh = read_ehdr (elf_view beyond bytes)
      in take 4 (e_ident eh) = ELFMAG \<and> e_ident eh ! 4 = ELFCLASS64 \<and> e_ident eh ! 5 = ELFDATA2LSB \<and> e_machine eh = EM_X86_64)"

definition read_cstr :: "u8 list \<Rightarrow> u64 \<Rightarrow> u8 list option" where
  "read_cstr bytes off = (if unat off \<le> length bytes then Some (takeWhile (\<lambda>b. b \<noteq> 0) (drop (unat off) bytes)) else None)"

section \<open>The effect on user memory\<close>

text \<open>Zeroed pages from \<open>lo\<close> to \<open>hi\<close>, both multiples of the page size.\<close>

definition set_range :: "(u64 \<Rightarrow> u8 option) \<Rightarrow> nat \<Rightarrow> nat \<Rightarrow> u64 \<Rightarrow> u8 option" where
  "set_range g lo hi = (\<lambda>v. if lo \<le> unat v \<and> unat v < hi then Some 0 else g v)"

lemma set_page_range:
  assumes "unat a = 4096 * n"
  shows "set_page g a = set_range g (4096 * n) (4096 * Suc n)"
proof -
  have "x div 4096 = n \<longleftrightarrow> 4096 * n \<le> x \<and> x < 4096 * Suc n" for x :: nat
    using div_nat_eqI [of 4096 n x] div_times_less_eq_dividend [of x 4096] dividend_less_times_div [of 4096 x] by auto
  then show ?thesis using assms by (simp add: set_page_def set_range_def)
qed

lemma set_range_append: "a \<le> b \<Longrightarrow> b \<le> c \<Longrightarrow> set_range (set_range g a b) b c = set_range g a c"
  by (auto simp: set_range_def)

lemma set_range_empty [simp]: "set_range g a a = g"
  by (rule ext) (auto simp: set_range_def)

lemma unat_nat64: "n < 2 ^ 64 \<Longrightarrow> unat (of_nat n :: u64) = n"
  by (simp add: unat_of_nat)

text \<open>
  The result of a step of the loader that maps at most \<open>n\<close> bytes: the new contents, or an error for want of frames.
  A page takes a frame and at most three tables.
\<close>

definition load_post :: "ram \<Rightarrow> nat set \<Rightarrow> u64 \<Rightarrow> u64 \<Rightarrow> nat set \<Rightarrow> nat \<Rightarrow> elf_error option \<Rightarrow> kmem \<Rightarrow> nat set \<Rightarrow> (u64 \<Rightarrow> u8 option) \<Rightarrow> bool" where
  "load_post m0 B hh root F n e s' F' g \<longleftrightarrow> F' \<subseteq> F \<and> card F \<le> card F' + 4 * n \<and>
     (case e of None \<Rightarrow> user_img m0 B hh s' root F' g
      | Some e \<Rightarrow> e \<in> {AllocFailed, MappingFailed} \<and> F' = {} \<and> (\<exists>g'. user_img m0 B hh s' root {} g'))"

lemma load_post_trans:
  "load_post m0 B hh root F n None s1 F1 g1 \<Longrightarrow> load_post m0 B hh root F1 m e s2 F2 g2 \<Longrightarrow> load_post m0 B hh root F (n + m) e s2 F2 g2"
  unfolding load_post_def by auto

lemma load_post_fail:
  "user_img m0 B hh s' root {} g' \<Longrightarrow> e = AllocFailed \<or> e = MappingFailed \<Longrightarrow> card F \<le> 4 * n \<Longrightarrow> load_post m0 B hh root F n (Some e) s' {} g"
  unfolding load_post_def by auto

lemma map_pages_law:
  assumes r: "root = pml4_phys sp" and fl: "flags AND PTE_ADDR_MASK = 0"
    and a: "unat a = 4096 * p" "unat len = 4096 * n" "p + n \<le> 2 ^ 35"
  shows "k \<le> n \<Longrightarrow> user_img m0 B hh s root F (set_range g (4096 * p) (4096 * (p + k))) \<Longrightarrow>
    \<exists>e s' F'. map_pages sp a len flags (of_nat (4096 * k)) s = Some (e, s') \<and>
      load_post m0 B hh root F (4096 * (n - k)) e s' F' (set_range g (4096 * p) (4096 * (p + n)))"
proof (induction "n - k" arbitrary: k s F)
  case 0
  have "unat (of_nat (4096 * k) :: u64) = 4096 * k" by (rule unat_nat64) (use 0 a(3) in simp)
  then have "\<not> (of_nat (4096 * k) :: u64) < len" using 0 a(2) unfolding word_less_nat_alt by linarith
  then show ?case using 0 by (subst map_pages.simps) (auto simp: load_post_def)
next
  case (Suc d)
  let ?o = "of_nat (4096 * k) :: u64"
  have k: "k < n" using Suc(2) by simp
  have uo: "unat ?o = 4096 * k" by (rule unat_nat64) (use k a(3) in simp)
  have lt: "?o < len" using k a(2) uo unfolding word_less_nat_alt by linarith
  have nx: "?o + PAGE_SIZE = of_nat (4096 * Suc k)" by (simp add: PAGE_SIZE_def)
  have ua: "unat (a + ?o) = 4096 * (p + k)" using a k by (subst unat_plus_of_nat) simp_all
  note i = Suc(4)
  show ?case
  proof (cases "alloc_zeroed_frame s")
    case None
    then have "F = {}" using alloc_None_empty [OF user_imgD(1) [OF i]] by (simp add: alloc_zeroed_frame_None)
    then have "load_post m0 B hh root F (4096 * (n - k)) (Some AllocFailed) s {} (set_range g (4096 * p) (4096 * (p + n)))"
      using i by (intro load_post_fail) simp_all
    then show ?thesis using None lt by (subst map_pages.simps) auto
  next
    case (Some x)
    obtain fr s1 where x: "x = (fr, s1)" by (cases x)
    obtain b s2 where mp: "map_page s1 sp (a + ?o) fr flags = (b, s2)" by (cases "map_page s1 sp (a + ?o) fr flags")
    have lo: "unat (a + ?o) < 2 ^ 47" using ua a(3) k by simp
    obtain F2 where F2: "F2 \<subseteq> F" "user_img m0 B hh s2 root F2 (if b then set_page (set_range g (4096 * p) (4096 * (p + k))) (a + ?o) else set_range g (4096 * p) (4096 * (p + k)))" "\<not> b \<longrightarrow> F2 = {}" "card F \<le> card F2 + 4 * 4096"
      using user_img_map [OF i Some [unfolded x] r lo fl mp] by blast
    show ?thesis
    proof (cases b)
      case False
      have "card F \<le> 4 * (4096 * (n - k))" using F2(3,4) False k by simp
      then have "load_post m0 B hh root F (4096 * (n - k)) (Some MappingFailed) s2 {} (set_range g (4096 * p) (4096 * (p + n)))"
        using F2(2,3) False by (intro load_post_fail) simp_all
      then show ?thesis using False Some x mp lt by (subst map_pages.simps) auto
    next
      case True
      have "set_page (set_range g (4096 * p) (4096 * (p + k))) (a + ?o) = set_range g (4096 * p) (4096 * (p + Suc k))"
        unfolding set_page_range [OF ua] by (simp add: set_range_append)
      then have i2: "user_img m0 B hh s2 root F2 (set_range g (4096 * p) (4096 * (p + Suc k)))" using F2(2) True by simp
      have st: "map_pages sp a len flags ?o s = map_pages sp a len flags (of_nat (4096 * Suc k)) s2"
        unfolding nx [symmetric] using Some x mp lt True by (subst map_pages.simps) simp
      have l1: "load_post m0 B hh root F 4096 None s2 F2 (set_range g (4096 * p) (4096 * (p + Suc k)))"
        using F2 i2 by (simp add: load_post_def)
      have "d = n - Suc k" "Suc k \<le> n" using Suc(2) k by simp_all
      from Suc(1) [OF this i2] obtain e s' F' where f: "map_pages sp a len flags (of_nat (4096 * Suc k)) s2 = Some (e, s')"
        "load_post m0 B hh root F2 (4096 * (n - Suc k)) e s' F' (set_range g (4096 * p) (4096 * (p + n)))" by blast
      have "4096 + 4096 * (n - Suc k) = 4096 * (n - k)" using k by simp
      then show ?thesis unfolding st using f(1) load_post_trans [OF l1 f(2)] by auto
    qed
  qed
qed

lemma put_at_append:
  assumes "unat v + length bs \<le> 2 ^ 64" "k \<le> length bs"
  shows "put_at (put_at g v (take k bs)) (v + of_nat k) (drop k bs) = put_at g v bs"
proof
  fix w
  have d: "w - (v + of_nat k) = (w - v) - of_nat k" by simp
  show "put_at (put_at g v (take k bs)) (v + of_nat k) (drop k bs) w = put_at g v bs w"
  proof (cases "unat (w - v) < k")
    case True
    have "unat w \<in> span v k" using unat_diff_span [of v k w] assms True by auto
    moreover have "unat (v + of_nat k) = unat v + k \<or> k = length bs"
      using assms unat_plus_of_nat [of v k] by (cases "k = length bs") auto
    ultimately have "\<not> unat (w - (v + of_nat k)) < length bs - k"
      using unat_diff_span [of "v + of_nat k" "length bs - k" w] assms by (auto simp: span_def)
    then show ?thesis using True assms(2) by (simp add: put_at_def)
  next
    case False
    have k64: "unat (of_nat k :: u64) = k \<or> k = length bs \<and> k = 2 ^ 64"
      using assms by (cases "k < 2 ^ 64") (auto simp: unat_of_nat)
    then show ?thesis
    proof
      assume u: "unat (of_nat k :: u64) = k"
      then have "unat (w - (v + of_nat k)) = unat (w - v) - k" unfolding d using False by (simp add: unat_sub word_le_nat_alt)
      then show ?thesis using False assms(2) by (auto simp: put_at_def)
    next
      assume "k = length bs \<and> k = 2 ^ 64"
      then show ?thesis by (simp add: put_at_def)
    qed
  qed
qed

lemma copy_segment_law:
  assumes r: "root = pml4_phys sp" and v: "unat v + length src \<le> 2 ^ 47"
  shows "user_img m0 B hh s root F g \<Longrightarrow> n \<le> length src \<Longrightarrow> \<forall>i<length src. g (v + of_nat i) \<noteq> None \<Longrightarrow>
    \<exists>s'. copy_segment sp v src n s = (True, s') \<and> user_img m0 B hh s' root F (put_at g (v + of_nat n) (drop n src))"
proof (induction "length src - n" arbitrary: n s g rule: less_induct)
  case less
  note i = less(2)
  show ?case
  proof (cases "n < length src")
    case False
    then show ?thesis using i less(3) by (subst copy_segment.simps) (simp add: put_at_def)
  next
    case True
    let ?v = "v + of_nat n"
    define k where "k = min (length src - n) (4096 - unat ?v mod 4096)"
    have u: "unat ?v = unat v + n" using True v by (intro unat_plus_of_nat) simp
    have lo: "unat ?v < 2 ^ 47" using u True v by simp
    obtain p where p: "lookup (ram s) root ?v = Some p"
      using user_imgD(7) [OF i lo] less(4) [rule_format, OF True] by auto
    have m: "unat ?v mod 4096 < 4096" by simp
    then have k: "0 < k" "n + k \<le> length src" "unat ?v mod 4096 + k \<le> 4096" using True unfolding k_def by linarith+
    let ?bs = "take k (drop n src)" and ?s = "s\<lparr>ram := store_bytes (ram s) p (take k (drop n src))\<rparr>"
    have len: "length ?bs = k" using k(2) by simp
    have i1: "user_img m0 B hh ?s root F (put_at g ?v ?bs)"
      by (rule user_img_store [OF i p]) (use k len u v in simp_all)
    have call: "copy_segment sp v src n s = copy_segment sp v src (n + k) ?s"
      using True p by (subst copy_segment.simps) (simp add: Let_def translate_lookup r virt_to_phys_def phys_to_virt_def flip: k_def)
    have "\<forall>i<length src. put_at g ?v ?bs (v + of_nat i) \<noteq> None" using less(4) by (simp add: put_at_def)
    moreover have "length src - (n + k) < length src - n" using k True by linarith
    ultimately obtain s' where s': "copy_segment sp v src (n + k) ?s = (True, s')"
      "user_img m0 B hh s' root F (put_at (put_at g ?v ?bs) (v + of_nat (n + k)) (drop (n + k) src))"
      using less(1) [OF _ i1 k(2)] by blast
    have "put_at (put_at g ?v (take k (drop n src))) (?v + of_nat k) (drop k (drop n src)) = put_at g ?v (drop n src)"
      by (rule put_at_append) (use u v k in simp_all)
    then have "put_at (put_at g ?v ?bs) (v + of_nat (n + k)) (drop (n + k) src) = put_at g ?v (drop n src)"
      by (simp add: ac_simps)
    then show ?thesis using s' call by simp
  qed
qed

text \<open>What a loadable segment makes of the memory.\<close>

definition seg_vaddr :: "u64 \<Rightarrow> elf64_phdr \<Rightarrow> nat" where
  "seg_vaddr slide ph = unat (p_vaddr ph) + unat slide"

definition seg_lo :: "u64 \<Rightarrow> elf64_phdr \<Rightarrow> nat" where
  "seg_lo slide ph = 4096 * (seg_vaddr slide ph div 4096)"

definition seg_hi :: "u64 \<Rightarrow> elf64_phdr \<Rightarrow> nat" where
  "seg_hi slide ph = 4096 * ((seg_vaddr slide ph + unat (p_memsz ph) + 4095) div 4096)"

definition seg_bytes :: "u8 list \<Rightarrow> elf64_phdr \<Rightarrow> u8 list" where
  "seg_bytes bytes ph = take (unat (p_filesz ph)) (drop (unat (p_offset ph)) bytes)"

definition loads :: "elf64_phdr \<Rightarrow> bool" where
  "loads ph \<longleftrightarrow> p_type ph = PT_LOAD \<and> p_memsz ph \<noteq> 0"

definition seg_ok :: "u8 list \<Rightarrow> u64 \<Rightarrow> elf64_phdr \<Rightarrow> bool" where
  "seg_ok bytes slide ph \<longleftrightarrow>
     (loads ph \<longrightarrow> seg_vaddr slide ph + unat (p_memsz ph) \<le> 2 ^ 47 \<and> p_filesz ph \<le> p_memsz ph \<and>
        unat (p_offset ph) + unat (p_filesz ph) \<le> length bytes) \<and>
     (p_type ph = PT_INTERP \<longrightarrow> unat (p_offset ph) + unat (p_filesz ph) \<le> length bytes)"

definition seg_room :: "u64 \<Rightarrow> elf64_phdr \<Rightarrow> nat" where
  "seg_room slide ph = (if loads ph then seg_hi slide ph - seg_lo slide ph else 0)"

definition load_img :: "u8 list \<Rightarrow> u64 \<Rightarrow> elf64_phdr \<Rightarrow> (u64 \<Rightarrow> u8 option) \<Rightarrow> u64 \<Rightarrow> u8 option" where
  "load_img bytes slide ph g =
     (if loads ph then put_at (set_range g (seg_lo slide ph) (seg_hi slide ph)) (p_vaddr ph + slide) (seg_bytes bytes ph) else g)"

lemma seg_flags_mask: "seg_pte_flags ph AND PTE_ADDR_MASK = 0"
  by (simp add: seg_pte_flags_def pte_bits PTE_ADDR_MASK_def Let_def)

lemma slice_bytes:
  assumes "unat a + n \<le> length bytes" "length bytes < 2 ^ 63" "n = unat b"
  shows "slice bytes a (a + b) = Some (take n (drop (unat a) bytes))" "unat (a + b) = unat a + n"
proof -
  have u: "unat (a + b) = unat a + n" using assms by (simp add: unat_word_ariths)
  then show "unat (a + b) = unat a + n" .
  show "slice bytes a (a + b) = Some (take n (drop (unat a) bytes))"
    using u assms by (simp add: slice_def word_le_nat_alt)
qed

lemma page_range:
  assumes "unat a + n \<le> 2 ^ 47" "n = unat b"
  shows "unat (align_down a 4096) = 4096 * (unat a div 4096)" "unat (align_up (a + b) 4096) = 4096 * ((unat a + n + 4095) div 4096)"
proof -
  have "unat (a + b) = unat a + n" using assms by (simp add: unat_word_ariths)
  then show "unat (align_up (a + b) 4096) = 4096 * ((unat a + n + 4095) div 4096)"
    using assms(1) by (subst unat_align_up) simp_all
qed (simp add: unat_align_down minus_mod_eq_mult_div)

lemma seg_vaddr_word:
  assumes "seg_ok bytes slide ph" "loads ph"
  shows "unat (p_vaddr ph + slide) = seg_vaddr slide ph"
  using assms by (simp add: seg_ok_def seg_vaddr_def unat_word_ariths)

lemma load_segment_law:
  assumes r: "root = pml4_phys sp" and ok: "seg_ok bytes slide ph" "length bytes < 2 ^ 63" and i: "user_img m0 B hh s root F g"
  shows "\<exists>e s' vm' F'. load_segment bytes slide sp ph s vm = Some (e, s', vm') \<and>
    load_post m0 B hh root F (seg_room slide ph) e s' F' (load_img bytes slide ph g)"
proof (cases "loads ph")
  case False
  then show ?thesis using i by (auto simp: load_segment_def loads_def load_img_def load_post_def seg_room_def)
next
  case True
  let ?v = "p_vaddr ph + slide" and ?n = "unat (p_memsz ph)"
  let ?p = "unat ?v div 4096" and ?q = "(unat ?v + ?n + 4095) div 4096"
  let ?a = "align_down ?v 4096" and ?e = "align_up (?v + p_memsz ph) 4096"
  have o: "seg_vaddr slide ph + ?n \<le> 2 ^ 47" "p_filesz ph \<le> p_memsz ph" "unat (p_offset ph) + unat (p_filesz ph) \<le> length bytes"
    using ok(1) True by (simp_all add: seg_ok_def)
  note sv = seg_vaddr_word [OF ok(1) True]
  have nv: "unat ?v + ?n \<le> 2 ^ 47" using o(1) sv by simp
  note pr = page_range [OF nv refl]
  have pq: "?p \<le> ?q" "?q \<le> 2 ^ 35" using nv by (auto intro: div_le_mono)
  have len: "unat (?e - ?a) = 4096 * (?q - ?p)"
    using pr pq(1) by (simp add: unat_sub word_le_nat_alt diff_mult_distrib2)
  have lohi: "seg_lo slide ph = 4096 * ?p" "seg_hi slide ph = 4096 * (?p + (?q - ?p))" using pq(1) by (simp_all add: seg_lo_def seg_hi_def sv)
  have i0: "user_img m0 B hh s root F (set_range g (4096 * ?p) (4096 * (?p + 0)))" using i by simp
  obtain e s1 F1 where mp: "map_pages sp ?a (?e - ?a) (seg_pte_flags ph) 0 s = Some (e, s1)"
    "load_post m0 B hh root F (seg_room slide ph) e s1 F1 (set_range g (seg_lo slide ph) (seg_hi slide ph))"
  proof -
    have room: "seg_room slide ph = 4096 * (?q - ?p - 0)" using True lohi by (simp add: seg_room_def)
    have b: "?p + (?q - ?p) \<le> 2 ^ 35" and z: "of_nat (4096 * 0) = (0 :: u64)" using pq by simp_all
    from map_pages_law [OF r seg_flags_mask [of ph] pr(1) len b le0 i0, unfolded z] show ?thesis
      using that unfolding room lohi by blast
  qed
  let ?vm = "add_vma vm ?a ?e (seg_vma_flags ph)"
  show ?thesis
  proof (cases e)
    case (Some err)
    then have "load_segment bytes slide sp ph s vm = Some (Some err, s1, vm)"
      using True mp(1) by (simp add: load_segment_def loads_def PAGE_SIZE_def Let_def)
    then show ?thesis using mp(2) Some by (auto simp: load_post_def)
  next
    case None
    let ?g = "set_range g (seg_lo slide ph) (seg_hi slide ph)" and ?src = "seg_bytes bytes ph"
    have i1: "user_img m0 B hh s1 root F1 ?g" using mp(2) None by (simp add: load_post_def)
    note sl = slice_bytes [OF o(3) ok(2) refl]
    have lsrc: "length ?src = unat (p_filesz ph)" using o(3) by (simp add: seg_bytes_def)
    have le: "unat (p_filesz ph) \<le> ?n" using o(2) by (simp add: word_le_nat_alt)
    have "?g (?v + of_nat j) \<noteq> None" if "j < length ?src" for j
    proof -
      have "unat (?v + of_nat j) = unat ?v + j" using that lsrc le nv by (intro unat_plus_of_nat) simp
      moreover have "4096 * ?p \<le> unat ?v" "unat ?v + ?n \<le> 4096 * ?q"
        using dividend_less_times_div [of 4096 "unat ?v + ?n + 4095"] by simp_all
      then have "4096 * ?p \<le> unat ?v + j" "unat ?v + j < 4096 * (?p + (?q - ?p))"
        unfolding le_add_diff_inverse [OF pq(1)] using that lsrc le by linarith+
      ultimately show ?thesis by (simp add: set_range_def lohi del: le_add_diff_inverse)
    qed
    then obtain s2 where c: "copy_segment sp ?v ?src 0 s1 = (True, s2)" "user_img m0 B hh s2 root F1 (put_at ?g ?v ?src)"
      using copy_segment_law [OF r _ i1, of ?v ?src 0] nv lsrc le by auto
    have call: "load_segment bytes slide sp ph s vm = Some (None, if p_filesz ph = 0 then s1 else s2, ?vm)"
      using True mp(1) None sl o(3) c(1) by (simp add: load_segment_def loads_def PAGE_SIZE_def Let_def seg_bytes_def)
    have "user_img m0 B hh (if p_filesz ph = 0 then s1 else s2) root F1 (load_img bytes slide ph g)"
      using c(2) i1 True lsrc by (simp add: load_img_def put_at_def)
    then have "load_post m0 B hh root F (seg_room slide ph) None (if p_filesz ph = 0 then s1 else s2) F1 (load_img bytes slide ph g)"
      using mp(2) None by (simp add: load_post_def)
    then show ?thesis using call by blast
  qed
qed

lemma load_segments_law:
  assumes r: "root = pml4_phys sp" and len: "length bytes < 2 ^ 63"
  shows "\<forall>ph\<in>set phs. seg_ok bytes slide ph \<Longrightarrow> user_img m0 B hh s root F g \<Longrightarrow>
    \<exists>e s' vm' F'. load_segments bytes slide sp phs s vm = Some (e, s', vm') \<and>
      load_post m0 B hh root F (sum_list (map (seg_room slide) phs)) e s' F' (fold (load_img bytes slide) phs g)"
proof (induction phs arbitrary: s F g vm)
  case Nil
  then show ?case by (auto simp: load_post_def)
next
  case (Cons ph phs)
  let ?n = "sum_list (map (seg_room slide) phs)"
  obtain e s1 vm1 F1 where l: "load_segment bytes slide sp ph s vm = Some (e, s1, vm1)"
    "load_post m0 B hh root F (seg_room slide ph) e s1 F1 (load_img bytes slide ph g)"
    using load_segment_law [OF r _ len Cons(3), of slide ph vm] Cons(2) by auto
  show ?case
  proof (cases e)
    case (Some err)
    then have "load_post m0 B hh root F (sum_list (map (seg_room slide) (ph # phs))) e s1 F1 (fold (load_img bytes slide) (ph # phs) g)"
      using l(2) by (auto simp: load_post_def)
    then show ?thesis using l(1) Some by auto
  next
    case None
    then have i1: "user_img m0 B hh s1 root F1 (load_img bytes slide ph g)" using l(2) by (simp add: load_post_def)
    obtain e2 s2 vm2 F2 where l2: "load_segments bytes slide sp phs s1 vm1 = Some (e2, s2, vm2)"
      "load_post m0 B hh root F1 ?n e2 s2 F2 (fold (load_img bytes slide) phs (load_img bytes slide ph g))"
      using Cons(1) [OF _ i1, of vm1] Cons(2) by auto
    then show ?thesis using l(1) None load_post_trans [OF l(2) [unfolded None] l2(2)] by auto
  qed
qed

section \<open>The image of a program\<close>

definition seg_byte :: "u8 list \<Rightarrow> u64 \<Rightarrow> elf64_phdr \<Rightarrow> nat \<Rightarrow> u8" where
  "seg_byte bytes slide ph n =
     (if seg_vaddr slide ph \<le> n \<and> n < seg_vaddr slide ph + unat (p_filesz ph)
      then bytes ! (unat (p_offset ph) + (n - seg_vaddr slide ph)) else 0)"

lemma seg_range:
  assumes "seg_ok bytes slide ph" "loads ph"
  shows "seg_lo slide ph \<le> seg_vaddr slide ph" "seg_vaddr slide ph + unat (p_memsz ph) \<le> seg_hi slide ph" "seg_hi slide ph \<le> 2 ^ 47"
    "unat (p_filesz ph) \<le> unat (p_memsz ph)"
proof -
  show "seg_lo slide ph \<le> seg_vaddr slide ph" by (simp add: seg_lo_def)
  show "seg_vaddr slide ph + unat (p_memsz ph) \<le> seg_hi slide ph"
    using dividend_less_times_div [of 4096 "seg_vaddr slide ph + unat (p_memsz ph) + 4095"] by (simp add: seg_hi_def)
  show "unat (p_filesz ph) \<le> unat (p_memsz ph)" using assms by (simp add: seg_ok_def word_le_nat_alt)
  have "(seg_vaddr slide ph + unat (p_memsz ph) + 4095) div 4096 \<le> 2 ^ 35"
    using assms div_le_mono [of "seg_vaddr slide ph + unat (p_memsz ph) + 4095" "2 ^ 47 + 4095" 4096] by (simp add: seg_ok_def)
  then show "seg_hi slide ph \<le> 2 ^ 47" by (simp add: seg_hi_def)
qed

lemma load_img_at:
  assumes ok: "seg_ok bytes slide ph" "loads ph"
  shows "load_img bytes slide ph g v =
    (if seg_lo slide ph \<le> unat v \<and> unat v < seg_hi slide ph then Some (seg_byte bytes slide ph (unat v)) else g v)"
proof -
  let ?a = "seg_vaddr slide ph" and ?n = "unat (p_filesz ph)"
  note r = seg_range [OF ok] and sv = seg_vaddr_word [OF ok]
  have o: "unat (p_offset ph) + ?n \<le> length bytes" using ok by (simp add: seg_ok_def)
  then have len: "length (seg_bytes bytes ph) = ?n" by (simp add: seg_bytes_def)
  have inr: "unat (v - (p_vaddr ph + slide)) < ?n \<longleftrightarrow> ?a \<le> unat v \<and> unat v < ?a + ?n"
    using unat_diff_span [of "p_vaddr ph + slide" ?n v] sv r by (simp add: span_def)
  show ?thesis
  proof (cases "?a \<le> unat v \<and> unat v < ?a + ?n")
    case True
    have "unat (v - (p_vaddr ph + slide)) = unat v - ?a" using True sv by (simp add: unat_sub word_le_nat_alt)
    moreover have d: "unat v - ?a < ?n" using True by linarith
    have "seg_bytes bytes ph ! (unat v - ?a) = bytes ! (unat (p_offset ph) + (unat v - ?a))"
      unfolding seg_bytes_def nth_take [OF d] by (rule nth_drop) (use o in simp)
    ultimately show ?thesis using True ok(2) inr len r by (simp add: load_img_def put_at_def seg_byte_def)
  next
    case False
    then show ?thesis using ok(2) inr len by (auto simp: load_img_def put_at_def seg_byte_def set_range_def)
  qed
qed

definition apart :: "u64 \<Rightarrow> elf64_phdr \<Rightarrow> elf64_phdr \<Rightarrow> bool" where
  "apart slide p q \<longleftrightarrow> loads p \<and> loads q \<longrightarrow> seg_hi slide p \<le> seg_lo slide q \<or> seg_hi slide q \<le> seg_lo slide p"

lemma fold_load_other:
  assumes "\<forall>ph\<in>set phs. seg_ok bytes slide ph" "\<forall>ph\<in>set phs. loads ph \<longrightarrow> \<not> (seg_lo slide ph \<le> unat v \<and> unat v < seg_hi slide ph)"
  shows "fold (load_img bytes slide) phs g v = g v"
  using assms
proof (induction phs arbitrary: g)
  case (Cons ph phs)
  have "load_img bytes slide ph g v = g v"
    using Cons(2,3) load_img_at [of bytes slide ph g v] by (cases "loads ph") (auto simp: load_img_def)
  then show ?case using Cons by simp
qed simp

lemma fold_load_at:
  assumes "\<forall>ph\<in>set phs. seg_ok bytes slide ph" "sorted_wrt (apart slide) phs" "ph \<in> set phs" "loads ph"
    "seg_lo slide ph \<le> unat v" "unat v < seg_hi slide ph"
  shows "fold (load_img bytes slide) phs g v = Some (seg_byte bytes slide ph (unat v))"
  using assms
proof (induction phs arbitrary: g)
  case (Cons p phs)
  show ?case
  proof (cases "ph = p")
    case True
    have "\<not> (seg_lo slide q \<le> unat v \<and> unat v < seg_hi slide q)" if "q \<in> set phs" "loads q" for q
      using Cons(3,5-7) that True by (auto simp: apart_def)
    then have "fold (load_img bytes slide) phs (load_img bytes slide p g) v = load_img bytes slide p g v"
      using Cons(2) by (intro fold_load_other) auto
    then show ?thesis using load_img_at [of bytes slide p g v] Cons(2,5-7) True by simp
  next
    case False
    then show ?thesis using Cons by simp
  qed
qed simp

section \<open>Files that load\<close>

definition elf_slide :: "elf64_ehdr \<Rightarrow> u64 \<Rightarrow> u64" where
  "elf_slide eh pie_base = (if e_type eh = ET_DYN then pie_base else 0)"

definition elf_header :: "(u64 \<Rightarrow> u8) \<Rightarrow> u8 list \<Rightarrow> elf64_ehdr" where
  "elf_header beyond bytes = read_ehdr (elf_view beyond bytes)"

definition elf_segments :: "(u64 \<Rightarrow> u8) \<Rightarrow> u8 list \<Rightarrow> elf64_phdr list" where
  "elf_segments beyond bytes = filter loads (read_phdrs (elf_view beyond bytes) (elf_header beyond bytes))"

definition elf_ok :: "(u64 \<Rightarrow> u8) \<Rightarrow> u8 list \<Rightarrow> u64 \<Rightarrow> bool" where
  "elf_ok beyond bytes pie_base \<longleftrightarrow>
     64 \<le> length bytes \<and> length bytes < 2 ^ 63 \<and>
     (let m = elf_view beyond bytes; eh = read_ehdr m; phs = read_phdrs m eh; slide = elf_slide eh pie_base
      in check_ehdr eh = None \<and> e_phentsize eh = 56 \<and> unat (e_phoff eh) + 56 * unat (e_phnum eh) \<le> length bytes \<and>
         list_all (seg_ok bytes slide) phs \<and> sorted_wrt (apart slide) phs)"

definition elf_static :: "(u64 \<Rightarrow> u8) \<Rightarrow> u8 list \<Rightarrow> bool" where
  "elf_static beyond bytes \<longleftrightarrow> list_all (\<lambda>ph. p_type ph \<noteq> PT_INTERP) (read_phdrs (elf_view beyond bytes) (elf_header beyond bytes))"

lemma scan_phdrs_ok:
  assumes "length bytes < 2 ^ 63"
  shows "\<forall>ph\<in>set phs. seg_ok bytes slide ph \<Longrightarrow> \<exists>sc'. scan_phdrs bytes slide phs sc = Some (Inr sc') \<and>
    (interp_path sc' = None \<longleftrightarrow> interp_path sc = None \<and> list_all (\<lambda>ph. p_type ph \<noteq> PT_INTERP) phs)"
proof (induction phs arbitrary: sc)
  case (Cons ph phs)
  have "\<exists>sc1. scan_phdr bytes slide ph sc = Some (Inr sc1) \<and> (interp_path sc1 = None \<longleftrightarrow> interp_path sc = None \<and> p_type ph \<noteq> PT_INTERP)"
  proof (cases "p_type ph = PT_INTERP")
    case True
    then have o: "unat (p_offset ph) + unat (p_filesz ph) \<le> length bytes" using Cons(2) by (simp add: seg_ok_def)
    show ?thesis using True slice_bytes [OF o assms refl] o
      by (simp add: scan_phdr_def PT_LOAD_def PT_PHDR_def PT_INTERP_def)
  qed (auto simp: scan_phdr_def Let_def)
  then obtain sc1 where sc1: "scan_phdr bytes slide ph sc = Some (Inr sc1)"
    "(interp_path sc1 = None) = (interp_path sc = None \<and> p_type ph \<noteq> PT_INTERP)" by (elim exE conjE)
  then show ?case using Cons(1) [of sc1] Cons(2) by auto
qed simp

lemma load_elf_law:
  assumes r: "root = pml4_phys sp" and ok: "elf_ok beyond bytes pie_base" and i: "user_img m0 B hh s root F g"
  defines "eh \<equiv> read_ehdr (elf_view beyond bytes)"
  defines "slide \<equiv> elf_slide eh pie_base" and "phs \<equiv> read_phdrs (elf_view beyond bytes) eh"
  shows "\<exists>r s' vm' F'. load_elf beyond bytes sp pie_base s vm = Some (r, s', vm') \<and>
    load_post m0 B hh root F (sum_list (map (seg_room slide) phs)) (case r of Inl e \<Rightarrow> Some e | Inr l \<Rightarrow> None) s' F'
      (fold (load_img bytes slide) phs g) \<and>
    (case r of Inl e \<Rightarrow> True | Inr l \<Rightarrow> le_entry l = e_entry eh + slide \<and> (le_interp_path l = None \<longleftrightarrow> elf_static beyond bytes))"
proof -
  have o: "64 \<le> length bytes" "length bytes < 2 ^ 63" "check_ehdr eh = None" "e_phentsize eh = 56"
    "unat (e_phoff eh) + 56 * unat (e_phnum eh) \<le> length bytes" "\<forall>ph\<in>set phs. seg_ok bytes slide ph"
    using ok by (simp_all add: elf_ok_def Let_def eh_def slide_def phs_def list_all_iff)
  have "unat (ucast (e_phnum eh) :: u64) = unat (e_phnum eh)"
    unfolding unsigned_ucast_eq by (rule take_bit_nat_eq_self) (use unsigned_less [where 'b = 16 and 'a = nat, of "e_phnum eh"] in simp)
  then have "unat (ucast (e_phnum eh) * ucast (e_phentsize eh) :: u64) = 56 * unat (e_phnum eh)"
    using o(2,4,5) by (simp add: unat_word_ariths)
  then have tab: "\<not> length bytes < unat (e_phoff eh + ucast (e_phnum eh) * ucast (e_phentsize eh))"
    using o(2,5) by (simp add: unat_word_ariths)
  obtain sc where sc: "scan_phdrs bytes slide phs \<lparr>load_min = -1, load_max = 0, phdr_vaddr = 0, interp_path = None, stack_exec = False\<rparr> = Some (Inr sc)"
    "interp_path sc = None \<longleftrightarrow> elf_static beyond bytes"
    using scan_phdrs_ok [OF o(2,6)] unfolding elf_static_def elf_header_def phs_def eh_def by fastforce
  obtain e s1 vm1 F1 where l: "load_segments bytes slide sp phs s vm = Some (e, s1, vm1)"
    "load_post m0 B hh root F (sum_list (map (seg_room slide) phs)) e s1 F1 (fold (load_img bytes slide) phs g)"
    using load_segments_law [OF r o(2,6) i] by blast
  show ?thesis
  proof (cases e)
    case None
    then show ?thesis using l o(1,3) tab sc unfolding load_elf_def
      by (auto simp: Let_def eh_def slide_def phs_def elf_slide_def)
  next
    case (Some err)
    then show ?thesis using l o(1,3) tab sc unfolding load_elf_def
      by (auto simp: Let_def eh_def slide_def phs_def elf_slide_def)
  qed
qed

text \<open>What the loaded image holds, read through the translation.\<close>

lemma elf_fold_at:
  assumes ok: "elf_ok beyond bytes pie_base" "slide = elf_slide (elf_header beyond bytes) pie_base"
  defines "g \<equiv> fold (load_img bytes slide) (read_phdrs (elf_view beyond bytes) (elf_header beyond bytes)) (\<lambda>_. None)"
  shows "ph \<in> set (elf_segments beyond bytes) \<Longrightarrow> i < unat (p_memsz ph) \<Longrightarrow>
      g (p_vaddr ph + slide + of_nat i) = Some (if i < unat (p_filesz ph) then bytes ! (unat (p_offset ph) + i) else 0) \<and>
      unat (p_vaddr ph + slide + of_nat i) < seg_hi slide ph \<and> seg_hi slide ph \<le> 2 ^ 47"
    and "\<forall>ph\<in>set (elf_segments beyond bytes). \<not> (seg_lo slide ph \<le> unat v \<and> unat v < seg_hi slide ph) \<Longrightarrow> g v = None"
proof -
  let ?phs = "read_phdrs (elf_view beyond bytes) (elf_header beyond bytes)"
  have o: "\<forall>ph\<in>set ?phs. seg_ok bytes slide ph" "sorted_wrt (apart slide) ?phs"
    using ok(1) unfolding ok(2) elf_header_def by (simp_all add: elf_ok_def Let_def list_all_iff)
  assume "\<forall>ph\<in>set (elf_segments beyond bytes). \<not> (seg_lo slide ph \<le> unat v \<and> unat v < seg_hi slide ph)"
  then show "g v = None" unfolding g_def using fold_load_other [OF o(1), of v] by (auto simp: elf_segments_def)
next
  let ?phs = "read_phdrs (elf_view beyond bytes) (elf_header beyond bytes)"
  have o: "\<forall>ph\<in>set ?phs. seg_ok bytes slide ph" "sorted_wrt (apart slide) ?phs"
    using ok(1) unfolding ok(2) elf_header_def by (simp_all add: elf_ok_def Let_def list_all_iff)
  assume ph: "ph \<in> set (elf_segments beyond bytes)" "i < unat (p_memsz ph)"
  then have s: "ph \<in> set ?phs" "loads ph" "seg_ok bytes slide ph" using o(1) by (auto simp: elf_segments_def)
  note sr = seg_range [OF s(3,2)] and sv = seg_vaddr_word [OF s(3,2)]
  have u: "unat (p_vaddr ph + slide + of_nat i) = seg_vaddr slide ph + i"
    unfolding sv [symmetric] by (rule unat_plus_of_nat) (use sv sr ph(2) in simp)
  have "g (p_vaddr ph + slide + of_nat i) = Some (seg_byte bytes slide ph (seg_vaddr slide ph + i))"
    unfolding g_def using fold_load_at [OF o s(1,2), of "p_vaddr ph + slide + of_nat i"] sr u ph(2) by simp
  then show "g (p_vaddr ph + slide + of_nat i) = Some (if i < unat (p_filesz ph) then bytes ! (unat (p_offset ph) + i) else 0) \<and>
      unat (p_vaddr ph + slide + of_nat i) < seg_hi slide ph \<and> seg_hi slide ph \<le> 2 ^ 47"
    using u sr ph(2) by (auto simp: seg_byte_def)
qed

lemma elf_image_at:
  assumes ok: "elf_ok beyond bytes pie_base" "slide = elf_slide (elf_header beyond bytes) pie_base"
    and g: "user_img m0 B hh s' (pml4_phys sp) F' (fold (load_img bytes slide) (read_phdrs (elf_view beyond bytes) (elf_header beyond bytes)) (\<lambda>_. None))"
  shows "\<forall>ph\<in>set (elf_segments beyond bytes). \<forall>i<unat (p_memsz ph). \<exists>p. translate s' sp (p_vaddr ph + slide + of_nat i) = Some p \<and>
      ram s' p = (if i < unat (p_filesz ph) then bytes ! (unat (p_offset ph) + i) else 0)"
    and "\<forall>v. unat v < 2 ^ 47 \<longrightarrow> (\<forall>ph\<in>set (elf_segments beyond bytes). \<not> (seg_lo slide ph \<le> unat v \<and> unat v < seg_hi slide ph)) \<longrightarrow>
      translate s' sp v = None"
proof -
  note f = elf_fold_at [OF ok]
  note val = user_imgD(7) [OF g, folded translate_lookup [of s']]
  have "\<exists>p. translate s' sp (p_vaddr ph + slide + of_nat i) = Some p \<and>
      ram s' p = (if i < unat (p_filesz ph) then bytes ! (unat (p_offset ph) + i) else 0)"
    if ph: "ph \<in> set (elf_segments beyond bytes)" "i < unat (p_memsz ph)" for ph i
    using f(1) [OF ph] val [of "p_vaddr ph + slide + of_nat i"] by fastforce
  then show "\<forall>ph\<in>set (elf_segments beyond bytes). \<forall>i<unat (p_memsz ph). \<exists>p. translate s' sp (p_vaddr ph + slide + of_nat i) = Some p \<and>
      ram s' p = (if i < unat (p_filesz ph) then bytes ! (unat (p_offset ph) + i) else 0)" by blast
  have "translate s' sp v = None"
    if v: "unat v < 2 ^ 47" "\<forall>ph\<in>set (elf_segments beyond bytes). \<not> (seg_lo slide ph \<le> unat v \<and> unat v < seg_hi slide ph)" for v
    using val [OF v(1)] f(2) [OF v(2)] by simp
  then show "\<forall>v. unat v < 2 ^ 47 \<longrightarrow> (\<forall>ph\<in>set (elf_segments beyond bytes). \<not> (seg_lo slide ph \<le> unat v \<and> unat v < seg_hi slide ph)) \<longrightarrow>
      translate s' sp v = None" by blast
qed

end
