(* ===== verification/Exec.thy ===== *)
theory Exec
  imports Elf Mount
begin

text \<open>
  What \<open>load_elf\<close> promises \<open>proc/exec.rs\<close>, and the program \<open>/bin/hello\<close> of the boot file system as the example.
\<close>

unbundle bit_operations_syntax

definition PIE_BASE :: u64 where "PIE_BASE = 0x0000555555550000"

text \<open>C5: \<open>load_elf\<close> of a well-formed file into a fresh address space always returns, and succeeds when four
  frames per page of its segments are free; it fails only for want of frames. When it succeeds, every byte of every
  loadable segment is mapped and reads as the byte of the file, or as zero past the file's part; no other page of the
  user half is mapped; and the entry point is the file's, moved by the slide. In both cases no byte changes outside
  the memory that was free and the tables of the address space.\<close>
theorem load_elf_correct:
  assumes "free_space s F" "pt_inv (ram s) (pml4_phys sp) F" "\<forall>v. user_addr v \<longrightarrow> translate s sp v = None"
    and "elf_ok beyond bytes pie_base" "slide = elf_slide (elf_header beyond bytes) pie_base"
  shows "\<exists>r s' vm'. load_elf beyond bytes sp pie_base s vm = Some (r, s', vm') \<and>
    (\<forall>x. unat x \<notin> F \<union> tables (ram s) (pml4_phys sp) \<longrightarrow> ram s' x = ram s x) \<and>
    (case r of
       Inl e \<Rightarrow> (e = AllocFailed \<or> e = MappingFailed) \<and> free_space s' {} \<and>
         card F \<le> 4 * sum_list (map (seg_room slide) (elf_segments beyond bytes))
     | Inr l \<Rightarrow> le_entry l = e_entry (elf_header beyond bytes) + slide \<and>
         (\<forall>ph\<in>set (elf_segments beyond bytes). \<forall>i<unat (p_memsz ph).
            \<exists>p. translate s' sp (p_vaddr ph + slide + of_nat i) = Some p \<and>
              ram s' p = (if i < unat (p_filesz ph) then bytes ! (unat (p_offset ph) + i) else 0)) \<and>
         (\<forall>v. unat v < 2 ^ 47 \<longrightarrow>
            (\<forall>ph\<in>set (elf_segments beyond bytes). \<not> (seg_lo slide ph \<le> unat v \<and> unat v < seg_hi slide ph)) \<longrightarrow>
            translate s' sp v = None))"
proof -
  let ?root = "pml4_phys sp" and ?phs = "read_phdrs (elf_view beyond bytes) (elf_header beyond bytes)"
  let ?B = "F \<union> tables (ram s) (pml4_phys sp)"
  have i: "user_img (ram s) ?B (hhdm s) s ?root F (\<lambda>_. None)"
    using assms(3) by (intro user_img_empty [OF assms(1,2)]) (simp add: translate_lookup)
  obtain r s' vm' F' where l: "load_elf beyond bytes sp pie_base s vm = Some (r, s', vm')"
    "load_post (ram s) ?B (hhdm s) ?root F (sum_list (map (seg_room slide) ?phs)) (case r of Inl e \<Rightarrow> Some e | Inr l \<Rightarrow> None) s' F'
      (fold (load_img bytes slide) ?phs (\<lambda>_. None))"
    "case r of Inl e \<Rightarrow> True | Inr l \<Rightarrow> le_entry l = e_entry (elf_header beyond bytes) + slide"
    using load_elf_law [OF refl assms(4) i, of vm] unfolding assms(5) elf_header_def by (fastforce split: sum.splits)
  have room: "sum_list (map (seg_room slide) ?phs) = sum_list (map (seg_room slide) (elf_segments beyond bytes))"
    unfolding elf_segments_def by (rule sym, rule sum_list_map_filter) (simp add: seg_room_def)
  show ?thesis
  proof (cases r)
    case (Inl e)
    then obtain g' where g: "user_img (ram s) ?B (hhdm s) s' ?root {} g'" "e = AllocFailed \<or> e = MappingFailed"
      "card F \<le> 4 * sum_list (map (seg_room slide) ?phs)"
      using l(2) by (auto simp: load_post_def)
    show ?thesis using l(1) Inl g(2,3) room user_imgD(1) [OF g(1)] user_imgD(5) [OF g(1)] by auto
  next
    case (Inr e)
    then have g: "user_img (ram s) ?B (hhdm s) s' ?root F' (fold (load_img bytes slide) ?phs (\<lambda>_. None))"
      and en: "le_entry e = e_entry (elf_header beyond bytes) + slide" using l(2,3) by (auto simp: load_post_def)
    note im = elf_image_at [OF assms(4,5) g]
    show ?thesis using l(1) Inr en im user_imgD(5) [OF g] by auto
  qed
qed

text \<open>The program \<open>/bin/hello\<close> of the boot file system.\<close>

lemma hello_bytes:
  "load_bytes (elf_view (\<lambda>_. 0) HELLO_ELF) 0 16 = [127, 69, 76, 70, 2, 1, 1, 0, 0, 0, 0, 0, 0, 0, 0, 0]"
  "load_bytes (elf_view (\<lambda>_. 0) HELLO_ELF) 16 2 = [2, 0]" "load_bytes (elf_view (\<lambda>_. 0) HELLO_ELF) 18 2 = [62, 0]"
  "load_bytes (elf_view (\<lambda>_. 0) HELLO_ELF) 24 8 = [0x78, 0, 0x40, 0, 0, 0, 0, 0]"
  "load_bytes (elf_view (\<lambda>_. 0) HELLO_ELF) 32 8 = [64, 0, 0, 0, 0, 0, 0, 0]"
  "load_bytes (elf_view (\<lambda>_. 0) HELLO_ELF) 54 2 = [56, 0]" "load_bytes (elf_view (\<lambda>_. 0) HELLO_ELF) 56 2 = [1, 0]"
  "load_bytes (elf_view (\<lambda>_. 0) HELLO_ELF) 64 4 = [1, 0, 0, 0]" "load_bytes (elf_view (\<lambda>_. 0) HELLO_ELF) 72 8 = [0, 0, 0, 0, 0, 0, 0, 0]"
  "load_bytes (elf_view (\<lambda>_. 0) HELLO_ELF) 80 8 = [0, 0, 0x40, 0, 0, 0, 0, 0]"
  "load_bytes (elf_view (\<lambda>_. 0) HELLO_ELF) 96 8 = [0xa9, 0, 0, 0, 0, 0, 0, 0]"
  "load_bytes (elf_view (\<lambda>_. 0) HELLO_ELF) 104 8 = [0xa9, 0, 0, 0, 0, 0, 0, 0]"
  by code_simp+

lemma hello_length: "length HELLO_ELF = 169"
  by (simp add: HELLO_ELF_def)

definition hello_segment :: elf64_phdr where
  "hello_segment = read_phdr (elf_view (\<lambda>_. 0) HELLO_ELF) 64"

lemma hello_segment_fields:
  "p_type hello_segment = 1" "p_offset hello_segment = 0" "p_vaddr hello_segment = 0x400000"
  "p_filesz hello_segment = 0xa9" "p_memsz hello_segment = 0xa9"
  unfolding hello_segment_def read_phdr_def by (simp_all add: rd_def hello_bytes)

lemma hello_header_fields:
  "check_ehdr (elf_header (\<lambda>_. 0) HELLO_ELF) = None" "e_phentsize (elf_header (\<lambda>_. 0) HELLO_ELF) = 56"
  "e_phoff (elf_header (\<lambda>_. 0) HELLO_ELF) = 64" "e_phnum (elf_header (\<lambda>_. 0) HELLO_ELF) = 1"
  "e_entry (elf_header (\<lambda>_. 0) HELLO_ELF) = 0x400078" "elf_slide (elf_header (\<lambda>_. 0) HELLO_ELF) base = 0"
  unfolding elf_header_def read_ehdr_def
  by (simp_all add: rd_def hello_bytes check_ehdr_def ELFMAG_def ELFCLASS64_def ELFDATA2LSB_def ET_EXEC_def ET_DYN_def EM_X86_64_def elf_slide_def)

lemma hello_phdrs: "read_phdrs (elf_view (\<lambda>_. 0) HELLO_ELF) (elf_header (\<lambda>_. 0) HELLO_ELF) = [hello_segment]"
  by (simp add: read_phdrs_def hello_header_fields hello_segment_def)

lemma hello_loads: "loads hello_segment" "seg_lo 0 hello_segment = 0x400000" "seg_hi 0 hello_segment = 0x401000"
  by (simp_all add: loads_def PT_LOAD_def hello_segment_fields seg_lo_def seg_hi_def seg_vaddr_def)

lemma hello_ok: "elf_ok (\<lambda>_. 0) HELLO_ELF base"
proof -
  have "seg_ok HELLO_ELF 0 hello_segment"
    by (simp add: seg_ok_def hello_segment_fields seg_vaddr_def hello_length PT_INTERP_def)
  then show ?thesis
    unfolding elf_ok_def Let_def elf_header_def [symmetric] hello_phdrs
    by (simp add: hello_header_fields hello_length)
qed

theorem load_elf_correct_witness:
  "\<exists>l s' vm' p. load_elf (\<lambda>_. 0) HELLO_ELF example_sp PIE_BASE example_mem8 vm_new = Some (Inr l, s', vm') \<and>
     le_entry l = 0x400078 \<and> translate s' example_sp 0x400078 = Some p \<and> ram s' p = 0x48 \<and> translate s' example_sp 0x500000 = None"
proof -
  have segs: "elf_segments (\<lambda>_. 0) HELLO_ELF = [hello_segment]" by (simp add: elf_segments_def hello_phdrs hello_loads)
  have fresh: "\<forall>v. user_addr v \<longrightarrow> translate example_mem8 example_sp v = None"
    using example_space_facts(3) by (simp add: translate_lookup)
  obtain r s' vm' where r: "load_elf (\<lambda>_. 0) HELLO_ELF example_sp PIE_BASE example_mem8 vm_new = Some (r, s', vm')"
    "case r of Inl e \<Rightarrow> card example_free \<le> 4 * seg_room 0 hello_segment
     | Inr l \<Rightarrow> le_entry l = 0x400078 \<and>
         (\<forall>i<169. \<exists>p. translate s' example_sp (0x400000 + of_nat i) = Some p \<and> ram s' p = HELLO_ELF ! i) \<and>
         (\<forall>v. unat v < 2 ^ 47 \<longrightarrow> \<not> (0x400000 \<le> unat v \<and> unat v < 0x401000) \<longrightarrow> translate s' example_sp v = None)"
    using load_elf_correct [OF example_free_space example_space_facts(1) fresh hello_ok refl, of PIE_BASE vm_new]
    unfolding segs hello_header_fields by (fastforce simp: hello_loads hello_segment_fields split: sum.splits)
  have "seg_room 0 hello_segment = 4096" by (simp add: seg_room_def hello_loads)
  then obtain l where l: "r = Inr l" using r(2) by (cases r) auto
  have "\<forall>i<169. \<exists>p. translate s' example_sp (0x400000 + of_nat i) = Some p \<and> ram s' p = HELLO_ELF ! i" using r(2) l by simp
  from this [rule_format, of 120] obtain p where "translate s' example_sp 0x400078 = Some p" "ram s' p = HELLO_ELF ! 120" by auto
  moreover have "HELLO_ELF ! 120 = 0x48" by code_simp
  moreover have "translate s' example_sp 0x500000 = None" using r(2) l by simp
  ultimately show ?thesis using r l by auto
qed

end
