(* ===== verification/Ustack.thy ===== *)
theory Ustack
  imports Elf
begin

text \<open>
  The initial stack of a program (\<open>proc/stack.rs\<close>): the model of \<open>build_user_stack\<close> and of the unused
  \<open>StackBuilder\<close>, a reference layout of strings and words below the top of the stack, and the proof that the
  code's sequence of writes through the page tables leaves that layout in the program's memory.
\<close>

unbundle bit_operations_syntax

section \<open>Constants\<close>

definition AT_NULL :: u64 where "AT_NULL = 0"
definition AT_PHDR :: u64 where "AT_PHDR = 3"
definition AT_PHENT :: u64 where "AT_PHENT = 4"
definition AT_PHNUM :: u64 where "AT_PHNUM = 5"
definition AT_PAGESZ :: u64 where "AT_PAGESZ = 6"
definition AT_BASE :: u64 where "AT_BASE = 7"
definition AT_FLAGS :: u64 where "AT_FLAGS = 8"
definition AT_ENTRY :: u64 where "AT_ENTRY = 9"
definition AT_UID :: u64 where "AT_UID = 11"
definition AT_EUID :: u64 where "AT_EUID = 12"
definition AT_GID :: u64 where "AT_GID = 13"
definition AT_EGID :: u64 where "AT_EGID = 14"
definition AT_RANDOM :: u64 where "AT_RANDOM = 25"
definition AT_EXECFN :: u64 where "AT_EXECFN = 31"

definition USER_STACK_TOP :: u64 where "USER_STACK_TOP = 0x00007FFFFFFF0000"
definition USER_STACK_SIZE :: u64 where "USER_STACK_SIZE = 8 * 1024 * 1024"
definition USER_STACK_BOTTOM :: u64 where "USER_STACK_BOTTOM = USER_STACK_TOP - USER_STACK_SIZE"

section \<open>The builder for a contiguous stack\<close>

record stack_builder =
  sb_kernel_ptr :: u64
  sb_user_ptr :: u64
  sb_size :: u64
  sb_phys_base :: u64

definition alloc_stack_frames :: "kmem \<Rightarrow> u64 \<Rightarrow> (u64 \<times> kmem) option" where
  "alloc_stack_frames s sz = alloc_zeroed_frame s"

definition stack_builder_new :: "kmem \<Rightarrow> stack_builder option \<times> kmem" where
  "stack_builder_new s =
     (case alloc_zeroed_frame s of
        None \<Rightarrow> (None, s)
      | Some (_, s1) \<Rightarrow>
          (case alloc_stack_frames s1 USER_STACK_SIZE of
             None \<Rightarrow> (None, s1)
           | Some (phys_base, s2) \<Rightarrow>
               (Some \<lparr>sb_kernel_ptr = phys_to_virt (hhdm s2) phys_base + USER_STACK_SIZE, sb_user_ptr = USER_STACK_TOP,
                      sb_size = USER_STACK_SIZE, sb_phys_base = phys_base\<rparr>, s2)))"

definition push_bytes :: "u8 list \<Rightarrow> stack_builder \<Rightarrow> kmem \<Rightarrow> u64 \<times> stack_builder \<times> kmem" where
  "push_bytes bytes b s =
     (let b1 = b\<lparr>sb_kernel_ptr := sb_kernel_ptr b - of_nat (length bytes), sb_user_ptr := sb_user_ptr b - of_nat (length bytes)\<rparr>
      in (sb_user_ptr b1, b1, s\<lparr>ram := store_bytes (ram s) (virt_to_phys (hhdm s) (sb_kernel_ptr b1)) bytes\<rparr>))"

definition push_str :: "u8 list \<Rightarrow> stack_builder \<Rightarrow> kmem \<Rightarrow> u64 \<times> stack_builder \<times> kmem" where
  "push_str bytes b s = (case push_bytes [0] b s of (_, b1, s1) \<Rightarrow> push_bytes bytes b1 s1)"

definition stack_align :: "u64 \<Rightarrow> stack_builder \<Rightarrow> stack_builder" where
  "stack_align al b =
     (let misalign = sb_user_ptr b mod al
      in if misalign \<noteq> 0
         then let pad = al - misalign in b\<lparr>sb_kernel_ptr := sb_kernel_ptr b - pad, sb_user_ptr := sb_user_ptr b - pad\<rparr>
         else b)"

definition push_u64 :: "u64 \<Rightarrow> stack_builder \<Rightarrow> kmem \<Rightarrow> u64 \<times> stack_builder \<times> kmem" where
  "push_u64 val b s =
     (let b1 = b\<lparr>sb_kernel_ptr := sb_kernel_ptr b - 8, sb_user_ptr := sb_user_ptr b - 8\<rparr>
      in (sb_user_ptr b1, b1, s\<lparr>ram := store64 (ram s) (virt_to_phys (hhdm s) (sb_kernel_ptr b1)) val\<rparr>))"

section \<open>The stack of a new program\<close>

text \<open>\<open>map_user_stack\<close> commits the top 64 KiB; the result of \<open>map\<close> is not looked at.\<close>

definition stack_flags :: vma_flags where
  "stack_flags = VMA_READ OR VMA_WRITE OR VMA_GROWS_DOWN OR VMA_ANONYMOUS"

definition stack_pte_flags :: u64 where
  "stack_pte_flags = PTE_PRESENT OR PTE_WRITABLE OR PTE_USER OR PTE_NO_EXEC"

partial_function (option) commit_stack :: "address_space \<Rightarrow> u64 \<Rightarrow> kmem \<Rightarrow> (bool \<times> kmem) option" where
  "commit_stack sp vaddr s =
     (if vaddr < USER_STACK_TOP then
        (case alloc_zeroed_frame s of
           None \<Rightarrow> Some (False, s)
         | Some (phys, s1) \<Rightarrow> commit_stack sp (vaddr + PAGE_SIZE) (snd (map_page s1 sp vaddr phys stack_pte_flags)))
      else Some (True, s))"

definition map_user_stack :: "address_space \<Rightarrow> vm_space \<Rightarrow> kmem \<Rightarrow> (bool \<times> kmem \<times> vm_space) option" where
  "map_user_stack sp vm s =
     (let vm1 = add_vma vm USER_STACK_BOTTOM USER_STACK_TOP stack_flags;
          initial_committed = 64 * 1024;
          commit_start = USER_STACK_TOP - initial_committed
      in map_option (\<lambda>(ok, s1). (ok, s1, vm1)) (commit_stack sp commit_start s))"

function write_from :: "address_space \<Rightarrow> u64 \<Rightarrow> u8 list \<Rightarrow> nat \<Rightarrow> kmem \<Rightarrow> bool \<times> kmem" where
  "write_from sp virt bytes off s =
     (if off < length bytes then
        (let v = virt + of_nat off
         in case translate s sp v of
              None \<Rightarrow> (False, s)
            | Some phys \<Rightarrow>
                (let page_off = unat (v mod PAGE_SIZE);
                     avail = 4096 - page_off;
                     to_copy = min avail (length bytes - off);
                     dst = virt_to_phys (hhdm s) (phys_to_virt (hhdm s) phys)
                 in write_from sp virt bytes (off + to_copy)
                      (s\<lparr>ram := store_bytes (ram s) dst (take to_copy (drop off bytes))\<rparr>)))
      else (True, s))"
  by pat_completeness auto

termination
proof (relation "measure (\<lambda>(sp, v, bs, n, s). length bs - n)")
  fix sp :: address_space and v w phys :: u64 and bs :: "u8 list" and n page_off avail to_copy :: nat and s :: kmem and dst :: u64
  assume "n < length bs" "page_off = unat (w mod PAGE_SIZE)" "avail = 4096 - page_off" "to_copy = min avail (length bs - n)"
  moreover have "unat (w mod PAGE_SIZE) < 4096" by (simp add: PAGE_SIZE_def unat_mod)
  ultimately have "0 < to_copy" "n + to_copy \<le> length bs" by linarith+
  then show "((sp, v, bs, n + to_copy, s\<lparr>ram := store_bytes (ram s) dst (take to_copy (drop n bs))\<rparr>), sp, v, bs, n, s)
    \<in> measure (\<lambda>(sp, v, bs, n, s). length bs - n)" by simp
qed simp

declare write_from.simps [simp del]

definition write_at :: "address_space \<Rightarrow> u64 \<Rightarrow> u8 list \<Rightarrow> kmem \<Rightarrow> bool \<times> kmem" where
  "write_at sp virt bytes s = write_from sp virt bytes 0 s"

text \<open>
  The strings are written from the last to the first; \<open>write_strs\<close> takes the reversed list and returns the
  pointers in the order of the arguments, with the last cursor.
\<close>

fun write_strs :: "address_space \<Rightarrow> u8 list list \<Rightarrow> u64 list \<Rightarrow> u64 \<Rightarrow> kmem \<Rightarrow> (u64 list \<times> u64) option \<times> kmem" where
  "write_strs sp [] ptrs cursor s = (Some (rev ptrs, cursor), s)"
| "write_strs sp (arg # args) ptrs cursor s =
     (let cursor1 = cursor - of_nat (length arg + 1)
      in case write_at sp cursor1 arg s of
           (False, s1) \<Rightarrow> (None, s1)
         | (True, s1) \<Rightarrow> write_strs sp args (ptrs @ [cursor1]) cursor1 s1)"

text \<open>The \<open>push!\<close> macro, for a sequence of values.\<close>

fun push_all :: "address_space \<Rightarrow> u64 list \<Rightarrow> u64 \<Rightarrow> kmem \<Rightarrow> u64 option \<times> kmem" where
  "push_all sp [] rsp s = (Some rsp, s)"
| "push_all sp (val # vals) rsp s =
     (case write_at sp (rsp - 8) (to_le_bytes 8 val) s of
        (False, s1) \<Rightarrow> (None, s1)
      | (True, s1) \<Rightarrow> push_all sp vals (rsp - 8) s1)"

definition random_bytes :: "u8 list" where
  "random_bytes = [0xDE, 0xAD, 0xBE, 0xEF, 0xCA, 0xFE, 0xBA, 0xBE, 0x13, 0x37, 0x42, 0x00, 0x11, 0x22, 0x33, 0x44]"

definition auxv_pushes :: "loaded_elf \<Rightarrow> u64 \<Rightarrow> u64 \<Rightarrow> u64 list" where
  "auxv_pushes l execfn_ptr at_random_ptr =
     [0, AT_NULL, execfn_ptr, AT_EXECFN, at_random_ptr, AT_RANDOM, le_entry l, AT_ENTRY, 0, AT_FLAGS,
      le_load_base l, AT_BASE, PAGE_SIZE, AT_PAGESZ, ucast (le_phnum l), AT_PHNUM, ucast (le_phent l), AT_PHENT,
      le_phdr_vaddr l, AT_PHDR, 0, AT_EGID, 0, AT_GID, 0, AT_EUID, 0, AT_UID]"

definition build_user_stack ::
  "address_space \<Rightarrow> loaded_elf \<Rightarrow> u8 list list \<Rightarrow> u8 list list \<Rightarrow> u8 list \<Rightarrow> vm_space \<Rightarrow> kmem
   \<Rightarrow> (u64 option \<times> kmem \<times> vm_space) option" where
  "build_user_stack sp l argv envp execfn vm s =
     (case map_user_stack sp vm s of
        None \<Rightarrow> None
      | Some (False, s1, vm1) \<Rightarrow> Some (None, s1, vm1)
      | Some (True, s1, vm1) \<Rightarrow>
     let at_random_ptr = USER_STACK_TOP - 16
     in case write_at sp at_random_ptr random_bytes s1 of
          (False, s2) \<Rightarrow> Some (None, s2, vm1)
        | (True, s2) \<Rightarrow>
     let execfn_ptr = at_random_ptr - of_nat (length execfn + 1)
     in case write_at sp execfn_ptr execfn s2 of
          (False, s3) \<Rightarrow> Some (None, s3, vm1)
        | (True, s3) \<Rightarrow>
     case write_strs sp (rev argv) [] execfn_ptr s3 of
          (None, s4) \<Rightarrow> Some (None, s4, vm1)
        | (Some (argv_ptrs, cursor1), s4) \<Rightarrow>
     case write_strs sp (rev envp) [] cursor1 s4 of
          (None, s5) \<Rightarrow> Some (None, s5, vm1)
        | (Some (envp_ptrs, cursor2), s5) \<Rightarrow>
     case push_all sp
            (auxv_pushes l execfn_ptr at_random_ptr @ [0] @ rev envp_ptrs @ [0] @ rev argv_ptrs @ [of_nat (length argv)])
            (cursor2 AND NOT 15) s5 of
          (rsp, s6) \<Rightarrow> Some (rsp, s6, vm1))"

section \<open>Sequences of writes\<close>

lemma write_from_copy: "write_from sp v bs n s = copy_segment sp v bs n s"
proof (induction "length bs - n" arbitrary: n s rule: less_induct)
  case less
  have "unat ((v + of_nat n) mod PAGE_SIZE) = unat (v + of_nat n) mod 4096" by (simp add: PAGE_SIZE_def unat_mod)
  moreover have "length bs - (n + min (4096 - unat (v + of_nat n) mod 4096) (length bs - n)) < length bs - n" if "n < length bs"
  proof -
    have "unat (v + of_nat n) mod 4096 < 4096" by simp
    then have "0 < min (4096 - unat (v + of_nat n) mod 4096) (length bs - n)" using that by linarith
    then show ?thesis using that by linarith
  qed
  ultimately show ?case using less
    by (subst write_from.simps, subst copy_segment.simps) (simp add: Let_def min.commute split: option.split)
qed

definition put_all :: "(nat \<times> u8 list) list \<Rightarrow> (u64 \<Rightarrow> u8 option) \<Rightarrow> u64 \<Rightarrow> u8 option" where
  "put_all W g = fold (\<lambda>(v, bs) g. put_at g (of_nat v) bs) W g"

fun write_list :: "address_space \<Rightarrow> (nat \<times> u8 list) list \<Rightarrow> kmem \<Rightarrow> bool \<times> kmem" where
  "write_list sp [] s = (True, s)"
| "write_list sp ((v, bs) # W) s =
     (case write_at sp (of_nat v) bs s of (False, s1) \<Rightarrow> (False, s1) | (True, s1) \<Rightarrow> write_list sp W s1)"

text \<open>\<open>desc lo c W\<close>: the writes go down from \<open>c\<close>, each below the one before, and stay above \<open>lo\<close>.\<close>

fun desc :: "nat \<Rightarrow> nat \<Rightarrow> (nat \<times> u8 list) list \<Rightarrow> bool" where
  "desc lo c [] \<longleftrightarrow> lo \<le> c"
| "desc lo c ((v, bs) # W) \<longleftrightarrow> v + length bs \<le> c \<and> desc lo v W"

lemma put_all_simps [simp]: "put_all [] g = g" "put_all ((v, bs) # W) g = put_all W (put_at g (of_nat v) bs)"
  by (simp_all add: put_all_def)

lemma put_all_append: "put_all (V @ W) g = put_all W (put_all V g)"
  by (simp add: put_all_def)

lemma desc_bound: "desc lo c W \<Longrightarrow> lo \<le> c"
  by (induction W arbitrary: c) force+

lemma desc_weaken: "desc lo c W \<Longrightarrow> c \<le> d \<Longrightarrow> desc lo d W"
  by (cases W) auto

lemma desc_append: "desc m c V \<Longrightarrow> desc lo m W \<Longrightarrow> desc lo c (V @ W)"
  by (induction V arbitrary: c) (auto intro: desc_weaken)

lemma put_at_other:
  assumes "v + length bs \<le> 2 ^ 47" "\<not> (v \<le> unat w \<and> unat w < v + length bs)"
  shows "put_at g (of_nat v) bs w = g w"
proof -
  have u: "unat (of_nat v :: u64) = v" using assms(1) by (intro unat_nat64) simp
  then have "\<not> unat (w - of_nat v) < length bs"
    using unat_diff_span [of "of_nat v" "length bs" w] assms by (simp add: span_def)
  then show ?thesis by (simp add: put_at_def)
qed

lemma put_all_above: "desc lo c W \<Longrightarrow> c \<le> 2 ^ 47 \<Longrightarrow> c \<le> unat w \<or> unat w < lo \<Longrightarrow> put_all W g w = g w"
proof (induction W arbitrary: c g)
  case (Cons x W)
  obtain v bs where x: "x = (v, bs)" by (cases x)
  have "lo \<le> v" using Cons(2) x desc_bound [of lo v W] by simp
  then have "put_at g (of_nat v) bs w = g w" using Cons(2-4) x by (intro put_at_other) auto
  then show ?case using Cons x by auto
qed simp

lemma put_all_at:
  assumes "desc lo c W" "c \<le> 2 ^ 47" "(v, bs) \<in> set W" "i < length bs"
  shows "put_all W g (of_nat (v + i)) = Some (bs ! i)"
  using assms
proof (induction W arbitrary: c g)
  case (Cons x W)
  obtain w cs where x: "x = (w, cs)" by (cases x)
  show ?case
  proof (cases "(v, bs) \<in> set W")
    case True
    then show ?thesis using Cons x by auto
  next
    case False
    then have e: "w = v" "cs = bs" using Cons(4) x by auto
    have b: "v + length bs \<le> c" "desc lo v W" using Cons(2) x e by auto
    have u: "unat (of_nat (v + i) :: u64) = v + i" "unat (of_nat i :: u64) = i"
      by (rule unat_nat64; use Cons(3,5) b in simp)+
    have "put_all W (put_at g (of_nat v) bs) (of_nat (v + i)) = put_at g (of_nat v) bs (of_nat (v + i))"
      by (rule put_all_above [OF b(2)]) (use b Cons(3) in simp, unfold u, simp)
    also have "\<dots> = Some (bs ! i)" using Cons(5) u by (simp add: put_at_def)
    finally show ?thesis using x e by simp
  qed
qed simp

lemma write_list_law:
  assumes r: "root = pml4_phys sp" and c: "c \<le> 2 ^ 47"
  shows "desc lo c W \<Longrightarrow> user_img m0 B hh s root F g \<Longrightarrow> \<forall>v. lo \<le> unat v \<and> unat v < c \<longrightarrow> g v \<noteq> None \<Longrightarrow>
    \<exists>s'. write_list sp W s = (True, s') \<and> user_img m0 B hh s' root F (put_all W g)"
  using c
proof (induction W arbitrary: s g c)
  case (Cons x W)
  obtain v bs where x: "x = (v, bs)" by (cases x)
  have d: "v + length bs \<le> c" "desc lo v W" using Cons(2) x by auto
  have u: "unat (of_nat v :: u64) = v" using d(1) Cons(5) by (intro unat_nat64) simp
  have "g (of_nat v + of_nat i) \<noteq> None" if "i < length bs" for i
    using Cons(4,5) d desc_bound [OF d(2)] that u unat_plus_of_nat [of "of_nat v" i] by simp
  then obtain s1 where s1: "write_at sp (of_nat v) bs s = (True, s1)" "user_img m0 B hh s1 root F (put_at g (of_nat v) bs)"
    using copy_segment_law [OF r _ Cons(3), of "of_nat v" bs 0] d(1) Cons(5) u unfolding write_at_def write_from_copy by auto
  have "\<forall>w. lo \<le> unat w \<and> unat w < v \<longrightarrow> put_at g (of_nat v) bs w \<noteq> None" using Cons(4) d(1) by (simp add: put_at_def)
  moreover have "v \<le> 2 ^ 47" using d(1) Cons(5) by simp
  ultimately obtain s' where "write_list sp W s1 = (True, s')" "user_img m0 B hh s' root F (put_all W (put_at g (of_nat v) bs))"
    using Cons(1) [OF d(2) s1(2)] by blast
  then show ?case using s1(1) x by simp
qed simp

lemma write_list_append:
  "write_list sp (V @ W) s = (case write_list sp V s of (False, s1) \<Rightarrow> (False, s1) | (True, s1) \<Rightarrow> write_list sp W s1)"
  by (induction V arbitrary: s) (auto split: prod.split bool.split)

section \<open>The layout\<close>

text \<open>
  The reference: strings packed downwards from the top with a zero byte behind each, and below them the words
  a program finds at its stack pointer.
\<close>

definition strs_size :: "u8 list list \<Rightarrow> nat" where
  "strs_size strs = sum_list (map (\<lambda>x. length x + 1) strs)"

fun str_ptrs :: "nat \<Rightarrow> u8 list list \<Rightarrow> nat list" where
  "str_ptrs c [] = []"
| "str_ptrs c (x # xs) = (c - strs_size (x # xs)) # str_ptrs c xs"

definition random_at :: nat where "random_at = 0x7FFFFFFF0000 - 16"
definition execfn_at :: "u8 list \<Rightarrow> nat" where "execfn_at execfn = random_at - (length execfn + 1)"
definition envp_top :: "u8 list list \<Rightarrow> u8 list \<Rightarrow> nat" where "envp_top argv execfn = execfn_at execfn - strs_size argv"
definition words_top :: "u8 list list \<Rightarrow> u8 list list \<Rightarrow> u8 list \<Rightarrow> nat" where
  "words_top argv envp execfn = 16 * ((envp_top argv execfn - strs_size envp) div 16)"

definition auxv :: "loaded_elf \<Rightarrow> u8 list \<Rightarrow> (u64 \<times> u64) list" where
  "auxv l execfn =
     [(AT_UID, 0), (AT_EUID, 0), (AT_GID, 0), (AT_EGID, 0), (AT_PHDR, le_phdr_vaddr l), (AT_PHENT, ucast (le_phent l)),
      (AT_PHNUM, ucast (le_phnum l)), (AT_PAGESZ, 4096), (AT_BASE, le_load_base l), (AT_FLAGS, 0), (AT_ENTRY, le_entry l),
      (AT_RANDOM, of_nat random_at), (AT_EXECFN, of_nat (execfn_at execfn)), (AT_NULL, 0)]"

definition stack_words :: "loaded_elf \<Rightarrow> u8 list list \<Rightarrow> u8 list list \<Rightarrow> u8 list \<Rightarrow> u64 list" where
  "stack_words l argv envp execfn =
     [of_nat (length argv)] @ map of_nat (str_ptrs (execfn_at execfn) argv) @ [0] @
     map of_nat (str_ptrs (envp_top argv execfn) envp) @ [0] @ concat (map (\<lambda>(k, v). [k, v]) (auxv l execfn))"

definition stack_need :: "u8 list list \<Rightarrow> u8 list list \<Rightarrow> u8 list \<Rightarrow> nat" where
  "stack_need argv envp execfn =
     16 + (length execfn + 1) + strs_size argv + strs_size envp + 15 + 8 * (length argv + length envp + 31)"

definition initial_rsp :: "u8 list list \<Rightarrow> u8 list list \<Rightarrow> u8 list \<Rightarrow> nat" where
  "initial_rsp argv envp execfn = words_top argv envp execfn - 8 * (length argv + length envp + 31)"

text \<open>
  The writes of the code, in its order. The code writes the strings without a terminator (\<open>t = []\<close>); on zeroed
  pages this is the same as writing them with one (\<open>t = [0]\<close>).
\<close>

fun str_writes :: "u8 list \<Rightarrow> nat \<Rightarrow> u8 list list \<Rightarrow> (nat \<times> u8 list) list" where
  "str_writes t c [] = []"
| "str_writes t c (a # as) = (c - (length a + 1), a @ t) # str_writes t (c - (length a + 1)) as"

fun word_writes :: "nat \<Rightarrow> u64 list \<Rightarrow> (nat \<times> u8 list) list" where
  "word_writes r [] = []"
| "word_writes r (x # xs) = (r - 8, to_le_bytes 8 x) # word_writes (r - 8) xs"

definition stack_writes :: "u8 list \<Rightarrow> loaded_elf \<Rightarrow> u8 list list \<Rightarrow> u8 list list \<Rightarrow> u8 list \<Rightarrow> (nat \<times> u8 list) list" where
  "stack_writes t l argv envp execfn =
     [(random_at, random_bytes), (execfn_at execfn, execfn @ t)] @ str_writes t (execfn_at execfn) (rev argv) @
     str_writes t (envp_top argv execfn) (rev envp) @ word_writes (words_top argv envp execfn) (rev (stack_words l argv envp execfn))"

lemma strs_size_simps [simp]:
  "strs_size [] = 0" "strs_size (x # xs) = length x + 1 + strs_size xs" "strs_size (xs @ ys) = strs_size xs + strs_size ys"
  "strs_size (rev xs) = strs_size xs"
  by (simp_all add: strs_size_def rev_map [symmetric])

lemma of_nat_diff64: "b \<le> a \<Longrightarrow> (of_nat (a - b) :: u64) = of_nat a - of_nat b"
  by (rule of_nat_diff)

lemma write_strs_eq:
  "strs_size args \<le> c \<Longrightarrow> write_strs sp args ptrs (of_nat c) s =
    (case write_list sp (str_writes [] c args) s of
       (True, s1) \<Rightarrow> (Some (rev (ptrs @ map (of_nat \<circ> fst) (str_writes [] c args)), of_nat (c - strs_size args)), s1)
     | (False, s1) \<Rightarrow> (None, s1))"
proof (induction args arbitrary: ptrs c s)
  case (Cons a as)
  have e: "of_nat c - of_nat (length a + 1) = (of_nat (c - (length a + 1)) :: u64)" using Cons(2) by (simp add: of_nat_diff64)
  have d: "c - (length a + 1) - strs_size as = c - strs_size (a # as)" by simp
  show ?case
    unfolding write_strs.simps Let_def e str_writes.simps write_list.simps
    using Cons(1) [of "c - (length a + 1)"] Cons(2) d
    by (auto split: prod.split bool.split)
qed simp

lemma push_all_eq:
  "8 * length vals \<le> r \<Longrightarrow> push_all sp vals (of_nat r) s =
    (case write_list sp (word_writes r vals) s of
       (True, s1) \<Rightarrow> (Some (of_nat (r - 8 * length vals)), s1) | (False, s1) \<Rightarrow> (None, s1))"
proof (induction vals arbitrary: r s)
  case (Cons x xs)
  have e: "of_nat r - 8 = (of_nat (r - 8) :: u64)" using Cons(2) by (simp add: of_nat_diff64)
  have d: "r - 8 - 8 * length xs = r - 8 * length (x # xs)" by simp
  show ?case
    unfolding push_all.simps e word_writes.simps write_list.simps
    using Cons(1) [of "r - 8"] Cons(2) d by (auto split: prod.split bool.split)
qed simp

lemma str_writes_snoc: "str_writes t c (xs @ [x]) = str_writes t c xs @ [(c - strs_size xs - (length x + 1), x @ t)]"
  by (induction xs arbitrary: c) simp_all

lemma str_ptrs_rev: "map fst (str_writes t c (rev strs)) = rev (str_ptrs c strs)"
  by (induction strs) (simp_all add: str_writes_snoc)

lemma length_str_ptrs [simp]: "length (str_ptrs c strs) = length strs"
  by (induction strs) simp_all

lemma length_stack_words: "length (stack_words l argv envp execfn) = length argv + length envp + 31"
  by (simp add: stack_words_def auxv_def)

lemma and_not_mask: "(x :: u64) AND NOT (mask k) = push_bit k (drop_bit k x)"
  by (rule bit_eqI) (auto simp: bit_simps)

lemma align16: "n < 2 ^ 64 \<Longrightarrow> (of_nat n :: u64) AND NOT 15 = of_nat (16 * (n div 16))"
proof -
  assume n: "n < 2 ^ 64"
  have "(of_nat n :: u64) AND NOT 15 = push_bit 4 (drop_bit 4 (of_nat n))"
    using and_not_mask [of "of_nat n :: u64" 4] by (simp add: mask_eq_exp_minus_1)
  also have "\<dots> = of_nat (16 * (n div 16))"
    using n by (simp add: drop_bit_eq_div push_bit_eq_mult word_arith_nat_div unat_nat64)
  finally show ?thesis .
qed

lemma stack_bounds:
  assumes "stack_need argv envp execfn \<le> 65536"
  shows "length execfn + 1 \<le> random_at" "strs_size argv \<le> execfn_at execfn" "strs_size envp \<le> envp_top argv execfn"
    "8 * (length argv + length envp + 31) \<le> words_top argv envp execfn" "words_top argv envp execfn \<le> envp_top argv execfn - strs_size envp"
    "0x7FFFFFFE0000 \<le> initial_rsp argv envp execfn"
  using assms by (simp_all add: stack_need_def random_at_def execfn_at_def envp_top_def words_top_def initial_rsp_def)

lemma USER_STACK_TOP_nat: "USER_STACK_TOP = of_nat 0x7FFFFFFF0000"
  by (simp add: USER_STACK_TOP_def)

lemma stack_word_list:
  "auxv_pushes l (of_nat (execfn_at execfn)) (of_nat random_at) @ [0] @ rev (map of_nat (str_ptrs (envp_top argv execfn) envp)) @ [0] @
     rev (map of_nat (str_ptrs (execfn_at execfn) argv)) @ [of_nat (length argv)] = rev (stack_words l argv envp execfn)"
  by (simp add: auxv_pushes_def stack_words_def auxv_def PAGE_SIZE_def)

lemma build_user_stack_eq:
  assumes "stack_need argv envp execfn \<le> 65536"
  shows "build_user_stack sp l argv envp execfn vm s =
    (case map_user_stack sp vm s of
       None \<Rightarrow> None
     | Some (False, s1, vm1) \<Rightarrow> Some (None, s1, vm1)
     | Some (True, s1, vm1) \<Rightarrow>
         (case write_list sp (stack_writes [] l argv envp execfn) s1 of
            (b, s2) \<Rightarrow> Some (if b then Some (of_nat (initial_rsp argv envp execfn)) else None, s2, vm1)))"
proof -
  note b = stack_bounds [OF assms]
  let ?x = "execfn_at execfn" and ?e = "envp_top argv execfn"
  have r: "USER_STACK_TOP - 16 = of_nat random_at" by (simp add: USER_STACK_TOP_def random_at_def)
  have x: "of_nat random_at - of_nat (length execfn + 1) = (of_nat ?x :: u64)" using b(1) by (simp only: execfn_at_def of_nat_diff64)
  have p: "rev (rev (map (of_nat \<circ> fst) (str_writes [] c (rev strs)))) = rev (map of_nat (str_ptrs c strs))" for c strs
    using str_ptrs_rev [of "[]" c strs] by (simp add: rev_map flip: map_map)
  have a: "of_nat (?e - strs_size envp) AND NOT (15 :: u64) = of_nat (words_top argv envp execfn)"
    unfolding words_top_def by (rule align16) (simp add: envp_top_def execfn_at_def random_at_def)
  have w: "8 * length (rev (stack_words l argv envp execfn)) \<le> words_top argv envp execfn"
    "words_top argv envp execfn - 8 * length (rev (stack_words l argv envp execfn)) = initial_rsp argv envp execfn"
    using b(4) by (simp_all add: length_stack_words initial_rsp_def)
  have s1: "strs_size (rev argv) \<le> ?x" "strs_size (rev envp) \<le> ?e" "?x - strs_size (rev argv) = ?e" using b by (simp_all add: envp_top_def)
  have pa: "rev (map (of_nat \<circ> fst) (str_writes [] c (rev strs))) = map of_nat (str_ptrs c strs)" for c strs
    using p [of c strs] by (metis rev_rev_ident)
  show ?thesis
  proof (cases "map_user_stack sp vm s")
    case None
    then show ?thesis by (simp add: build_user_stack_def)
  next
    case (Some y)
    obtain b0 t1 vm1 where y: "y = (b0, t1, vm1)" by (cases y)
    obtain b1 t2 where w1: "write_at sp (of_nat random_at) random_bytes t1 = (b1, t2)" by fastforce
    obtain b2 t3 where w2: "write_at sp (of_nat ?x) execfn t2 = (b2, t3)" by fastforce
    obtain b3 t4 where w3: "write_list sp (str_writes [] ?x (rev argv)) t3 = (b3, t4)" by fastforce
    obtain b4 t5 where w4: "write_list sp (str_writes [] ?e (rev envp)) t4 = (b4, t5)" by fastforce
    obtain b5 t6 where w5: "write_list sp (word_writes (words_top argv envp execfn) (rev (stack_words l argv envp execfn))) t5 = (b5, t6)"
      by fastforce
    have l: "write_list sp (stack_writes [] l argv envp execfn) t1 =
      (if \<not> b1 then (False, t2) else if \<not> b2 then (False, t3) else if \<not> b3 then (False, t4) else if \<not> b4 then (False, t5) else (b5, t6))"
      unfolding stack_writes_def by (cases b5) (simp_all add: write_list_append w1 w2 w3 w4 w5)
    have v3: "write_strs sp (rev argv) [] (of_nat ?x) t3 =
      (if b3 then Some (map of_nat (str_ptrs ?x argv), of_nat ?e) else None, t4)"
      unfolding write_strs_eq [OF s1(1)] w3 s1(3) append_Nil pa by simp
    have v4: "write_strs sp (rev envp) [] (of_nat ?e) t4 =
      (if b4 then Some (map of_nat (str_ptrs ?e envp), of_nat (?e - strs_size envp)) else None, t5)"
      unfolding write_strs_eq [OF s1(2)] w4 append_Nil pa by simp
    have v5: "push_all sp (rev (stack_words l argv envp execfn)) (of_nat (words_top argv envp execfn)) t5 =
      (if b5 then Some (of_nat (initial_rsp argv envp execfn)) else None, t6)"
      unfolding push_all_eq [OF w(1)] w5 w(2) by simp
    have "build_user_stack sp l argv envp execfn vm s =
      (if \<not> b0 then Some (None, t1, vm1) else if \<not> b1 then Some (None, t2, vm1) else if \<not> b2 then Some (None, t3, vm1)
       else if \<not> b3 then Some (None, t4, vm1) else if \<not> b4 then Some (None, t5, vm1)
       else Some (if b5 then Some (of_nat (initial_rsp argv envp execfn)) else None, t6, vm1))"
      unfolding build_user_stack_def Let_def r x Some y option.case prod.case w1
      by (cases b0; cases b1; simp only: bool.case w2 prod.case if_True if_False not_True_eq_False not_False_eq_True;
          cases b2; simp only: bool.case v3 prod.case if_True if_False option.case not_True_eq_False not_False_eq_True;
          cases b3; simp only: v4 prod.case if_True if_False option.case a stack_word_list v5 not_True_eq_False not_False_eq_True;
          cases b4; simp only: prod.case if_True if_False option.case a stack_word_list v5 not_True_eq_False not_False_eq_True)
    then show ?thesis using Some y l by (cases b0) (simp_all split del: if_split, simp split: if_split)
  qed
qed

lemma desc_str_writes: "strs_size strs \<le> c \<Longrightarrow> length t \<le> 1 \<Longrightarrow> desc (c - strs_size strs) c (str_writes t c strs)"
proof (induction strs arbitrary: c)
  case (Cons x xs)
  then show ?case using Cons(1) [of "c - (length x + 1)"] by simp
qed simp

lemma desc_word_writes: "8 * length xs \<le> r \<Longrightarrow> desc (r - 8 * length xs) r (word_writes r xs)"
proof (induction xs arbitrary: r)
  case (Cons x xs)
  then show ?case using Cons(1) [of "r - 8"] by (simp add: to_le_bytes_def)
qed simp

lemma desc_stack_writes:
  assumes "stack_need argv envp execfn \<le> 65536" "length t \<le> 1"
  shows "desc (initial_rsp argv envp execfn) 0x7FFFFFFF0000 (stack_writes t l argv envp execfn)"
proof -
  note b = stack_bounds [OF assms(1)]
  have "desc (initial_rsp argv envp execfn) (words_top argv envp execfn)
      (word_writes (words_top argv envp execfn) (rev (stack_words l argv envp execfn)))"
    using desc_word_writes [of "rev (stack_words l argv envp execfn)" "words_top argv envp execfn"] b(4)
    by (simp add: length_stack_words initial_rsp_def)
  then have "desc (initial_rsp argv envp execfn) (envp_top argv execfn) (str_writes t (envp_top argv execfn) (rev envp) @
      word_writes (words_top argv envp execfn) (rev (stack_words l argv envp execfn)))"
    using desc_str_writes [of "rev envp" "envp_top argv execfn" t] assms(2) b(3,5) by (auto intro: desc_append desc_weaken)
  moreover have "desc (envp_top argv execfn) (execfn_at execfn) (str_writes t (execfn_at execfn) (rev argv))"
    using desc_str_writes [of "rev argv" "execfn_at execfn" t] assms(2) b(2) by (simp add: envp_top_def)
  ultimately have "desc (initial_rsp argv envp execfn) (execfn_at execfn) (str_writes t (execfn_at execfn) (rev argv) @
      str_writes t (envp_top argv execfn) (rev envp) @ word_writes (words_top argv envp execfn) (rev (stack_words l argv envp execfn)))"
    by (auto intro: desc_append)
  then show ?thesis using assms(2) b(1) unfolding stack_writes_def by (simp add: execfn_at_def random_at_def random_bytes_def)
qed

text \<open>On zeroed memory a write is the same with a zero byte behind it.\<close>

definition pads :: "nat \<times> u8 list \<Rightarrow> nat \<times> u8 list \<Rightarrow> bool" where
  "pads x y \<longleftrightarrow> fst y = fst x \<and> (snd y = snd x \<or> snd y = snd x @ [0])"

lemma put_at_pad:
  assumes "v + length bs < 2 ^ 64" "g (of_nat (v + length bs)) = Some 0"
  shows "put_at g (of_nat v) (bs @ [0]) = put_at g (of_nat v) bs"
proof
  fix w :: u64
  have "w = of_nat (v + length bs)" if "unat (w - of_nat v) = length bs"
  proof -
    have "w - of_nat v = of_nat (length bs)" using that unat_nat64 [of "length bs"] assms(1) by (simp add: word_unat_eq_iff)
    then show ?thesis by (simp add: algebra_simps)
  qed
  then show "put_at g (of_nat v) (bs @ [0]) w = put_at g (of_nat v) bs w"
    using assms(2) by (auto simp: put_at_def nth_append less_Suc_eq)
qed

lemma put_all_pads:
  "list_all2 pads W V \<Longrightarrow> desc lo c V \<Longrightarrow> c \<le> 2 ^ 47 \<Longrightarrow> \<forall>w. lo \<le> unat w \<and> unat w < c \<longrightarrow> g w = Some 0 \<Longrightarrow>
    put_all W g = put_all V g"
proof (induction W V arbitrary: g c rule: list_all2_induct)
  case (Cons x W y V)
  obtain v bs cs where x: "x = (v, bs)" "y = (v, cs)" using Cons(1) by (cases x, cases y) (auto simp: pads_def)
  have d: "v + length cs \<le> c" "desc lo v V" "lo \<le> v" using Cons(4) x desc_bound [of lo v V] by auto
  have e: "put_at g (of_nat v) bs = put_at g (of_nat v) cs"
  proof (cases "cs = bs")
    case False
    then have cs: "cs = bs @ [0]" using Cons(1) x by (simp add: pads_def)
    have "unat (of_nat (v + length bs) :: u64) = v + length bs" by (rule unat_nat64) (use d(1) Cons(5) cs in simp)
    then have "g (of_nat (v + length bs)) = Some 0" using Cons(6) d(1,3) cs by simp
    then show ?thesis using put_at_pad [of v bs g] d(1) Cons(5) cs by simp
  qed simp
  have "\<forall>w. lo \<le> unat w \<and> unat w < v \<longrightarrow> put_at g (of_nat v) cs w = Some 0"
    using put_at_other [of v cs] d(1) Cons(5,6) by simp
  then show ?case using Cons(3) [OF d(2)] d(1) Cons(5) x e by simp
qed simp

lemma pads_stack_writes: "list_all2 pads (stack_writes [] l argv envp execfn) (stack_writes [0] l argv envp execfn)"
proof -
  have "list_all2 pads (str_writes [] c strs) (str_writes [0] c strs)" for c strs
    by (induction strs arbitrary: c) (simp_all add: pads_def)
  moreover have "list_all2 pads (word_writes r ws) (word_writes r ws)" for r ws
    by (rule list_all2_refl) (simp add: pads_def)
  ultimately show ?thesis unfolding stack_writes_def by (auto intro!: list_all2_appendI simp: pads_def)
qed

lemma str_writes_ptrs: "list_all2 (\<lambda>p b. (p, b @ t) \<in> set (str_writes t c (rev strs))) (str_ptrs c strs) strs"
proof (induction strs)
  case (Cons x xs)
  then have "list_all2 (\<lambda>p b. (p, b @ t) \<in> set (str_writes t c (rev (x # xs)))) (str_ptrs c xs) xs"
    by (rule list_all2_mono) (simp add: str_writes_snoc)
  then show ?case by (simp add: str_writes_snoc add.commute)
qed simp

lemma word_writes_nth: "j < length xs \<Longrightarrow> (r - 8 * Suc j, to_le_bytes 8 (xs ! j)) \<in> set (word_writes r xs)"
proof (induction xs arbitrary: r j)
  case (Cons x xs)
  then show ?case using Cons(1) [of "j - 1" "r - 8"] by (cases j) simp_all
qed simp

section \<open>Committing the pages\<close>

lemma stack_flags_mask: "stack_pte_flags AND PTE_ADDR_MASK = 0"
  by (simp add: stack_pte_flags_def PTE_PRESENT_def PTE_WRITABLE_def PTE_USER_def PTE_NO_EXEC_def PTE_ADDR_MASK_def)

text \<open>
  Either all sixteen pages are mapped, or the frames ran out. The result of \<open>map\<close> is ignored: when it is
  the last page that cannot be mapped, the loop ends normally with that page missing.
\<close>

definition stack_lo :: nat where "stack_lo = 0x7FFFFFFE0"

definition commit_post :: "ram \<Rightarrow> nat set \<Rightarrow> u64 \<Rightarrow> u64 \<Rightarrow> (u64 \<Rightarrow> u8 option) \<Rightarrow> nat set \<Rightarrow> nat \<Rightarrow> bool \<Rightarrow> kmem \<Rightarrow> nat set \<Rightarrow> bool" where
  "commit_post m0 B hh root g F n b s' F' \<longleftrightarrow> F' \<subseteq> F \<and> card F \<le> card F' + 4 * n \<and>
     (b \<and> user_img m0 B hh s' root F' (set_range g (4096 * stack_lo) (4096 * (stack_lo + 16))) \<or>
      F' = {} \<and> (if b then user_img m0 B hh s' root {} (set_range g (4096 * stack_lo) (4096 * (stack_lo + 15)))
                 else \<exists>g'. user_img m0 B hh s' root {} g'))"

lemma stack_page:
  assumes "k \<le> 16"
  shows "unat (of_nat (4096 * (stack_lo + k)) :: u64) = 4096 * (stack_lo + k)"
    "(of_nat (4096 * (stack_lo + k)) :: u64) < USER_STACK_TOP \<longleftrightarrow> k < 16" "4096 * (stack_lo + k) < 2 ^ 47"
proof -
  show u: "unat (of_nat (4096 * (stack_lo + k)) :: u64) = 4096 * (stack_lo + k)"
    by (rule unat_nat64) (use assms in \<open>simp add: stack_lo_def\<close>)
  show "(of_nat (4096 * (stack_lo + k)) :: u64) < USER_STACK_TOP \<longleftrightarrow> k < 16"
    unfolding word_less_nat_alt u by (simp add: USER_STACK_TOP_def stack_lo_def)
qed (use assms in \<open>simp add: stack_lo_def\<close>)

lemma commit_stack_full:
  assumes "k \<le> 16" "user_img m0 B hh s root {} g"
  shows "commit_stack sp (of_nat (4096 * (stack_lo + k))) s = Some (k = 16, s)"
proof -
  have "alloc_zeroed_frame s = None"
    using alloc_zeroed_frame_law(2) [OF user_imgD(1) [OF assms(2)]] by (cases "alloc_zeroed_frame s") (auto simp: span_def)
  then show ?thesis using assms(1) stack_page(2) [OF assms(1)] by (subst commit_stack.simps) (simp del: of_nat_mult of_nat_add)
qed

lemma commit_stack_law:
  assumes r: "root = pml4_phys sp"
  shows "k \<le> 16 \<Longrightarrow> user_img m0 B hh s root F (set_range g (4096 * stack_lo) (4096 * (stack_lo + k))) \<Longrightarrow>
    \<exists>b s' F'. commit_stack sp (of_nat (4096 * (stack_lo + k))) s = Some (b, s') \<and> commit_post m0 B hh root g F (4096 * (16 - k)) b s' F'"
proof (induction "16 - k" arbitrary: k s F)
  case 0
  then have k: "k = 16" by simp
  then show ?case using 0(3) stack_page(2) [of 16] by (subst commit_stack.simps) (auto simp: commit_post_def simp del: of_nat_mult of_nat_add)
next
  case (Suc d)
  let ?v = "of_nat (4096 * (stack_lo + k)) :: u64"
  have k: "k < 16" "d = 16 - Suc k" using Suc(2) by simp_all
  have uv: "unat ?v = 4096 * (stack_lo + k)" and lt: "?v < USER_STACK_TOP" and lo: "unat ?v < 2 ^ 47"
    using stack_page [of k] k(1) by simp_all
  have nx: "?v + PAGE_SIZE = of_nat (4096 * (stack_lo + Suc k))" by (simp add: PAGE_SIZE_def)
  note i = Suc(4)
  show ?case
  proof (cases "alloc_zeroed_frame s")
    case None
    then have "F = {}" using alloc_None_empty [OF user_imgD(1) [OF i]] by (simp add: alloc_zeroed_frame_None)
    then have "commit_post m0 B hh root g F (4096 * (16 - k)) False s {}" using i by (auto simp: commit_post_def)
    then show ?thesis using None lt by (subst commit_stack.simps) auto
  next
    case (Some x)
    obtain fr s1 where x: "x = (fr, s1)" by (cases x)
    obtain b s2 where mp: "map_page s1 sp ?v fr stack_pte_flags = (b, s2)" by fastforce
    have st: "commit_stack sp ?v s = commit_stack sp (of_nat (4096 * (stack_lo + Suc k))) s2"
      unfolding nx [symmetric] using Some x mp lt by (subst commit_stack.simps) simp
    obtain F2 where F2: "F2 \<subseteq> F" "user_img m0 B hh s2 root F2 (if b then set_page (set_range g (4096 * stack_lo) (4096 * (stack_lo + k))) ?v
        else set_range g (4096 * stack_lo) (4096 * (stack_lo + k)))" "\<not> b \<longrightarrow> F2 = {}" "card F \<le> card F2 + 4 * 4096"
      using user_img_map [OF i Some [unfolded x] r lo stack_flags_mask mp] by blast
    show ?thesis
    proof (cases b)
      case True
      have "set_page (set_range g (4096 * stack_lo) (4096 * (stack_lo + k))) ?v = set_range g (4096 * stack_lo) (4096 * (stack_lo + Suc k))"
        unfolding set_page_range [OF uv] by (simp add: set_range_append)
      then obtain b' s' F' where c: "commit_stack sp (of_nat (4096 * (stack_lo + Suc k))) s2 = Some (b', s')"
        "commit_post m0 B hh root g F2 (4096 * (16 - Suc k)) b' s' F'"
        using Suc(1) [of "Suc k" s2 F2] F2(2) True k by auto
      have "card F \<le> card F' + 4 * (4096 * (16 - k))" "F' \<subseteq> F" using c(2) F2(1,4) k(1) by (auto simp: commit_post_def)
      then have "commit_post m0 B hh root g F (4096 * (16 - k)) b' s' F'" using c(2) by (simp add: commit_post_def)
      then show ?thesis using st c(1) by metis
    next
      case False
      have F: "F2 = {}" "card F \<le> 4 * (4096 * (16 - k))" using F2(3,4) False k(1) by simp_all
      have i2: "user_img m0 B hh s2 root {} (set_range g (4096 * stack_lo) (4096 * (stack_lo + k)))" using F2(2) False F(1) by simp
      have "commit_stack sp ?v s = Some (k = 15, s2)" unfolding st using commit_stack_full [of "Suc k", OF _ i2] k(1) by auto
      moreover have "commit_post m0 B hh root g F (4096 * (16 - k)) (k = 15) s2 {}" using i2 F by (auto simp: commit_post_def)
      ultimately show ?thesis by blast
    qed
  qed
qed

section \<open>What the program finds\<close>

definition user_bytes :: "kmem \<Rightarrow> address_space \<Rightarrow> nat \<Rightarrow> nat \<Rightarrow> u8 list option" where
  "user_bytes s sp v n = those (map (\<lambda>i. map_option (ram s) (translate s sp (of_nat (v + i)))) [0..<n])"

definition c_string :: "kmem \<Rightarrow> address_space \<Rightarrow> nat \<Rightarrow> u8 list \<Rightarrow> bool" where
  "c_string s sp p x \<longleftrightarrow> user_bytes s sp p (length x + 1) = Some (x @ [0])"

lemma those_nth: "(\<And>i. i < length xs \<Longrightarrow> f i = Some (xs ! i)) \<Longrightarrow> those (map f [0..<length xs]) = Some xs"
proof -
  assume "\<And>i. i < length xs \<Longrightarrow> f i = Some (xs ! i)"
  then have "map f [0..<length xs] = map Some xs" by (auto intro: nth_equalityI)
  moreover have "those (map Some xs) = Some xs" by (induction xs) simp_all
  ultimately show ?thesis by simp
qed

lemma user_bytes_written:
  assumes i: "user_img m0 B hh s (pml4_phys sp) F (put_all W g)" and W: "desc lo c W" "c \<le> 2 ^ 47" "(v, bs) \<in> set W"
  shows "user_bytes s sp v (length bs) = Some bs"
  unfolding user_bytes_def
proof (rule those_nth)
  fix j assume j: "j < length bs"
  have "v + length bs \<le> c" using W(1,3)
  proof (induction W arbitrary: c)
    case (Cons x W)
    obtain w cs where x: "x = (w, cs)" by (cases x)
    show ?case
    proof (cases "(v, bs) = x")
      case False
      then show ?thesis using Cons(1) [of w] Cons(2,3) x by auto
    qed (use Cons(2) in auto)
  qed simp
  then have "unat (of_nat (v + j) :: u64) < 2 ^ 47" using j W(2) by (subst unat_nat64) simp_all
  then show "map_option (ram s) (translate s sp (of_nat (v + j))) = Some (bs ! j)"
    using user_imgD(7) [OF i, of "of_nat (v + j)"] put_all_at [OF W j, of g] by (simp add: translate_lookup del: of_nat_add)
qed

lemma write_at_unmapped: "translate s sp v = None \<Longrightarrow> bs \<noteq> [] \<Longrightarrow> write_at sp v bs s = (False, s)"
  unfolding write_at_def by (subst write_from.simps) simp

lemma length_random_bytes: "length random_bytes = 16"
  by (simp add: random_bytes_def)

definition stack_img :: "loaded_elf \<Rightarrow> u8 list list \<Rightarrow> u8 list list \<Rightarrow> u8 list \<Rightarrow> (u64 \<Rightarrow> u8 option) \<Rightarrow> u64 \<Rightarrow> u8 option" where
  "stack_img l argv envp execfn g =
     put_all (stack_writes [0] l argv envp execfn) (set_range g (4096 * stack_lo) (4096 * (stack_lo + 16)))"

lemma stack_contents:
  assumes i: "user_img m0 B hh s (pml4_phys sp) F (stack_img l argv envp execfn g)"
    and n: "stack_need argv envp execfn \<le> 65536"
  shows "map (\<lambda>i. user_bytes s sp (initial_rsp argv envp execfn + 8 * i) 8) [0..<length argv + length envp + 31] =
      map (Some \<circ> to_le_bytes 8) (stack_words l argv envp execfn)"
    "list_all2 (c_string s sp) (str_ptrs (execfn_at execfn) argv) argv"
    "list_all2 (c_string s sp) (str_ptrs (envp_top argv execfn) envp) envp"
    "c_string s sp (execfn_at execfn) execfn" "user_bytes s sp random_at 16 = Some random_bytes"
proof -
  let ?W = "stack_writes [0] l argv envp execfn" and ?ws = "stack_words l argv envp execfn" and ?r = "words_top argv envp execfn"
  have d: "desc (initial_rsp argv envp execfn) 0x7FFFFFFF0000 ?W" by (rule desc_stack_writes [OF n]) simp
  have u: "user_bytes s sp v (length bs) = Some bs" if "(v, bs) \<in> set ?W" for v bs
    by (rule user_bytes_written [OF i [unfolded stack_img_def] d _ that]) simp
  have c: "c_string s sp p x" if "(p, x @ [0]) \<in> set ?W" for p x using u [OF that] by (simp add: c_string_def)
  show "list_all2 (c_string s sp) (str_ptrs (execfn_at execfn) argv) argv"
    by (rule list_all2_mono [OF str_writes_ptrs [of "[0]"]]) (rule c, simp add: stack_writes_def)
  show "list_all2 (c_string s sp) (str_ptrs (envp_top argv execfn) envp) envp"
    by (rule list_all2_mono [OF str_writes_ptrs [of "[0]"]]) (rule c, simp add: stack_writes_def)
  show "c_string s sp (execfn_at execfn) execfn" by (rule c) (simp add: stack_writes_def)
  show "user_bytes s sp random_at 16 = Some random_bytes" using u [of random_at random_bytes] by (simp add: stack_writes_def length_random_bytes)
  let ?n = "length argv + length envp + 31"
  have "user_bytes s sp (initial_rsp argv envp execfn + 8 * j) 8 = Some (to_le_bytes 8 (?ws ! j))" if j: "j < ?n" for j
  proof -
    have m: "?n - Suc j < length (rev ?ws)" "rev ?ws ! (?n - Suc j) = ?ws ! j" using j by (simp_all add: length_stack_words rev_nth)
    have "?r - 8 * Suc (?n - Suc j) = initial_rsp argv envp execfn + 8 * j"
      using stack_bounds(4) [OF n] j by (simp add: initial_rsp_def)
    then have "(initial_rsp argv envp execfn + 8 * j, to_le_bytes 8 (?ws ! j)) \<in> set ?W"
      using word_writes_nth [OF m(1), of ?r] m(2) by (simp add: stack_writes_def)
    from u [OF this] show ?thesis by (simp add: to_le_bytes_def)
  qed
  then show "map (\<lambda>i. user_bytes s sp (initial_rsp argv envp execfn + 8 * i) 8) [0..<?n] = map (Some \<circ> to_le_bytes 8) ?ws"
    by (intro nth_equalityI) (simp_all add: length_stack_words)
qed

lemma build_user_stack_law:
  assumes "user_img m0 B hh s (pml4_phys sp) F g" "stack_need argv envp execfn \<le> 65536"
    and "\<And>v. 0x7FFFFFFE0000 \<le> unat v \<Longrightarrow> unat v < 0x7FFFFFFF0000 \<Longrightarrow> g v = None"
  shows "\<exists>r s' F'. build_user_stack sp l argv envp execfn vm s = Some (r, s', add_vma vm USER_STACK_BOTTOM USER_STACK_TOP stack_flags) \<and>
    F' \<subseteq> F \<and> card F \<le> card F' + 4 * 65536 \<and>
    (case r of
       None \<Rightarrow> F' = {} \<and> (\<exists>g'. user_img m0 B hh s' (pml4_phys sp) {} g')
     | Some rsp \<Rightarrow> rsp = of_nat (initial_rsp argv envp execfn) \<and> user_img m0 B hh s' (pml4_phys sp) F' (stack_img l argv envp execfn g))"
proof -
  let ?root = "pml4_phys sp" and ?W = "stack_writes [] l argv envp execfn" and ?V = "stack_writes [0] l argv envp execfn"
  let ?vm = "add_vma vm USER_STACK_BOTTOM USER_STACK_TOP stack_flags" and ?lo = "initial_rsp argv envp execfn"
  let ?g = "\<lambda>k. set_range g (4096 * stack_lo) (4096 * (stack_lo + k))"
  have "user_img m0 B hh s ?root F (?g 0)" using assms(1) by simp
  then obtain b t F1 where c: "commit_stack sp (of_nat (4096 * (stack_lo + 0))) s = Some (b, t)" "commit_post m0 B hh ?root g F 65536 b t F1"
    using commit_stack_law [OF refl, of 0 m0 B hh s sp F g] by auto
  then have mus: "map_user_stack sp vm s = Some (b, t, ?vm)"
    by (simp add: map_user_stack_def USER_STACK_TOP_def stack_lo_def)
  have F1: "F1 \<subseteq> F" "card F \<le> card F1 + 4 * 65536" using c(2) by (simp_all add: commit_post_def)
  consider (ok) "b" "user_img m0 B hh t ?root F1 (?g 16)" | (fail) g' where "\<not> b" "F1 = {}" "user_img m0 B hh t ?root {} g'"
    | (last) "b" "F1 = {}" "user_img m0 B hh t ?root {} (?g 15)"
    using c(2) by (auto simp: commit_post_def split: if_splits)
  then show ?thesis
  proof cases
    case ok
    have d: "desc ?lo 0x7FFFFFFF0000 ?W" "desc ?lo 0x7FFFFFFF0000 ?V" by (rule desc_stack_writes [OF assms(2)]; simp)+
    have z: "\<forall>w. ?lo \<le> unat w \<and> unat w < 0x7FFFFFFF0000 \<longrightarrow> ?g 16 w = Some 0"
      using stack_bounds(6) [OF assms(2)] by (auto simp: set_range_def stack_lo_def)
    have pad: "put_all ?W (?g 16) = put_all ?V (?g 16)" by (rule put_all_pads [OF pads_stack_writes d(2) _ z]) simp
    obtain s' where w: "write_list sp ?W t = (True, s')" "user_img m0 B hh s' ?root F1 (put_all ?V (?g 16))"
      using write_list_law [OF refl _ d(1) ok(2)] z pad by auto
    then show ?thesis using build_user_stack_eq [OF assms(2)] mus ok(1) F1 by (auto simp: stack_img_def)
  next
    case fail
    then show ?thesis using build_user_stack_eq [OF assms(2)] mus F1(2) by auto
  next
    case last
    have u: "unat (of_nat random_at :: u64) = random_at" by (rule unat_nat64) (simp add: random_at_def)
    then have "g (of_nat random_at) = None" using assms(3) [of "of_nat random_at"] by (simp add: random_at_def)
    then have "translate t sp (of_nat random_at) = None"
      using user_imgD(7) [OF last(3), of "of_nat random_at"] u by (simp add: translate_lookup random_at_def set_range_def stack_lo_def)
    then have "write_list sp ?W t = (False, t)" by (simp add: stack_writes_def write_at_unmapped random_bytes_def)
    then show ?thesis using build_user_stack_eq [OF assms(2)] mus last F1(2) by auto
  qed
qed

lemma stack_img_other:
  assumes "stack_need argv envp execfn \<le> 65536" "unat v < 0x7FFFFFFE0000"
  shows "stack_img l argv envp execfn g v = g v"
proof -
  have "stack_img l argv envp execfn g v = set_range g (4096 * stack_lo) (4096 * (stack_lo + 16)) v"
    unfolding stack_img_def
    by (rule put_all_above [OF desc_stack_writes [OF assms(1)]]) (use assms(2) stack_bounds(6) [OF assms(1)] in auto)
  then show ?thesis using assms(2) by (simp add: set_range_def stack_lo_def)
qed


text \<open>A hundred and twenty-eight free frames at two MiB, and an empty root table at one MiB.\<close>

definition stack_mem :: kmem where
  "stack_mem =
     \<lparr>hhdm = 0xFFFF800000000000, ram = (\<lambda>_. 0),
      PMM = buddy_new\<lparr>lists := (lists buddy_new)[7 := \<lparr>fl_head = 0xFFFF800000200000, fl_count = 1\<rparr>]\<rparr>,
      FREE_PAGES = 128, TOTAL_PAGES = 128\<rparr>"

lemma stack_mem_img:
  "user_img (ram stack_mem) ({0x200000..<0x280000} \<union> tables (ram stack_mem) 0x100000) (hhdm stack_mem) stack_mem 0x100000 {0x200000..<0x280000} (\<lambda>_. None)"
  "user_addr v \<Longrightarrow> lookup (ram stack_mem) 0x100000 v = None"
proof -
  let ?ls = "(replicate 13 [])[7 := [0x200000]] :: alists" and ?F = "{0x200000..<0x280000} :: nat set"
  have b: "blocks ?ls = {(7, 0x200000)}" by (auto simp: blocks_def nth_list_update split: if_splits)
  then have sp: "space ?ls = ?F" by (simp add: space_def bspan_def span_def)
  have "rep stack_mem ?ls"
    by (auto simp: rep_def stack_mem_def buddy_new_def MAX_ORDER_def fl_empty_def nth_list_update load64_zero)
  moreover have "lists_ok ?ls" by (auto simp: lists_ok_def nth_list_update)
  then have "ok (hhdm stack_mem) ?ls" by (simp add: ok_def wf_blocks_def b bspan_def span_def aligned_def stack_mem_def)
  ultimately have "pmm_inv stack_mem ?ls" by (simp add: pmm_inv_def sp stack_mem_def)
  then have fs: "free_space stack_mem ?F" using sp by (auto simp: free_space_def)
  have "pte (ram stack_mem) t i = 0" for t i by (simp add: pte_def stack_mem_def load64_zero)
  note e = empty_root_inv [of "0x100000" "ram stack_mem" ?F, OF _ this]
  have "?F \<subseteq> {..<2 ^ 52}" "span 0x100000 4096 \<inter> ?F = {}" "aligned 12 0x100000" by (auto simp: span_def aligned_def)
  then have f: "pt_inv (ram stack_mem) 0x100000 ?F" "user_addr v \<Longrightarrow> lookup (ram stack_mem) 0x100000 v = None" for v using e by blast+
  show "user_img (ram stack_mem) (?F \<union> tables (ram stack_mem) 0x100000) (hhdm stack_mem) stack_mem 0x100000 ?F (\<lambda>_. None)"
    by (rule user_img_empty [OF fs f(1)]) (use f(2) in blast)
  show "user_addr v \<Longrightarrow> lookup (ram stack_mem) 0x100000 v = None" by (rule f(2))
qed


end
