(* ===== verification/Spec2Isabelle.thy ===== *)
theory Spec2Isabelle
  imports Fork Irq Pci Fileops Kheap Exec Ustack
begin

text \<open>
  Verification of SarOS, a kernel for x86-64 written in Rust (\<open>src/src\<close>).

  \<^bold>\<open>The program.\<close> The boot loader hands over a memory map and the offset of a direct map of physical memory. The
  frame allocator (\<open>mm/pmm.rs\<close>) takes the usable memory; the page tables (\<open>mm/vmm.rs\<close>) and the kernel heap
  (\<open>mm/heap.rs\<close>) take their frames from it. Processes (\<open>proc.rs\<close>) own an address space and a kernel stack and are
  run by a priority scheduler under a spin lock (\<open>sync/spinlock.rs\<close>) with interrupts off; \<open>proc/fork.rs\<close> duplicates
  one, \<open>proc/elf.rs\<close> and \<open>proc/stack.rs\<close> prepare the memory of a new program. Drivers talk to their devices through
  ports (\<open>arch/x86_64/io.rs\<close>). The file system (\<open>fs\<close>) is a mount table over memory file systems and FAT32 volumes,
  which read their blocks from the ATA driver.

  \<^bold>\<open>Conventions.\<close> Rust's integers are words and wrap, as the release profile does. Physical memory is a function from
  addresses to bytes; \<open>kmem\<close> (in \<open>Pmm\<close>) adds the allocator's globals, and a pointer into the direct map is an address
  with the offset \<open>hhdm\<close>. A call that panics or does not return is \<open>None\<close> (\<open>Panic\<close> in the file system). Operations
  pass the state explicitly; concurrency is a step relation in which one atomic access is one step. Devices, the
  content of CR3, the time stamp counter, addresses of assembly labels and the memory behind the end of a slice are
  arguments. Log output is left out everywhere.

  \<^bold>\<open>The theories.\<close>
  \<^item> \<open>Prelude\<close>: word and memory vocabulary, alignment, and the locale \<open>transition_invariant\<close>, the induction over the
    runs of a machine, which every state machine below interprets.
  \<^item> \<open>Pmm\<close>, \<open>Buddy\<close>, \<open>Frames\<close>: \<open>mm/pmm.rs\<close>. \<open>Pmm\<close> is the code on the links stored in free blocks, \<open>Buddy\<close> an
    allocator on lists of addresses that it refines, \<open>Frames\<close> the contract over the set of free bytes: what \<open>alloc\<close>
    and \<open>free\<close> add, remove and leave alone, that they are inverse, when \<open>alloc\<close> fails, and what \<open>init\<close> makes free. The
    locales \<open>frame_allocator\<close> and \<open>frame_memory\<close> are the part its clients use.
  \<^item> \<open>Vmm\<close>, \<open>PageTables\<close>, \<open>Paging\<close>: \<open>mm/vmm.rs\<close>. \<open>Vmm\<close> is the code; \<open>PageTables\<close> reads the four-level tree out of
    memory (\<open>pt_inv\<close>, \<open>lookup\<close>) and shows \<open>map\<close> and \<open>unmap\<close> to be updates of the translation; \<open>Paging\<close> has the
    page-fault handlers, the creation and the destruction of address spaces.
  \<^item> \<open>Heap\<close>, \<open>Slab\<close>, \<open>Kheap\<close>: \<open>mm/heap.rs\<close>. The code, the shape of slabs and caches in their pages, and the heap as a
    machine whose invariant keeps the blocks of all clients apart and their contents intact.
  \<^item> \<open>Spinlock\<close>: \<open>sync/spinlock.rs\<close> with the interrupt flag. Mutual exclusion, reader counting and the restored flag,
    over all interleavings of any number of processors.
  \<^item> \<open>Proc\<close>, \<open>Sched\<close>: \<open>proc.rs\<close> and \<open>exit\<close> of \<open>syscall.rs\<close>. The invariant of the run queue in all reachable states,
    what \<open>schedule\<close> picks, bounded waiting, the time slice, and the register transfer of a context switch.
  \<^item> \<open>Fork\<close>: \<open>proc/fork.rs\<close>. Parent and child translate alike and lose write access; \<open>fork\<close> keeps the caller's memory
    and the scheduler's invariant; \<open>waitpid\<close> finds no child in any reachable state.
  \<^item> \<open>Umem\<close>, \<open>Elf\<close>, \<open>Exec\<close>, \<open>Ustack\<close>: \<open>proc/elf.rs\<close> and \<open>proc/stack.rs\<close>. \<open>Umem\<close> describes the memory a program sees
    through its tables (\<open>user_img\<close>); over it, the loader leaves exactly the segments of the file in a fresh address
    space, and the stack builder leaves the argument block below the top of the stack.
  \<^item> \<open>Ports\<close>, \<open>Keyboard\<close>, \<open>Irq\<close>, \<open>Pci\<close>, \<open>Ide\<close>: \<open>arch/x86_64/io.rs\<close>, \<open>pic.rs\<close> and \<open>timer.rs\<close> of the same directory,
    and \<open>drivers\<close>. A driver is a program over any device behind the ports. The keyboard buffer is a bounded queue
    (locale \<open>bounded_queue\<close>) and no wake-up is lost; the bus scan reports exactly the present functions; the disk driver
    sends exactly the accesses of the protocol, which a recorder in front of the device observes.
  \<^item> \<open>Vfs\<close>, \<open>Fat32\<close>, \<open>Inodes\<close>, \<open>Mount\<close>, \<open>Resolve\<close>, \<open>Fileops\<close>: \<open>fs\<close>. Types and errors, FAT32 volumes on the disk
    driver, the store of inodes, paths and the mount table with the calls by name. What is written reads back and
    nothing else changes; the whole stays well formed under every sequence of calls; a file read from a FAT32 volume is
    the bytes of its cluster chain; chains and link circles end.

  \<^bold>\<open>Loops and bounds.\<close> Loops that may not end are partial functions, and theorems state that they return: removal from a
  free list, the hand-over of a region, the slab lists and the pages of the loader and the stack. Waiting for a device
  has no bound in the code, so its theorems speak of accesses made until it answers. The cluster chain is followed with
  the code's own counter of a million, and links with its limit of forty, which are the fuel of those definitions. The
  loader's theorem needs at most four frames per page of the program, the stack's 64 in all: a page takes itself and up
  to three tables.

  \<^bold>\<open>Not modelled.\<close> \<open>proc/exec.rs\<close> (the composition of the parts above and the archive it searches), the dispatch
  of \<open>syscall.rs\<close> with console read and write and \<open>uname\<close>, and \<open>arch/x86_64/syscall_entry.rs\<close>; the descriptor tables
  and entry stubs of \<open>idt.rs\<close> and \<open>gdt.rs\<close>, which are constants and assembly; the boot requests of \<open>limine.rs\<close> and
  \<open>main.rs\<close>; \<open>drivers/vga.rs\<close>, \<open>bmp.rs\<close>, \<open>logger.rs\<close> and the \<open>shell\<close>, which only draw or print; \<open>sleep_busy\<close> and the
  wait of \<open>calibrate_tsc\<close> in \<open>timer.rs\<close>, which spin on the clock; the wrappers of single instructions in \<open>io.rs\<close>; TLB
  flushes; weak memory orders.
\<close>

end
